(* ===== verification/Prelude.thy ===== *)
theory Prelude
  imports Main "HOL-Library.Word" "HOL-Library.Finite_Map" "HOL-Library.Monad_Syntax"
begin

text \<open>
  Shared vocabulary of the development: the Go machine types, the error values of the program,
  byte buffers with Go's bounds checks, big-endian integers (encoding/binary), two's complement
  conversions, Go maps as finite maps with an unspecified iteration order, and the interface
  of a wire codec as a locale.
\<close>

unbundle bit_operations_syntax

section \<open>Machine types\<close>

type_synonym u8 = "8 word"
type_synonym u16 = "16 word"
type_synonym u32 = "32 word"
type_synonym u64 = "64 word"
type_synonym bytes = "8 word list"

text \<open>
  Signed machine integers are \<open>int\<close> values in their range; a result that may leave the range
  goes through \<open>wrap32\<close> or \<open>wrap64\<close>, Go's two's complement wrap-around.
\<close>

definition wrap32 :: "int \<Rightarrow> int" where
  "wrap32 x = (x + 2 ^ 31) mod 2 ^ 32 - 2 ^ 31"

definition wrap64 :: "int \<Rightarrow> int" where
  "wrap64 x = (x + 2 ^ 63) mod 2 ^ 64 - 2 ^ 63"

text \<open>Go's integer division truncates towards zero.\<close>

definition go_div :: "int \<Rightarrow> int \<Rightarrow> int" where
  "go_div a b = sgn a * sgn b * (\<bar>a\<bar> div \<bar>b\<bar>)"

text \<open>The error values that the modelled functions return.\<close>

datatype go_error =
    ErrPacketTooShort | ErrInvalidChecksum | ErrInvalidVersion
  | ErrFrameTooShort | ErrPayloadTooLarge | ErrInvalidFrameType
  | ErrStreamTooShort | ErrStreamClosed
  | ErrDialTimeout | ErrEOF | ErrClosedPipe
  | ErrTransportClosed | ErrIO nat

named_theorems codec_simps \<open>unfolding of encoders, decoders and flag tests\<close>
named_theorems step_defs \<open>definitions of the operations of a component\<close>

section \<open>Byte buffers\<close>

text \<open>
  A buffer is a byte list whose capacity is its length. \<open>put_at off bs buf\<close> is a write of the
  fixed slice \<open>buf[off:off+len(bs)]\<close>; the slice expression panics when it is out of range, which
  is \<open>None\<close>. \<open>copy_at off src buf\<close> is \<open>copy(buf[off:], src)\<close>: it copies as many bytes as
  fit and panics only when \<open>off\<close> is past the end.
\<close>

definition put_at :: "nat \<Rightarrow> bytes \<Rightarrow> bytes \<Rightarrow> bytes option" where
  "put_at off bs buf =
     (if off + length bs \<le> length buf
      then Some (take off buf @ bs @ drop (off + length bs) buf) else None)"

definition copy_at :: "nat \<Rightarrow> bytes \<Rightarrow> bytes \<Rightarrow> bytes option" where
  "copy_at off src buf =
     (if off \<le> length buf
      then Some (take off buf @ take (length buf - off) src @ drop (off + length src) buf)
      else None)"

text \<open>A slice expression \<open>data[i:j]\<close> whose bounds the caller has checked.\<close>

definition slice :: "nat \<Rightarrow> nat \<Rightarrow> bytes \<Rightarrow> bytes" where
  "slice i j data = take (j - i) (drop i data)"

section \<open>Big-endian integers\<close>

definition be16 :: "u16 \<Rightarrow> bytes" where
  "be16 v = [ucast (drop_bit 8 v), ucast v]"

definition be32 :: "u32 \<Rightarrow> bytes" where
  "be32 v = [ucast (drop_bit 24 v), ucast (drop_bit 16 v), ucast (drop_bit 8 v), ucast v]"

fun get16 :: "bytes \<Rightarrow> u16" where
  "get16 (a # b # _) = ucast b OR push_bit 8 (ucast a)"
| "get16 _ = 0"

fun get32 :: "bytes \<Rightarrow> u32" where
  "get32 (a # b # c # d # _) =
     ucast d OR push_bit 8 (ucast c) OR push_bit 16 (ucast b) OR push_bit 24 (ucast a)"
| "get32 _ = 0"

section \<open>Go maps\<close>

text \<open>
  A Go map is a finite map. \<open>golen\<close> is the built-in \<open>len\<close>. A \<open>range\<close> loop visits every key
  once in an order the language leaves open: the order is an argument \<open>iter\<close> of the operations
  that range over a map, and \<open>iter_ok\<close> is what the language promises of it.
\<close>

definition golen :: "('k, 'v) fmap \<Rightarrow> nat" where
  "golen m = fcard (fmdom m)"

definition iter_ok :: "('k fset \<Rightarrow> 'k list) \<Rightarrow> bool" where
  "iter_ok iter \<longleftrightarrow> (\<forall>S. distinct (iter S) \<and> set (iter S) = fset S)"

section \<open>Lemmas on wrap-around\<close>

lemma wrap32_id: "- (2 ^ 31) \<le> x \<Longrightarrow> x < 2 ^ 31 \<Longrightarrow> wrap32 x = x"
  by (simp add: wrap32_def)

lemma wrap64_id: "- (2 ^ 63) \<le> x \<Longrightarrow> x < 2 ^ 63 \<Longrightarrow> wrap64 x = x"
  by (simp add: wrap64_def)

lemma wrap32_range: "- (2 ^ 31) \<le> wrap32 x \<and> wrap32 x < 2 ^ 31"
proof -
  have "0 \<le> (x + 2 ^ 31) mod 2 ^ 32" and "(x + 2 ^ 31) mod 2 ^ 32 < (2 ^ 32 :: int)"
    by simp_all
  then show ?thesis by (simp add: wrap32_def)
qed

lemma sint_is_wrap32: "sint (w :: u32) = wrap32 (uint w)"
  by (simp add: sint_uint signed_take_bit_eq_take_bit_shift take_bit_eq_mod wrap32_def)

lemma sint_word_of_int32: "sint (word_of_int k :: u32) = wrap32 k"
  by (simp add: sint_is_wrap32 uint_word_of_int wrap32_def mod_simps)

lemma go_div_nonneg: "0 \<le> a \<Longrightarrow> 0 < b \<Longrightarrow> go_div a b = a div b"
  by (cases "a = 0") (simp_all add: go_div_def)

section \<open>Lemmas on buffers and big-endian integers\<close>

lemma length_be [simp]: "length (be16 v) = 2" "length (be32 w) = 4"
  by (simp_all add: be16_def be32_def)

lemma get16_be16 [simp]: "get16 (be16 v @ r) = v"
  by (simp add: be16_def) (rule bit_word_eqI, auto simp: bit_simps)

lemma get32_be32 [simp]: "get32 (be32 v @ r) = v"
proof -
  have "bit (get32 (be32 v @ r)) n = bit v n" if n: "n < 32" for n
  proof -
    consider "n < 8" | "8 \<le> n" "n < 16" | "16 \<le> n" "n < 24" | "24 \<le> n"
      using n by linarith
    then show ?thesis using n by cases (auto simp: be32_def bit_simps)
  qed
  then show ?thesis by (auto intro: bit_word_eqI)
qed

lemma get_be_Nil [simp]: "get16 (be16 v) = v" "get32 (be32 w) = w"
  using get16_be16 [of v "[]"] get32_be32 [of w "[]"] by simp_all

lemma be16_get16: "length bs = 2 \<Longrightarrow> be16 (get16 bs) = bs"
proof -
  assume "length bs = 2"
  then obtain a b where bs: "bs = [a, b]"
    by (auto simp: length_Suc_conv numeral_eq_Suc)
  show ?thesis unfolding bs
    by (simp only: be16_def get16.simps list.inject simp_thms, intro conjI;
        rule bit_word_eqI; simp only: bit_simps)
      (auto simp del: push_bit_numeral simp: bit_simps dest: bit_imp_le_length)
qed

lemma be32_get32: "length bs = 4 \<Longrightarrow> be32 (get32 bs) = bs"
proof -
  assume "length bs = 4"
  then obtain a b c d where bs: "bs = [a, b, c, d]"
    by (auto simp: length_Suc_conv numeral_eq_Suc)
  show ?thesis unfolding bs
    by (simp only: be32_def get32.simps list.inject simp_thms, intro conjI;
        rule bit_word_eqI; simp only: bit_simps)
      (auto simp del: push_bit_numeral simp: bit_simps dest: bit_imp_le_length)
qed

lemma put_at_SomeD:
  "put_at off bs buf = Some buf' \<Longrightarrow> length buf' = length buf \<and> off + length bs \<le> length buf"
  by (auto simp: put_at_def split: if_splits)

lemma copy_at_length: "copy_at off src buf = Some buf' \<Longrightarrow> length buf' = length buf"
  by (auto simp: copy_at_def split: if_splits)

text \<open>
  Writing the fields of a message left to right: \<open>filled pre buf\<close> is a buffer whose first bytes
  are the finished prefix \<open>pre\<close>. The next write extends the prefix.
\<close>

definition filled :: "bytes \<Rightarrow> bytes \<Rightarrow> bytes" where
  "filled pre buf = pre @ drop (length pre) buf"

lemma filled_Nil: "filled [] buf = buf"
  by (simp add: filled_def)

lemma length_filled: "length pre \<le> length buf \<Longrightarrow> length (filled pre buf) = length buf"
  by (simp add: filled_def)

lemma put_at_filled:
  "off = length pre \<Longrightarrow> length pre + length bs \<le> length buf \<Longrightarrow>
     put_at off bs (filled pre buf) = Some (filled (pre @ bs) buf)"
  by (simp add: put_at_def filled_def add.commute)

lemma put_at_start:
  "length bs \<le> length buf \<Longrightarrow> put_at 0 bs buf = Some (filled bs buf)"
  by (simp add: put_at_def filled_def)

lemma copy_at_filled:
  "off = length pre \<Longrightarrow> length pre \<le> length buf \<Longrightarrow>
     copy_at off src (filled pre buf) = Some (filled (pre @ take (length buf - length pre) src) buf)"
  by (simp add: copy_at_def filled_def add.commute min_def)

lemma slice_append_eq:
  "length pre = i \<Longrightarrow> length bs = j - i \<Longrightarrow> slice i j (pre @ bs @ rest) = bs"
  by (simp add: slice_def)

lemma length_slice: "j \<le> length data \<Longrightarrow> length (slice i j data) = j - i"
  by (simp add: slice_def)

lemma slice_drop: "i \<le> j \<Longrightarrow> slice i j data @ drop j data = drop i data"
  by (simp add: slice_def) (metis append_take_drop_id drop_drop le_add_diff_inverse2)

lemma slice_split: "i \<le> j \<Longrightarrow> j \<le> k \<Longrightarrow> slice i k data = slice i j data @ slice j k data"
  using take_add [of "j - i" "k - j" "drop i data"] by (simp add: slice_def)

section \<open>Lemmas on Go maps\<close>

lemma golen_fmempty [simp]: "golen fmempty = 0"
  by (simp add: golen_def)

lemma golen_zero_iff: "golen m = 0 \<longleftrightarrow> fmdom m = {||}"
  by (simp add: golen_def)

lemma golen_fmupd_new: "k |\<notin>| fmdom m \<Longrightarrow> golen (fmupd k v m) = Suc (golen m)"
  by (simp add: golen_def fcard_finsert_disjoint)

lemma golen_fmdrop_le: "golen (fmdrop k m) \<le> golen m"
  by (simp add: golen_def) (metis fcard_mono fminus_fsubset)

lemma golen_fmdrop_less: "k |\<in>| fmdom m \<Longrightarrow> golen (fmdrop k m) < golen m"
  unfolding golen_def fmdom_drop by (rule fcard_fminus1_less)

lemma iter_ok_sorted: "iter_ok (sorted_list_of_fset :: u32 fset \<Rightarrow> u32 list)"
  by (simp add: iter_ok_def sorted_list_of_fset.rep_eq)

lemma iter_okD: "iter_ok iter \<Longrightarrow> distinct (iter S)" "iter_ok iter \<Longrightarrow> set (iter S) = fset S"
  by (simp_all add: iter_ok_def)

section \<open>Loops\<close>

text \<open>A view of the state that every iteration of a loop keeps is kept by the loop.\<close>

lemma fold_keeps:
  "(\<And>x s. view (f x s) = view s) \<Longrightarrow> view (fold f xs s) = view s"
  by (induction xs arbitrary: s) simp_all

lemma fold_keeps_pair:
  "(\<And>x s. view (fst (f x s)) = view (fst s)) \<Longrightarrow> view (fst (fold f xs s)) = view (fst s)"
  by (rule fold_keeps [where view = "\<lambda>s. view (fst s)"])

lemma fold_invariant:
  "(\<And>x s. x \<in> set xs \<Longrightarrow> P s \<Longrightarrow> P (f x s)) \<Longrightarrow> P s \<Longrightarrow> P (fold f xs s)"
  by (induction xs arbitrary: s) simp_all

section \<open>Wire codecs\<close>

text \<open>
  The contract of a wire format: an encoder and a decoder that returns an error value, with the
  messages \<open>wf\<close> for which decoding undoes encoding.
\<close>

locale wire_codec =
  fixes encode :: "'p \<Rightarrow> bytes"
    and decode :: "bytes \<Rightarrow> go_error + 'p"
    and wf :: "'p \<Rightarrow> bool"
  assumes decode_encode: "wf p \<Longrightarrow> decode (encode p) = Inr p"
begin

lemma encode_inj: "wf p \<Longrightarrow> wf q \<Longrightarrow> encode p = encode q \<Longrightarrow> p = q"
  by (metis decode_encode sum.inject(2))

lemma decode_surj: "wf p \<Longrightarrow> \<exists>bs. decode bs = Inr p"
  using decode_encode by blast

end

text \<open>A canonical format: every accepted input is the encoding of the message it decodes to.\<close>

locale canonical_codec = wire_codec +
  assumes decode_wf: "decode bs = Inr p \<Longrightarrow> wf p"
    and encode_decode: "decode bs = Inr p \<Longrightarrow> encode p = bs"
begin

lemma decode_inj: "decode bs = Inr p \<Longrightarrow> decode bs' = Inr p \<Longrightarrow> bs = bs'"
  by (metis encode_decode)

lemma decode_iff: "decode bs = Inr p \<longleftrightarrow> wf p \<and> encode p = bs"
  using decode_encode decode_wf encode_decode by blast

end

text \<open>
  Encapsulation: messages of an inner format travel as the payload of an outer format, as
  reliable packets travel in GRE packets.
\<close>

locale encapsulation =
  outer: wire_codec enc_o dec_o wf_o + inner: wire_codec enc_i dec_i wf_i
  for enc_o :: "'o \<Rightarrow> bytes" and dec_o wf_o
    and enc_i :: "'i \<Rightarrow> bytes" and dec_i wf_i +
  fixes wrap :: "bytes \<Rightarrow> 'o" and payload :: "'o \<Rightarrow> bytes"
  assumes wf_wrap: "wf_o (wrap bs)"
    and payload_wrap: "payload (wrap bs) = bs"
begin

lemma decapsulate:
  assumes "wf_i p"
  shows "\<exists>q. dec_o (enc_o (wrap (enc_i p))) = Inr q \<and> dec_i (payload q) = Inr p"
  using assms outer.decode_encode [OF wf_wrap] inner.decode_encode payload_wrap by metis

lemma encapsulate_inj:
  assumes "wf_i p" and "wf_i q" and "enc_o (wrap (enc_i p)) = enc_o (wrap (enc_i q))"
  shows "p = q"
proof -
  from assms(3) have "wrap (enc_i p) = wrap (enc_i q)"
    by (rule outer.encode_inj [OF wf_wrap wf_wrap])
  then have "enc_i p = enc_i q" by (metis payload_wrap)
  with assms(1,2) show ?thesis by (rule inner.encode_inj)
qed

end

end
