(* ===== verification/Frames.thy ===== *)
theory Frames
  imports Prelude
begin

text \<open>
  Two wire formats of package tunnel: the connection frames of pkg/tunnel/frame.go (type,
  connection, sequence, 16-bit length, payload) and the lightweight stream packets of
  pkg/tunnel/stream.go (stream, flags, data).
\<close>

section \<open>Frames\<close>

definition FrameData :: u8 where "FrameData = 0"
definition FrameSyn :: u8 where "FrameSyn = 1"
definition FrameSynAck :: u8 where "FrameSynAck = 2"
definition FrameFin :: u8 where "FrameFin = 3"
definition FrameFinAck :: u8 where "FrameFinAck = 4"
definition FramePing :: u8 where "FramePing = 5"
definition FramePong :: u8 where "FramePong = 6"
definition MinFrameSize :: nat where "MinFrameSize = 11"

lemmas frame_types = FrameData_def FrameSyn_def FrameSynAck_def FrameFin_def FrameFinAck_def
  FramePing_def FramePong_def

record frame =
  f_Type :: u8
  f_ConnID :: u32
  f_Sequence :: u32
  f_Payload :: bytes

text \<open>
  \<open>Frame.Marshal\<close>; the length field is \<open>uint16(payloadLen)\<close>, which wraps. That the writes fit
  is part of \<open>Frame_Marshal_eq\<close>.
\<close>

definition Frame_Marshal :: "frame \<Rightarrow> bytes" where
  "Frame_Marshal f =
     (let payloadLen = length (f_Payload f);
          buf = replicate (MinFrameSize + payloadLen) 0
      in case do {
           buf \<leftarrow> put_at 0 [f_Type f] buf;
           buf \<leftarrow> put_at 1 (be32 (f_ConnID f)) buf;
           buf \<leftarrow> put_at 5 (be32 (f_Sequence f)) buf;
           buf \<leftarrow> put_at 9 (be16 (of_nat payloadLen)) buf;
           copy_at MinFrameSize (f_Payload f) buf
         } of None \<Rightarrow> [] | Some buf \<Rightarrow> buf)"

definition UnmarshalFrame :: "bytes \<Rightarrow> go_error + frame" where
  "UnmarshalFrame data =
     (if length data < MinFrameSize then Inl ErrFrameTooShort
      else
        let f = \<lparr>f_Type = data ! 0, f_ConnID = get32 (slice 1 5 data),
                 f_Sequence = get32 (slice 5 9 data), f_Payload = []\<rparr>;
            payloadLen = get16 (slice 9 11 data)
        in if length data < MinFrameSize + unat payloadLen then Inl ErrFrameTooShort
        else if payloadLen > 0
        then Inr (f\<lparr>f_Payload := slice MinFrameSize (MinFrameSize + unat payloadLen) data\<rparr>)
        else Inr f)"

definition NewDataFrame :: "u32 \<Rightarrow> u32 \<Rightarrow> bytes \<Rightarrow> frame" where
  "NewDataFrame connID seq payload =
     \<lparr>f_Type = FrameData, f_ConnID = connID, f_Sequence = seq, f_Payload = payload\<rparr>"

definition NewSynFrame :: "u32 \<Rightarrow> frame" where
  "NewSynFrame connID = \<lparr>f_Type = FrameSyn, f_ConnID = connID, f_Sequence = 0, f_Payload = []\<rparr>"

definition NewSynAckFrame :: "u32 \<Rightarrow> frame" where
  "NewSynAckFrame connID =
     \<lparr>f_Type = FrameSynAck, f_ConnID = connID, f_Sequence = 0, f_Payload = []\<rparr>"

definition NewFinFrame :: "u32 \<Rightarrow> frame" where
  "NewFinFrame connID = \<lparr>f_Type = FrameFin, f_ConnID = connID, f_Sequence = 0, f_Payload = []\<rparr>"

definition NewFinAckFrame :: "u32 \<Rightarrow> frame" where
  "NewFinAckFrame connID =
     \<lparr>f_Type = FrameFinAck, f_ConnID = connID, f_Sequence = 0, f_Payload = []\<rparr>"

definition NewPingFrame :: frame where
  "NewPingFrame = \<lparr>f_Type = FramePing, f_ConnID = 0, f_Sequence = 0, f_Payload = []\<rparr>"

definition NewPongFrame :: frame where
  "NewPongFrame = \<lparr>f_Type = FramePong, f_ConnID = 0, f_Sequence = 0, f_Payload = []\<rparr>"

lemmas frame_constructors = NewDataFrame_def NewSynFrame_def NewSynAckFrame_def NewFinFrame_def
  NewFinAckFrame_def NewPingFrame_def NewPongFrame_def

section \<open>Stream packets\<close>

definition StreamData :: u8 where "StreamData = 0"
definition StreamClose :: u8 where "StreamClose = 1"
definition StreamHeaderSize :: nat where "StreamHeaderSize = 5"

record streampacket =
  sp_StreamID :: u32
  sp_Flags :: u8
  sp_Data :: bytes

text \<open>\<open>StreamPacket.MarshalTo\<close>: bytes written and buffer; \<open>None\<close> is a bounds panic.\<close>

definition StreamPacket_MarshalTo :: "streampacket \<Rightarrow> bytes \<Rightarrow> (nat \<times> bytes) option" where
  "StreamPacket_MarshalTo p buf = do {
     buf \<leftarrow> put_at 0 (be32 (sp_StreamID p)) buf;
     buf \<leftarrow> put_at 4 [sp_Flags p] buf;
     buf' \<leftarrow> copy_at StreamHeaderSize (sp_Data p) buf;
     Some (StreamHeaderSize + min (length buf - StreamHeaderSize) (length (sp_Data p)), buf')
   }"

definition StreamPacket_Marshal :: "streampacket \<Rightarrow> bytes" where
  "StreamPacket_Marshal p =
     (let buf = replicate (StreamHeaderSize + length (sp_Data p)) 0
      in case do {
           buf \<leftarrow> put_at 0 (be32 (sp_StreamID p)) buf;
           buf \<leftarrow> put_at 4 [sp_Flags p] buf;
           copy_at StreamHeaderSize (sp_Data p) buf
         } of None \<Rightarrow> [] | Some buf \<Rightarrow> buf)"

text \<open>
  \<open>UnmarshalStream\<close> copies the data into a fresh buffer; \<open>UnmarshalStreamNoCopy\<close> returns the
  slice \<open>data[StreamHeaderSize:]\<close> itself. The results are equal as values; the difference, that
  the second result aliases the input, is outside a model of byte values.
\<close>

definition UnmarshalStream :: "bytes \<Rightarrow> go_error + streampacket" where
  "UnmarshalStream data =
     (if length data < StreamHeaderSize then Inl ErrStreamTooShort
      else
        let p = \<lparr>sp_StreamID = get32 (slice 0 4 data), sp_Flags = data ! 4, sp_Data = []\<rparr>
        in if length data > StreamHeaderSize
           then case copy_at 0 (drop StreamHeaderSize data)
                       (replicate (length data - StreamHeaderSize) 0) of
                  None \<Rightarrow> Inr p | Some d \<Rightarrow> Inr (p\<lparr>sp_Data := d\<rparr>)
           else Inr p)"

definition UnmarshalStreamNoCopy :: "bytes \<Rightarrow> go_error + streampacket" where
  "UnmarshalStreamNoCopy data =
     (if length data < StreamHeaderSize then Inl ErrStreamTooShort
      else
        let p = \<lparr>sp_StreamID = get32 (slice 0 4 data), sp_Flags = data ! 4, sp_Data = []\<rparr>
        in if length data > StreamHeaderSize
           then Inr (p\<lparr>sp_Data := drop StreamHeaderSize data\<rparr>)
           else Inr p)"

definition NewDataPacket :: "u32 \<Rightarrow> bytes \<Rightarrow> streampacket" where
  "NewDataPacket streamID data = \<lparr>sp_StreamID = streamID, sp_Flags = StreamData, sp_Data = data\<rparr>"

definition NewClosePacket :: "u32 \<Rightarrow> streampacket" where
  "NewClosePacket streamID = \<lparr>sp_StreamID = streamID, sp_Flags = StreamClose, sp_Data = []\<rparr>"

section \<open>Encoders and decoders\<close>

lemma Frame_Marshal_eq:
  "Frame_Marshal f = [f_Type f] @ be32 (f_ConnID f) @ be32 (f_Sequence f)
     @ be16 (of_nat (length (f_Payload f))) @ f_Payload f"
  by (simp add: Frame_Marshal_def MinFrameSize_def put_at_start put_at_filled copy_at_filled Let_def)
    (simp add: filled_def)

definition wf_frame :: "frame \<Rightarrow> bool" where
  "wf_frame f \<longleftrightarrow> length (f_Payload f) < 2 ^ 16"

lemma UnmarshalFrame_Marshal:
  "UnmarshalFrame (Frame_Marshal f @ rest) =
     Inr (f\<lparr>f_Payload := take (length (f_Payload f) mod 2 ^ 16) (f_Payload f)\<rparr>)"
proof -
  let ?n = "of_nat (length (f_Payload f)) :: u16"
  have n: "unat ?n = length (f_Payload f) mod 2 ^ 16" by (simp add: unat_of_nat)
  then have le: "unat ?n \<le> length (f_Payload f)" by simp
  have pos: "0 < ?n \<longleftrightarrow> 0 < unat ?n" by (simp add: word_less_nat_alt)
  show ?thesis
    using le n by (auto simp: UnmarshalFrame_def Frame_Marshal_eq MinFrameSize_def slice_def pos Let_def)
qed

interpretation frame: wire_codec Frame_Marshal UnmarshalFrame wf_frame
  using UnmarshalFrame_Marshal [of _ "[]"] by unfold_locales (simp add: wf_frame_def)

lemma StreamPacket_Marshal_eq:
  "StreamPacket_Marshal p = be32 (sp_StreamID p) @ [sp_Flags p] @ sp_Data p"
  by (simp add: StreamPacket_Marshal_def StreamHeaderSize_def put_at_start put_at_filled
      copy_at_filled Let_def) (simp add: filled_def)

lemma UnmarshalStream_NoCopy: "UnmarshalStream data = UnmarshalStreamNoCopy data"
  by (simp add: UnmarshalStream_def UnmarshalStreamNoCopy_def copy_at_def Let_def)

lemma UnmarshalStream_eq:
  "UnmarshalStream data =
     (if length data < 5 then Inl ErrStreamTooShort
      else Inr \<lparr>sp_StreamID = get32 (slice 0 4 data), sp_Flags = data ! 4, sp_Data = drop 5 data\<rparr>)"
  by (simp add: UnmarshalStream_NoCopy UnmarshalStreamNoCopy_def StreamHeaderSize_def Let_def)

lemma stream_bytes_split:
  "5 \<le> length data \<Longrightarrow> data = slice 0 4 data @ [data ! 4] @ drop 5 data"
  by (simp add: slice_def) (metis Cons_nth_drop_Suc append_take_drop_id eval_nat_numeral(3)
      less_eq_Suc_le numeral_plus_one semiring_norm(2) semiring_norm(8) Suc_eq_plus1)

interpretation streampkt: canonical_codec StreamPacket_Marshal UnmarshalStream "\<lambda>_. True"
proof unfold_locales
  fix p show "UnmarshalStream (StreamPacket_Marshal p) = Inr p"
    by (simp add: StreamPacket_Marshal_eq UnmarshalStream_eq slice_def nth_append)
next
  fix bs p assume "UnmarshalStream bs = Inr p"
  then show "StreamPacket_Marshal p = bs"
    using stream_bytes_split [of bs]
    by (auto simp: StreamPacket_Marshal_eq UnmarshalStream_eq be32_get32 length_slice split: if_splits)
qed simp

section \<open>Properties\<close>

text \<open>
  C35. Decoding an encoded frame, whatever bytes follow it, gives back type, connection and
  sequence, and the payload cut to its length modulo 2^16: frames with fewer than 65536 payload
  bytes are returned unchanged, longer ones lose their tail without an error.
\<close>

theorem frame_decode_encode:
  "UnmarshalFrame (Frame_Marshal f @ rest) =
     Inr (f\<lparr>f_Payload := take (length (f_Payload f) mod 2 ^ 16) (f_Payload f)\<rparr>)"
  by (rule UnmarshalFrame_Marshal)

text \<open>
  Stream packets: an input is accepted with packet \<open>p\<close> if and only if it is the encoding of
  \<open>p\<close>, by the copying and by the non-copying decoder.
\<close>

theorem stream_packet_exact:
  "(UnmarshalStream bs = Inr p \<longleftrightarrow> StreamPacket_Marshal p = bs)
   \<and> UnmarshalStreamNoCopy bs = UnmarshalStream bs"
  using streampkt.decode_iff UnmarshalStream_NoCopy by simp

text \<open>
  The in-place stream encoder stores exactly what the allocating encoder produces, as far as
  the buffer reaches, and panics exactly when the five header bytes do not fit.
\<close>

theorem stream_MarshalTo_exact:
  "StreamPacket_MarshalTo p buf =
     (if length buf < 5 then None
      else let n = min (length buf) (length (StreamPacket_Marshal p))
           in Some (n, take n (StreamPacket_Marshal p) @ drop n buf))"
proof (cases "length buf < 5")
  case True
  then show ?thesis
    by (auto simp: StreamPacket_MarshalTo_def put_at_def bind_eq_None_conv min_def split: if_splits)
next
  case False
  then have "StreamPacket_MarshalTo p buf =
      Some (5 + min (length buf - 5) (length (sp_Data p)),
            filled (be32 (sp_StreamID p) @ [sp_Flags p] @ take (length buf - 5) (sp_Data p)) buf)"
    by (simp add: StreamPacket_MarshalTo_def StreamHeaderSize_def put_at_start put_at_filled
        copy_at_filled length_filled)
  with False show ?thesis
    by (auto simp: StreamPacket_Marshal_eq filled_def Let_def min_def take_Cons')
qed

end
