(* ===== verification/RelPacket.thy ===== *)
theory RelPacket
  imports Prelude
begin

text \<open>
  The packets of the reliable layer, pkg/tunnel/reliable.go lines 11 to 216: constants, SACK
  blocks, the variable header (acknowledgement and SACK blocks depend on the flags), the
  encoders and the two decoders.
\<close>

section \<open>Model\<close>

definition FlagData :: u8 where "FlagData = 0x01"
definition FlagAck :: u8 where "FlagAck = 0x02"
definition FlagClose :: u8 where "FlagClose = 0x04"
definition FlagSyn :: u8 where "FlagSyn = 0x08"
definition FlagSack :: u8 where "FlagSack = 0x10"

lemmas flag_defs = FlagData_def FlagAck_def FlagClose_def FlagSyn_def FlagSack_def

definition ReliableHeaderSize :: nat where "ReliableHeaderSize = 9"
definition ReliableHeaderWithAck :: nat where "ReliableHeaderWithAck = 13"
definition MaxSackBlocks :: nat where "MaxSackBlocks = 4"

lemmas size_defs = ReliableHeaderSize_def ReliableHeaderWithAck_def MaxSackBlocks_def

record sackblock =
  sb_Left :: u32
  sb_Right :: u32

record rpacket =
  rp_StreamID :: u32
  rp_Flags :: u8
  rp_Seq :: u32
  rp_Ack :: u32
  rp_SackBlocks :: "sackblock list"
  rp_Data :: bytes

definition HeaderSize :: "rpacket \<Rightarrow> nat" where
  "HeaderSize p =
     (let size = (if rp_Flags p AND FlagAck \<noteq> 0 then ReliableHeaderWithAck
                  else ReliableHeaderSize)
      in if rp_Flags p AND FlagSack \<noteq> 0 then size + (1 + length (rp_SackBlocks p) * 8) else size)"

text \<open>The loop of \<open>MarshalTo\<close> over the SACK blocks.\<close>

fun put_blocks :: "nat \<Rightarrow> sackblock list \<Rightarrow> bytes \<Rightarrow> (nat \<times> bytes) option" where
  "put_blocks offset [] buf = Some (offset, buf)"
| "put_blocks offset (b # bs) buf = do {
     buf \<leftarrow> put_at offset (be32 (sb_Left b)) buf;
     buf \<leftarrow> put_at (offset + 4) (be32 (sb_Right b)) buf;
     put_blocks (offset + 8) bs buf
   }"

text \<open>
  \<open>MarshalTo\<close>: the returned length and the buffer; \<open>None\<close> is a bounds panic. The block count
  is \<open>uint8(len(p.SackBlocks))\<close>.
\<close>

definition MarshalTo :: "rpacket \<Rightarrow> bytes \<Rightarrow> (nat \<times> bytes) option" where
  "MarshalTo p buf = do {
     buf \<leftarrow> put_at 0 (be32 (rp_StreamID p)) buf;
     buf \<leftarrow> put_at 4 [rp_Flags p] buf;
     buf \<leftarrow> put_at 5 (be32 (rp_Seq p)) buf;
     let offset = 9;
     (offset, buf) \<leftarrow>
       (if rp_Flags p AND FlagAck \<noteq> 0 then do {
          buf \<leftarrow> put_at 9 (be32 (rp_Ack p)) buf;
          Some (13, buf) }
        else Some (offset, buf));
     (offset, buf) \<leftarrow>
       (if rp_Flags p AND FlagSack \<noteq> 0 then do {
          buf \<leftarrow> put_at offset [of_nat (length (rp_SackBlocks p))] buf;
          put_blocks (offset + 1) (rp_SackBlocks p) buf }
        else Some (offset, buf));
     buf \<leftarrow> (if length (rp_Data p) > 0 then copy_at offset (rp_Data p) buf else Some buf);
     Some (offset + length (rp_Data p), buf)
   }"

text \<open>\<open>Marshal\<close>: its buffer always suffices (\<open>MarshalTo_fits\<close>).\<close>

definition Marshal :: "rpacket \<Rightarrow> bytes" where
  "Marshal p =
     (case MarshalTo p (replicate (HeaderSize p + length (rp_Data p)) 0) of
        None \<Rightarrow> [] | Some (_, buf) \<Rightarrow> buf)"

text \<open>The loop of the decoders over the SACK blocks.\<close>

fun get_blocks :: "nat \<Rightarrow> nat \<Rightarrow> bytes \<Rightarrow> sackblock list" where
  "get_blocks 0 offset data = []"
| "get_blocks (Suc n) offset data =
     \<lparr>sb_Left = get32 (slice offset (offset + 4) data),
      sb_Right = get32 (slice (offset + 4) (offset + 8) data)\<rparr> # get_blocks n (offset + 8) data"

text \<open>
  The part that \<open>UnmarshalReliable\<close> and \<open>UnmarshalReliableNoCopy\<close> have in common: the packet
  without data and the offset of the data.
\<close>

definition unmarshal_header :: "bytes \<Rightarrow> go_error + rpacket \<times> nat" where
  "unmarshal_header data =
     (if length data < ReliableHeaderSize then Inl ErrStreamTooShort
      else
        let p = \<lparr>rp_StreamID = get32 (slice 0 4 data), rp_Flags = data ! 4,
                 rp_Seq = get32 (slice 5 9 data), rp_Ack = 0, rp_SackBlocks = [], rp_Data = []\<rparr>;
            offset = 9;
            ak = (rp_Flags p AND FlagAck \<noteq> 0)
        in if ak \<and> length data < ReliableHeaderWithAck then Inl ErrStreamTooShort
        else
          let p = (if ak then p\<lparr>rp_Ack := get32 (slice 9 13 data)\<rparr> else p);
              offset = (if ak then 13 else offset)
          in if rp_Flags p AND FlagSack \<noteq> 0 then
               if length data < offset + 1 then Inl ErrStreamTooShort
               else
                 let count = unat (data ! offset);
                     offset = offset + 1;
                     count = (if count > MaxSackBlocks then MaxSackBlocks else count)
                 in if length data < offset + count * 8 then Inl ErrStreamTooShort
                 else Inr (p\<lparr>rp_SackBlocks := get_blocks count offset data\<rparr>, offset + count * 8)
             else Inr (p, offset))"

definition UnmarshalReliable :: "bytes \<Rightarrow> go_error + rpacket" where
  "UnmarshalReliable data =
     (case unmarshal_header data of
        Inl e \<Rightarrow> Inl e
      | Inr (p, offset) \<Rightarrow>
          if length data > offset
          then case copy_at 0 (drop offset data) (replicate (length data - offset) 0) of
                 None \<Rightarrow> Inr p | Some d \<Rightarrow> Inr (p\<lparr>rp_Data := d\<rparr>)
          else Inr p)"

definition UnmarshalReliableNoCopy :: "bytes \<Rightarrow> go_error + rpacket" where
  "UnmarshalReliableNoCopy data =
     (case unmarshal_header data of
        Inl e \<Rightarrow> Inl e
      | Inr (p, offset) \<Rightarrow>
          if length data > offset then Inr (p\<lparr>rp_Data := drop offset data\<rparr>) else Inr p)"

section \<open>Reference encoding\<close>

fun block_bytes :: "sackblock list \<Rightarrow> bytes" where
  "block_bytes [] = []"
| "block_bytes (b # bs) = be32 (sb_Left b) @ be32 (sb_Right b) @ block_bytes bs"

definition rheader_bytes :: "rpacket \<Rightarrow> bytes" where
  "rheader_bytes p =
     be32 (rp_StreamID p) @ [rp_Flags p] @ be32 (rp_Seq p)
     @ (if rp_Flags p AND FlagAck \<noteq> 0 then be32 (rp_Ack p) else [])
     @ (if rp_Flags p AND FlagSack \<noteq> 0
        then [of_nat (length (rp_SackBlocks p))] @ block_bytes (rp_SackBlocks p) else [])"

text \<open>
  Packets that survive the wire: an acknowledgement and SACK blocks only under their flags, and
  at most \<open>MaxSackBlocks\<close> blocks.
\<close>

definition wf_rpacket :: "rpacket \<Rightarrow> bool" where
  "wf_rpacket p \<longleftrightarrow>
     (rp_Flags p AND FlagAck = 0 \<longrightarrow> rp_Ack p = 0)
     \<and> (rp_Flags p AND FlagSack = 0 \<longrightarrow> rp_SackBlocks p = [])
     \<and> length (rp_SackBlocks p) \<le> MaxSackBlocks"

section \<open>Encoder\<close>

lemma length_block_bytes [simp]: "length (block_bytes bs) = 8 * length bs"
  by (induction bs) simp_all

lemma block_bytes_append: "block_bytes (bs @ cs) = block_bytes bs @ block_bytes cs"
  by (induction bs) simp_all

lemma length_rheader_bytes: "length (rheader_bytes p) = HeaderSize p"
  by (simp add: rheader_bytes_def HeaderSize_def size_defs Let_def)

lemma put_blocks_filled:
  "length pre + 8 * length bs \<le> length buf \<Longrightarrow>
   put_blocks (length pre) bs (filled pre buf) =
     Some (length pre + 8 * length bs, filled (pre @ block_bytes bs) buf)"
proof (induction bs arbitrary: pre)
  case Nil
  then show ?case by simp
next
  case (Cons b bs)
  let ?pre = "pre @ be32 (sb_Left b) @ be32 (sb_Right b)"
  have "put_blocks (length pre) (b # bs) (filled pre buf) =
      put_blocks (length ?pre) bs (filled ?pre buf)"
    using Cons.prems by (simp add: put_at_filled)
  also have "\<dots> = Some (length ?pre + 8 * length bs, filled (?pre @ block_bytes bs) buf)"
    using Cons.prems by (intro Cons.IH) simp
  finally show ?case by simp
qed

lemma put_blocks_at:
  assumes "offset = length pre" and "length pre + 8 * length bs \<le> length buf"
  shows "put_blocks offset bs (filled pre buf) =
    Some (offset + 8 * length bs, filled (pre @ block_bytes bs) buf)"
  using assms put_blocks_filled by simp

lemma MarshalTo_fits:
  assumes "HeaderSize p + length (rp_Data p) \<le> length buf"
  shows "MarshalTo p buf =
    Some (HeaderSize p + length (rp_Data p), filled (rheader_bytes p @ rp_Data p) buf)"
  using assms
  by (cases "rp_Flags p AND FlagAck = 0"; cases "rp_Flags p AND FlagSack = 0";
      cases "rp_Data p = []")
    (simp_all add: MarshalTo_def rheader_bytes_def HeaderSize_def size_defs put_at_start
      put_at_filled put_blocks_at copy_at_filled Let_def)

lemma Marshal_eq: "Marshal p = rheader_bytes p @ rp_Data p"
  by (simp add: Marshal_def MarshalTo_fits filled_def length_rheader_bytes)

section \<open>Decoder\<close>

lemma get_blocks_block_bytes:
  "length pre = offset \<Longrightarrow> n = length bs \<Longrightarrow>
     get_blocks n offset (pre @ block_bytes bs @ rest) = bs"
proof (induction bs arbitrary: pre offset n)
  case Nil
  then show ?case by simp
next
  case (Cons b bs)
  have "get_blocks (length bs) (offset + 8)
      ((pre @ be32 (sb_Left b) @ be32 (sb_Right b)) @ block_bytes bs @ rest) = bs"
    using Cons.prems by (intro Cons.IH) simp_all
  with Cons.prems show ?case by (simp add: slice_def)
qed

lemma length_get_blocks [simp]: "length (get_blocks n offset data) = n"
  by (induction n arbitrary: offset) simp_all

lemma block_bytes_get_blocks:
  "offset + n * 8 \<le> length data \<Longrightarrow>
     block_bytes (get_blocks n offset data) = slice offset (offset + n * 8) data"
proof (induction n arbitrary: offset)
  case 0
  then show ?case by (simp add: slice_def)
next
  case (Suc n)
  have "slice offset (offset + Suc n * 8) data =
      slice offset (offset + 4) data @ slice (offset + 4) (offset + 8) data
      @ slice (offset + 8) (offset + 8 + n * 8) data"
    using slice_split [of offset "offset + 4" "offset + 8 + n * 8" data]
      slice_split [of "offset + 4" "offset + 8" "offset + 8 + n * 8" data]
    by (simp add: algebra_simps)
  with Suc show ?case by (simp add: be32_get32 length_slice)
qed

lemma UnmarshalReliable_NoCopy: "UnmarshalReliable data = UnmarshalReliableNoCopy data"
  by (simp add: UnmarshalReliable_def UnmarshalReliableNoCopy_def copy_at_def split: sum.split)

lemma unmarshal_header_no_data: "unmarshal_header data = Inr (p, offset) \<Longrightarrow> rp_Data p = []"
  by (auto simp: unmarshal_header_def Let_def split: if_splits)

lemma UnmarshalReliable_eq:
  "UnmarshalReliable data =
     (case unmarshal_header data of
        Inl e \<Rightarrow> Inl e | Inr (p, offset) \<Rightarrow> Inr (p\<lparr>rp_Data := drop offset data\<rparr>))"
  by (auto simp: UnmarshalReliable_NoCopy UnmarshalReliableNoCopy_def
      dest: unmarshal_header_no_data split: sum.split)

text \<open>
  What a packet looks like after the wire: the fields without their flag are dropped, and blocks
  beyond the fourth become the first bytes of the data.
\<close>

definition on_wire :: "rpacket \<Rightarrow> rpacket" where
  "on_wire p =
     (if rp_Flags p AND FlagAck \<noteq> 0 then p else p\<lparr>rp_Ack := 0\<rparr>)
       \<lparr>rp_SackBlocks := (if rp_Flags p AND FlagSack \<noteq> 0
           then take MaxSackBlocks (rp_SackBlocks p) else []),
        rp_Data := (if rp_Flags p AND FlagSack \<noteq> 0
           then block_bytes (drop MaxSackBlocks (rp_SackBlocks p)) else []) @ rp_Data p\<rparr>"

lemma on_wire_wf: "wf_rpacket p \<Longrightarrow> on_wire p = p"
  by (auto simp: on_wire_def wf_rpacket_def)

lemma blocks_take_drop:
  "block_bytes bs = block_bytes (take k bs) @ block_bytes (drop k bs)"
  using block_bytes_append [of "take k bs" "drop k bs"] by simp

lemma get_blocks_prefix:
  assumes "length pre = offset" and "k \<le> length bs"
  shows "get_blocks k offset (pre @ block_bytes bs @ rest) = take k bs"
    and "drop (offset + k * 8) (pre @ block_bytes bs @ rest) = block_bytes (drop k bs) @ rest"
proof -
  have split: "pre @ block_bytes bs @ rest =
      pre @ block_bytes (take k bs) @ (block_bytes (drop k bs) @ rest)"
    by (simp add: blocks_take_drop [of bs k])
  show "get_blocks k offset (pre @ block_bytes bs @ rest) = take k bs"
    unfolding split using assms by (intro get_blocks_block_bytes) simp_all
  show "drop (offset + k * 8) (pre @ block_bytes bs @ rest) = block_bytes (drop k bs) @ rest"
    unfolding split using assms by simp
qed

lemma UnmarshalReliable_Marshal:
  assumes "length (rp_SackBlocks p) < 256"
  shows "UnmarshalReliable (Marshal p) = Inr (on_wire p)"
proof -
  define k where "k = (if 4 < length (rp_SackBlocks p) then 4 else length (rp_SackBlocks p))"
  define pre where "pre = be32 (rp_StreamID p) @ [rp_Flags p] @ be32 (rp_Seq p)
      @ (if rp_Flags p AND FlagAck \<noteq> 0 then be32 (rp_Ack p) else [])
      @ (if rp_Flags p AND FlagSack \<noteq> 0 then [of_nat (length (rp_SackBlocks p))] else [])"
  have n: "unat (of_nat (length (rp_SackBlocks p)) :: u8) = length (rp_SackBlocks p)"
    using assms by (simp add: unat_of_nat)
  have k: "k \<le> length (rp_SackBlocks p)" "take k (rp_SackBlocks p) = take 4 (rp_SackBlocks p)"
    "drop k (rp_SackBlocks p) = drop 4 (rp_SackBlocks p)"
    by (auto simp: k_def)
  note gb = get_blocks_prefix [OF refl k(1), of pre "rp_Data p", unfolded k(2,3)]
  have d4: "drop 32 (block_bytes (rp_SackBlocks p)) = block_bytes (drop 4 (rp_SackBlocks p))"
    if "4 < length (rp_SackBlocks p)"
    using that by (subst blocks_take_drop [of _ 4]) simp
  show ?thesis
    using gb d4
    by (cases "rp_Flags p AND FlagAck = 0"; cases "rp_Flags p AND FlagSack = 0";
        cases "4 < length (rp_SackBlocks p)")
      (simp_all add: UnmarshalReliable_eq unmarshal_header_def Marshal_eq rheader_bytes_def
        on_wire_def size_defs slice_def nth_append n pre_def k_def Let_def)
qed

interpretation rpkt: wire_codec Marshal UnmarshalReliable wf_rpacket
proof unfold_locales
  fix p assume wf: "wf_rpacket p"
  then have "length (rp_SackBlocks p) < 256" by (simp add: wf_rpacket_def MaxSackBlocks_def)
  then show "UnmarshalReliable (Marshal p) = Inr p"
    by (simp add: UnmarshalReliable_Marshal on_wire_wf [OF wf])
qed

text \<open>The number of SACK blocks that an input announces.\<close>

definition announced_blocks :: "bytes \<Rightarrow> nat" where
  "announced_blocks data =
     (if data ! 4 AND FlagSack \<noteq> 0
      then unat (data ! (if data ! 4 AND FlagAck \<noteq> 0 then 13 else 9)) else 0)"

text \<open>The length that the decoder demands before it takes the rest as data.\<close>

definition required_size :: "bytes \<Rightarrow> nat" where
  "required_size data =
     (if length data < 9 then 9
      else (if data ! 4 AND FlagAck \<noteq> 0 then 13 else 9)
        + (if data ! 4 AND FlagSack = 0 then 0
           else if length data < (if data ! 4 AND FlagAck \<noteq> 0 then 14 else 10) then 1
           else 1 + 8 * min MaxSackBlocks (announced_blocks data)))"

lemma unmarshal_header_Inr:
  assumes "unmarshal_header data = Inr (p, offset)"
  shows "wf_rpacket p" and "offset = HeaderSize p" and "offset \<le> length data"
  using assms
  by (cases "data ! 4 AND FlagAck = 0"; cases "data ! 4 AND FlagSack = 0";
      auto simp: unmarshal_header_def wf_rpacket_def HeaderSize_def size_defs Let_def
      split: if_splits)+

lemma nth_drop_next: "j = i + 1 \<Longrightarrow> i < length data \<Longrightarrow> data ! i # drop j data = drop i data"
  by (simp add: Cons_nth_drop_Suc)

lemma unmarshal_header_bytes:
  assumes "unmarshal_header data = Inr (p, offset)" and "announced_blocks data \<le> MaxSackBlocks"
  shows "rheader_bytes p @ drop offset data = data"
  using assms
  by (cases "data ! 4 AND FlagAck = 0"; cases "data ! 4 AND FlagSack = 0")
    (auto simp: unmarshal_header_def announced_blocks_def rheader_bytes_def size_defs Let_def
      be32_get32 length_slice block_bytes_get_blocks slice_drop nth_drop_next split: if_splits)

lemma data_irrelevant [simp]:
  "rheader_bytes (p\<lparr>rp_Data := d\<rparr>) = rheader_bytes p"
  "wf_rpacket (p\<lparr>rp_Data := d\<rparr>) = wf_rpacket p"
  "HeaderSize (p\<lparr>rp_Data := d\<rparr>) = HeaderSize p"
  by (simp_all add: rheader_bytes_def wf_rpacket_def HeaderSize_def)

section \<open>Properties\<close>

text \<open>
  C33. Reliable packets: an input that announces at most four SACK blocks is accepted with packet
  \<open>p\<close> if and only if \<open>p\<close> is well-formed and the input is its encoding. So encoding and
  decoding are inverse to each other, and two different well-formed packets never share an
  encoding.
\<close>

theorem reliable_packet_exact:
  "UnmarshalReliable bs = Inr p \<and> announced_blocks bs \<le> MaxSackBlocks
   \<longleftrightarrow> wf_rpacket p \<and> Marshal p = bs"
proof
  assume l: "UnmarshalReliable bs = Inr p \<and> announced_blocks bs \<le> MaxSackBlocks"
  then obtain q off where q: "unmarshal_header bs = Inr (q, off)" "p = q\<lparr>rp_Data := drop off bs\<rparr>"
    by (auto simp: UnmarshalReliable_eq split: sum.splits)
  with l unmarshal_header_Inr [OF q(1)] unmarshal_header_bytes [OF q(1)]
  show "wf_rpacket p \<and> Marshal p = bs"
    by (simp add: Marshal_eq)
next
  assume r: "wf_rpacket p \<and> Marshal p = bs"
  then have "announced_blocks (Marshal p) \<le> MaxSackBlocks"
    by (auto simp: announced_blocks_def Marshal_eq rheader_bytes_def nth_append wf_rpacket_def
        size_defs unat_of_nat)
  with r rpkt.decode_encode show "UnmarshalReliable bs = Inr p \<and> announced_blocks bs \<le> MaxSackBlocks"
    by blast
qed

text \<open>
  What any packet with fewer than 256 SACK blocks looks like at the receiver: fields without
  their flag are gone, and blocks beyond the fourth are taken for the first bytes of the data.
\<close>

theorem reliable_on_wire:
  assumes "length (rp_SackBlocks p) < 256"
  shows "UnmarshalReliable (Marshal p) = Inr (on_wire p)"
  by (rule UnmarshalReliable_Marshal [OF assms])

theorem reliable_on_wire_witness:
  "UnmarshalReliable (Marshal \<lparr>rp_StreamID = 1, rp_Flags = 0x12, rp_Seq = 7, rp_Ack = 9,
       rp_SackBlocks = replicate 5 \<lparr>sb_Left = 1, sb_Right = 2\<rparr>, rp_Data = [0xaa]\<rparr>) =
   Inr \<lparr>rp_StreamID = 1, rp_Flags = 0x12, rp_Seq = 7, rp_Ack = 9,
       rp_SackBlocks = replicate 4 \<lparr>sb_Left = 1, sb_Right = 2\<rparr>,
       rp_Data = [0, 0, 0, 1, 0, 0, 0, 2, 0xaa]\<rparr>"
proof -
  let ?p = "\<lparr>rp_StreamID = 1, rp_Flags = 0x12, rp_Seq = 7, rp_Ack = 9,
       rp_SackBlocks = replicate 5 \<lparr>sb_Left = 1, sb_Right = 2\<rparr>, rp_Data = [0xaa]\<rparr> :: rpacket"
  have "length (rp_SackBlocks ?p) < 256" by simp
  moreover have "on_wire ?p = \<lparr>rp_StreamID = 1, rp_Flags = 0x12, rp_Seq = 7, rp_Ack = 9,
       rp_SackBlocks = replicate 4 \<lparr>sb_Left = 1, sb_Right = 2\<rparr>,
       rp_Data = [0, 0, 0, 1, 0, 0, 0, 2, 0xaa]\<rparr>"
    by code_simp
  ultimately show ?thesis using reliable_on_wire [of ?p] by simp
qed

text \<open>
  The decoders reject exactly the inputs that are shorter than the header they announce
  (with the block count capped at four), and \<open>ErrStreamTooShort\<close> is their only error; the copying
  and the non-copying decoder agree. So no input makes them read out of range.
\<close>

theorem reliable_decode_errors:
  "(UnmarshalReliable data = Inl e \<longleftrightarrow> length data < required_size data \<and> e = ErrStreamTooShort)
   \<and> UnmarshalReliableNoCopy data = UnmarshalReliable data"
  by (cases "data ! 4 AND FlagAck = 0"; cases "data ! 4 AND FlagSack = 0")
    (auto simp: UnmarshalReliable_eq UnmarshalReliable_NoCopy [symmetric] unmarshal_header_def
      required_size_def announced_blocks_def size_defs Let_def split: if_splits)

end
