(* ===== verification/SeqNum.thy ===== *)
theory SeqNum
  imports Prelude "HOL-Library.Multiset"
begin

text \<open>
  Serial number arithmetic, pkg/tunnel/reliable.go lines 1089 to 1100, and the insertion sort of
  \<open>buildSackBlocks\<close> (lines 841 to 846). The comparison is the sign of a wrapped difference. It is
  no order on all 32-bit words, but a strict linear order on every half window; the sorting
  lemmas are proved once for such orders (locale \<open>window_order\<close>).
\<close>

section \<open>Model\<close>

definition seqLess :: "u32 \<Rightarrow> u32 \<Rightarrow> bool" where
  "seqLess a b \<longleftrightarrow> sint (a - b) < 0"

definition seqLessOrEqual :: "u32 \<Rightarrow> u32 \<Rightarrow> bool" where
  "seqLessOrEqual a b \<longleftrightarrow> sint (a - b) \<le> 0"

definition seqGreater :: "u32 \<Rightarrow> u32 \<Rightarrow> bool" where
  "seqGreater a b \<longleftrightarrow> sint (a - b) > 0"

text \<open>
  The inner loop of the insertion sort: the element at index \<open>j\<close> is swapped to the left while it
  is less than its left neighbour; then the outer loop.
\<close>

fun sift :: "('a \<Rightarrow> 'a \<Rightarrow> bool) \<Rightarrow> nat \<Rightarrow> 'a list \<Rightarrow> 'a list" where
  "sift lt 0 xs = xs"
| "sift lt (Suc j) xs =
     (if lt (xs ! Suc j) (xs ! j) then sift lt j (xs[Suc j := xs ! j, j := xs ! Suc j]) else xs)"

definition insertion_sort :: "('a \<Rightarrow> 'a \<Rightarrow> bool) \<Rightarrow> 'a list \<Rightarrow> 'a list" where
  "insertion_sort lt xs = fold (sift lt) [1..<length xs] xs"

section \<open>Insertion sort over a strict linear order on a set\<close>

lemma length_sift [simp]: "length (sift lt j xs) = length xs"
  by (induction j arbitrary: xs) simp_all

lemma mset_sift: "j < length xs \<Longrightarrow> mset (sift lt j xs) = mset xs"
proof (induction j arbitrary: xs)
  case 0
  then show ?case by simp
next
  case (Suc j)
  have "mset (xs[Suc j := xs ! j, j := xs ! Suc j]) = mset xs"
    using Suc.prems by (simp add: mset_swap)
  with Suc show ?case by simp
qed

lemma sift_snoc:
  "sift lt (Suc (length pre)) (pre @ y # x # rest) =
     (if lt x y then sift lt (length pre) (pre @ x # y # rest) else pre @ y # x # rest)"
  by (simp add: nth_append list_update_append)

text \<open>The element travels left over a block of greater elements and stops.\<close>

lemma sift_splits:
  "\<exists>A B. pre = A @ B \<and> sift lt (length pre) (pre @ x # rest) = A @ x # B @ rest
     \<and> (\<forall>b \<in> set B. lt x b) \<and> (A \<noteq> [] \<longrightarrow> \<not> lt x (last A))"
proof (induction pre arbitrary: rest rule: rev_induct)
  case Nil
  show ?case by simp
next
  case (snoc y pre)
  have step: "sift lt (length (pre @ [y])) ((pre @ [y]) @ x # rest) =
      (if lt x y then sift lt (length pre) (pre @ x # y # rest) else pre @ y # x # rest)"
    using sift_snoc [of lt pre y x rest] by simp
  show ?case
  proof (cases "lt x y")
    case True
    from snoc.IH [of "y # rest"] obtain A B where "pre = A @ B"
      "sift lt (length pre) (pre @ x # y # rest) = A @ x # B @ y # rest"
      "\<forall>b \<in> set B. lt x b" "A \<noteq> [] \<longrightarrow> \<not> lt x (last A)" by blast
    with True step show ?thesis
      by (intro exI [of _ A] exI [of _ "B @ [y]"]) simp
  next
    case False
    with step show ?thesis
      by (intro exI [of _ "pre @ [y]"] exI [of _ "[]"]) simp
  qed
qed

locale window_order =
  fixes lt :: "'a \<Rightarrow> 'a \<Rightarrow> bool" and W :: "'a set"
  assumes lt_irrefl: "x \<in> W \<Longrightarrow> \<not> lt x x"
    and lt_trans: "x \<in> W \<Longrightarrow> y \<in> W \<Longrightarrow> z \<in> W \<Longrightarrow> lt x y \<Longrightarrow> lt y z \<Longrightarrow> lt x z"
    and lt_total: "x \<in> W \<Longrightarrow> y \<in> W \<Longrightarrow> x \<noteq> y \<Longrightarrow> lt x y \<or> lt y x"
begin

lemma lt_asym: "x \<in> W \<Longrightarrow> y \<in> W \<Longrightarrow> lt x y \<Longrightarrow> \<not> lt y x"
  using lt_irrefl lt_trans by blast

lemma sift_sorted:
  assumes W: "set pre \<subseteq> W" "x \<in> W" and x: "x \<notin> set pre" and s: "sorted_wrt lt pre"
  obtains ys where "sift lt (length pre) (pre @ x # rest) = ys @ rest"
    and "sorted_wrt lt ys" and "length ys = Suc (length pre)"
proof -
  obtain A B where AB: "pre = A @ B" "sift lt (length pre) (pre @ x # rest) = A @ x # B @ rest"
    "\<forall>b \<in> set B. lt x b" "A \<noteq> [] \<longrightarrow> \<not> lt x (last A)"
    using sift_splits by metis
  have "lt a x" if a: "a \<in> set A" for a
  proof -
    from a have "A \<noteq> []" by auto
    then have l: "last A \<in> set A" by simp
    then have "last A \<in> W" and "last A \<noteq> x" using AB(1) W x by auto
    then have lx: "lt (last A) x"
      using lt_total [of x "last A"] AB(4) W(2) \<open>A \<noteq> []\<close> by auto
    have "a = last A \<or> lt a (last A)"
      using a s \<open>A \<noteq> []\<close> unfolding AB(1)
      by (cases A rule: rev_cases) (auto simp: sorted_wrt_append)
    with lx a l AB(1) W show ?thesis using lt_trans [of a "last A" x] by auto
  qed
  with AB s W show ?thesis
    by (intro that [of "A @ x # B"]) (auto simp: sorted_wrt_append)
qed

lemma insertion_prefix:
  assumes "set xs \<subseteq> W" and "distinct xs" and "1 \<le> i" and "i \<le> length xs"
  shows "\<exists>ys. fold (sift lt) [1..<i] xs = ys @ drop i xs \<and> length ys = i
     \<and> sorted_wrt lt ys \<and> mset ys = mset (take i xs)"
  using assms(3,4)
proof (induction i rule: dec_induct)
  case base
  then show ?case by (intro exI [of _ "take 1 xs"]) (cases xs, auto)
next
  case (step i)
  then obtain ys where ys: "fold (sift lt) [1..<i] xs = ys @ drop i xs" "length ys = i"
    "sorted_wrt lt ys" "mset ys = mset (take i xs)" by auto
  have sy: "set ys = set (take i xs)" using ys(4) by (rule mset_eq_setD)
  have x: "drop i xs = xs ! i # drop (Suc i) xs" using step by (simp add: Cons_nth_drop_Suc)
  have "xs ! i \<notin> set (take i xs)"
    using assms(2) step by (auto simp: in_set_conv_nth nth_eq_iff_index_eq)
  then obtain zs where zs: "sift lt i (ys @ drop i xs) = zs @ drop (Suc i) xs"
    "sorted_wrt lt zs" "length zs = Suc i"
    using sift_sorted [of ys "xs ! i" "drop (Suc i) xs"] ys sy x assms(1) step
    by (metis nth_mem order_less_le_trans set_take_subset subset_code(1) lessI Suc_le_eq)
  have "mset zs + mset (drop (Suc i) xs) = mset ys + mset (drop i xs)"
    using zs(1) mset_sift [of i "ys @ drop i xs" lt] step ys(2) by (metis length_append
        length_drop le_add_diff_inverse less_imp_le_nat mset_append Suc_le_eq)
  then have "mset zs = mset (take (Suc i) xs)"
    using step ys(4) x by (simp add: take_Suc_conv_app_nth)
  with zs ys(1) step show ?case by auto
qed

lemma insertion_sort_correct:
  assumes "set xs \<subseteq> W" and "distinct xs"
  shows "sorted_wrt lt (insertion_sort lt xs)" and "mset (insertion_sort lt xs) = mset xs"
proof -
  have "sorted_wrt lt (insertion_sort lt xs) \<and> mset (insertion_sort lt xs) = mset xs"
  proof (cases "xs = []")
    case False
    then show ?thesis
      using insertion_prefix [OF assms, of "length xs"] by (auto simp: insertion_sort_def Suc_le_eq)
  qed (simp add: insertion_sort_def)
  then show "sorted_wrt lt (insertion_sort lt xs)"
    and "mset (insertion_sort lt xs) = mset xs" by simp_all
qed

text \<open>The sorted arrangement of a set is unique, so the input order does not matter.\<close>

lemma sorted_unique:
  assumes "sorted_wrt lt xs" "sorted_wrt lt ys" "set xs = set ys" "set xs \<subseteq> W"
  shows "xs = ys"
  using assms
proof (induction xs arbitrary: ys)
  case Nil
  then show ?case by simp
next
  case (Cons x xs)
  then obtain y ys' where ys: "ys = y # ys'" by (cases ys) auto
  have xy: "x = y"
  proof (rule ccontr)
    assume "x \<noteq> y"
    with Cons.prems ys have "lt x y" and "lt y x" by auto
    moreover have "x \<in> W" "y \<in> W" using Cons.prems ys by auto
    ultimately show False using lt_asym by blast
  qed
  have "x \<notin> set xs" "y \<notin> set ys'"
    using Cons.prems ys xy lt_irrefl [of x] by auto
  then have "set xs = set ys'" using Cons.prems(3) xy ys by auto
  then have "xs = ys'" using Cons.prems ys by (intro Cons.IH) auto
  with xy ys show ?case by simp
qed

lemma insertion_sort_order_free:
  assumes "distinct xs" "distinct ys" "set xs = set ys" "set xs \<subseteq> W"
  shows "insertion_sort lt xs = insertion_sort lt ys"
proof (rule sorted_unique)
  show "sorted_wrt lt (insertion_sort lt xs)" "sorted_wrt lt (insertion_sort lt ys)"
    using assms insertion_sort_correct(1) by metis+
  have "set (insertion_sort lt zs) = set zs" if "set zs \<subseteq> W" "distinct zs" for zs
    using insertion_sort_correct(2) [OF that] by (rule mset_eq_setD)
  then show "set (insertion_sort lt xs) = set (insertion_sort lt ys)"
    "set (insertion_sort lt xs) \<subseteq> W" using assms by auto
qed

end

section \<open>Half windows\<close>

text \<open>\<open>window b\<close> holds the sequence numbers at distance less than 2^31 above \<open>b\<close>.\<close>

definition window :: "u32 \<Rightarrow> u32 set" where
  "window b = {x. unat (x - b) < 2 ^ 31}"

lemma sint_small_diff:
  fixes x y :: u32
  assumes "uint x < 2 ^ 31" and "uint y < 2 ^ 31"
  shows "sint (x - y) = uint x - uint y"
proof -
  have "x - y = word_of_int (uint x - uint y)" by simp
  then have "sint (x - y) = wrap32 (uint x - uint y)"
    by (simp only: sint_word_of_int32)
  also have "\<dots> = uint x - uint y"
    using assms uint_ge_0 [of x] uint_ge_0 [of y] by (intro wrap32_id) linarith+
  finally show ?thesis .
qed

lemma sint_window_diff:
  assumes "x \<in> window b" and "y \<in> window b"
  shows "sint (x - y) = int (unat (x - b)) - int (unat (y - b))"
proof -
  have "x - y = (x - b) - (y - b)" by simp
  also have "sint \<dots> = uint (x - b) - uint (y - b)"
    using assms by (intro sint_small_diff) (simp_all add: window_def uint_nat del: of_nat_unat)
  finally show ?thesis by simp
qed

lemma window_compare:
  assumes "x \<in> window b" and "y \<in> window b"
  shows "seqLess x y \<longleftrightarrow> unat (x - b) < unat (y - b)"
    and "seqLessOrEqual x y \<longleftrightarrow> unat (x - b) \<le> unat (y - b)"
    and "seqGreater x y \<longleftrightarrow> unat (y - b) < unat (x - b)"
  using sint_window_diff [OF assms]
  by (auto simp: seqLess_def seqLessOrEqual_def seqGreater_def simp del: of_nat_unat)

lemma window_dist_inj: "unat (x - b) = unat (y - b) \<Longrightarrow> x = (y :: u32)"
  by (metis diff_eq_eq diff_add_cancel word_unat_eq_iff)

interpretation win: window_order seqLess "window b" for b
proof unfold_locales
  fix x y z assume "x \<in> window b" "y \<in> window b" "z \<in> window b" "seqLess x y" "seqLess y z"
  then show "seqLess x z" by (simp add: window_compare)
next
  fix x y assume "x \<in> window b" "y \<in> window b" "x \<noteq> y"
  then show "seqLess x y \<or> seqLess y x"
    using window_dist_inj by (metis window_compare(1) linorder_neqE_nat)
qed (simp add: seqLess_def)

text \<open>Sequence numbers of stream positions \<open>m\<close>, \<open>n\<close> that are less than 2^31 apart.\<close>

lemma sint_of_nat_diff:
  assumes "\<bar>int m - int n\<bar> < 2 ^ 31"
  shows "sint (of_nat m - of_nat n :: u32) = int m - int n"
proof -
  have "(of_nat m - of_nat n :: u32) = word_of_int (int m - int n)" by simp
  then have "sint (of_nat m - of_nat n :: u32) = wrap32 (int m - int n)"
    by (simp only: sint_word_of_int32)
  also have "\<dots> = int m - int n"
    using assms by (intro wrap32_id) linarith+
  finally show ?thesis .
qed

lemma of_nat_seq_inj:
  "\<bar>int m - int n\<bar> < 2 ^ 31 \<Longrightarrow> (of_nat m :: u32) = of_nat n \<Longrightarrow> m = n"
  using sint_of_nat_diff [of m n] by simp

section \<open>Properties\<close>

text \<open>
  Across wrap-around, comparing sequence numbers compares stream positions: for positions less
  than 2^31 apart, the three comparisons agree with the order of the positions.
\<close>

theorem seq_compare_positions:
  assumes "\<bar>int m - int n\<bar> < 2 ^ 31"
  shows "(seqLess (of_nat m) (of_nat n) \<longleftrightarrow> m < n)
    \<and> (seqLessOrEqual (of_nat m) (of_nat n) \<longleftrightarrow> m \<le> n)
    \<and> (seqGreater (of_nat m) (of_nat n) \<longleftrightarrow> n < m)"
  using sint_of_nat_diff [OF assms]
  by (auto simp: seqLess_def seqLessOrEqual_def seqGreater_def)

theorem seq_compare_positions_witness:
  "seqLess (of_nat 4294967295) (of_nat 4294967296)
   \<and> seqLessOrEqual (of_nat 4294967295) (of_nat 4294967296)
   \<and> \<not> seqGreater (of_nat 4294967295) (of_nat 4294967296)"
  using seq_compare_positions [of 4294967295 4294967296] by simp

end
