(* ===== verification/Float64.thy ===== *)
theory Float64
  imports Complex_Main
begin

text \<open>
  The float64 arithmetic that the RTT estimator uses. A finite float64 is a rational; each
  operation is the exact one followed by \<open>fl64\<close>, IEEE 754 rounding to 53 significant bits, ties to
  even, with the subnormal range below 2^-1022 (evaluation of one operation at a time, as on
  amd64). Overflow to infinity does not arise in the modelled code and has no counterpart.
\<close>

section \<open>Rounding\<close>

fun ilog2 :: "nat \<Rightarrow> nat" where
  "ilog2 n = (if n < 2 then 0 else Suc (ilog2 (n div 2)))"

declare ilog2.simps [simp del]

text \<open>The binary exponent of a positive rational: the \<open>e\<close> with 2^e at most \<open>x\<close> and \<open>x\<close> below
  2^(e+1).\<close>

definition expo :: "rat \<Rightarrow> int" where
  "expo x = (if 1 \<le> x then int (ilog2 (nat \<lfloor>x\<rfloor>)) else - int (ilog2 (nat \<lceil>1 / x\<rceil> - 1)) - 1)"

definition scale_exp :: "rat \<Rightarrow> int" where
  "scale_exp x = max (expo x) (-1022)"

definition quantum :: "rat \<Rightarrow> rat" where
  "quantum x = 2 powi (scale_exp x - 52)"

text \<open>Round to the nearest integer, ties to even.\<close>

definition rne :: "rat \<Rightarrow> int" where
  "rne x =
     (let f = \<lfloor>x\<rfloor>; r = x - of_int f
      in if r < 1 / 2 then f else if r > 1 / 2 then f + 1 else if even f then f else f + 1)"

definition fl64_pos :: "rat \<Rightarrow> rat" where
  "fl64_pos x = of_int (rne (x / quantum x)) * quantum x"

definition fl64 :: "rat \<Rightarrow> rat" where
  "fl64 x = (if x = 0 then 0 else if 0 < x then fl64_pos x else - fl64_pos (- x))"

text \<open>Conversion to a Go integer: truncation towards zero.\<close>

definition trunc :: "rat \<Rightarrow> int" where
  "trunc x = (if x < 0 then \<lceil>x\<rceil> else \<lfloor>x\<rfloor>)"

section \<open>The contract of a rounding function\<close>

text \<open>
  What the clients need of rounding: it is monotone and leaves the binary fractions with a
  53-bit numerator alone.
\<close>

locale rounding =
  fixes fl :: "rat \<Rightarrow> rat"
  assumes fl_mono: "x \<le> y \<Longrightarrow> fl x \<le> fl y"
    and fl_dyadic: "\<bar>n\<bar> \<le> 2 ^ 53 \<Longrightarrow> k \<le> 52 \<Longrightarrow> fl (of_int n / 2 ^ k) = of_int n / 2 ^ k"
begin

lemma fl_int: "\<bar>n\<bar> \<le> 2 ^ 53 \<Longrightarrow> fl (of_int n) = of_int n"
  using fl_dyadic [of n 0] by simp

lemma fl_ge_dyadic:
  "\<bar>n\<bar> \<le> 2 ^ 53 \<Longrightarrow> k \<le> 52 \<Longrightarrow> of_int n / 2 ^ k \<le> x \<Longrightarrow> of_int n / 2 ^ k \<le> fl x"
  using fl_mono [of "of_int n / 2 ^ k" x] fl_dyadic by simp

lemma fl_le_dyadic:
  "\<bar>n\<bar> \<le> 2 ^ 53 \<Longrightarrow> k \<le> 52 \<Longrightarrow> x \<le> of_int n / 2 ^ k \<Longrightarrow> fl x \<le> of_int n / 2 ^ k"
  using fl_mono [of x "of_int n / 2 ^ k"] fl_dyadic by simp

lemma fl_ge_int: "\<bar>n\<bar> \<le> 2 ^ 53 \<Longrightarrow> of_int n \<le> x \<Longrightarrow> of_int n \<le> fl x"
  using fl_mono [of "of_int n" x] fl_int by simp

lemma fl_le_int: "\<bar>n\<bar> \<le> 2 ^ 53 \<Longrightarrow> x \<le> of_int n \<Longrightarrow> fl x \<le> of_int n"
  using fl_mono [of x "of_int n"] fl_int by simp

lemma fl_nonneg: "0 \<le> x \<Longrightarrow> 0 \<le> fl x"
  using fl_ge_int [of 0 x] by simp

end

section \<open>float64 rounding satisfies the contract\<close>

lemma ilog2_bounds: "0 < n \<Longrightarrow> 2 ^ ilog2 n \<le> n \<and> n < 2 ^ Suc (ilog2 n)"
proof (induction n rule: ilog2.induct)
  case (1 n)
  show ?case
  proof (cases "n < 2")
    case True
    with "1.prems" show ?thesis by (simp add: ilog2.simps)
  next
    case False
    with "1.IH" have "2 ^ ilog2 (n div 2) \<le> n div 2" "n div 2 < 2 ^ Suc (ilog2 (n div 2))" by auto
    with False show ?thesis by (simp add: ilog2.simps [of n]) linarith
  qed
qed

lemma expo_large:
  assumes "1 \<le> x"
  shows "2 powi expo x \<le> x \<and> x < 2 powi (expo x + 1)"
proof -
  define n where "n = nat \<lfloor>x\<rfloor>"
  have n: "0 < n" "of_nat n \<le> x" "x < of_nat n + 1"
    using assms by (auto simp: n_def) linarith+
  have "2 ^ ilog2 n \<le> n" "n + 1 \<le> 2 ^ Suc (ilog2 n)"
    using ilog2_bounds [OF n(1)] by linarith+
  then have "(of_nat (2 ^ ilog2 n) :: rat) \<le> of_nat n"
    "(of_nat (n + 1) :: rat) \<le> of_nat (2 ^ Suc (ilog2 n))"
    by (simp_all only: of_nat_le_iff)
  then have "(2 :: rat) ^ ilog2 n \<le> of_nat n" "of_nat n + 1 \<le> (2 :: rat) ^ Suc (ilog2 n)"
    by (simp_all only: of_nat_add of_nat_1 of_nat_power of_nat_numeral)
  with n have "(2 :: rat) ^ ilog2 n \<le> x" "x < (2 :: rat) ^ Suc (ilog2 n)" by linarith+
  moreover have "expo x = int (ilog2 n)" using assms by (simp add: expo_def n_def)
  ultimately show ?thesis by (simp add: power_int_add_1 mult.commute)
qed

lemma inverse_pow_bounds:
  fixes x :: rat
  assumes "0 < x" and "2 ^ k < 1 / x" and "1 / x \<le> 2 ^ Suc k" and e: "e = - int (Suc k)"
  shows "2 powi e \<le> x \<and> x < 2 powi (e + 1)"
proof -
  have "e + 1 = - int k" using e by simp
  then have p: "2 powi e = 1 / (2 :: rat) ^ Suc k" "2 powi (e + 1) = 1 / (2 :: rat) ^ k"
    by (simp_all only: e power_int_minus power_int_of_nat inverse_eq_divide)
  have "1 \<le> 2 ^ Suc k * x" "2 ^ k * x < 1"
    using assms(1-3) by (simp_all only: pos_divide_le_eq pos_less_divide_eq)
  then show ?thesis unfolding p
    by (simp only: pos_divide_le_eq pos_less_divide_eq zero_less_power zero_less_numeral
        mult.commute conj_commute)
qed

lemma expo_small:
  assumes "0 < x" and "\<not> 1 \<le> x"
  shows "2 powi expo x \<le> x \<and> x < 2 powi (expo x + 1)"
proof -
  define N where "N = nat \<lceil>1 / x\<rceil>"
  define k where "k = ilog2 (N - 1)"
  have y: "1 < 1 / x" using assms by simp
  then have "0 \<le> \<lceil>1 / x\<rceil>" by linarith
  then have oN: "(of_nat N :: rat) = of_int \<lceil>1 / x\<rceil>" by (simp only: N_def of_nat_nat)
  have N: "1 / x \<le> (of_nat N :: rat)" "(of_nat N :: rat) < 1 / x + 1"
    using oN ceiling_correct [of "1 / x"] by linarith+
  have "(of_nat 1 :: rat) < of_nat N" using less_le_trans [OF y N(1)] by (simp only: of_nat_1)
  then have N1: "1 < N" by (simp only: of_nat_less_iff)
  then have "2 ^ k \<le> N - 1" "N - 1 < 2 ^ Suc k"
    using ilog2_bounds [of "N - 1"] by (simp_all only: k_def zero_less_diff)
  with N1 have "2 ^ k + 1 \<le> N" "N \<le> 2 ^ Suc k" by linarith+
  then have "(of_nat (2 ^ k + 1) :: rat) \<le> of_nat N" "(of_nat N :: rat) \<le> of_nat (2 ^ Suc k)"
    by (simp_all only: of_nat_le_iff)
  then have "(2 :: rat) ^ k + 1 \<le> of_nat N" "of_nat N \<le> (2 :: rat) ^ Suc k"
    by (simp_all only: of_nat_add of_nat_1 of_nat_power of_nat_numeral)
  with N have "(2 :: rat) ^ k < 1 / x" "1 / x \<le> (2 :: rat) ^ Suc k" by linarith+
  moreover have "expo x = - int (Suc k)" using assms(2) by (simp add: expo_def N_def k_def)
  ultimately show ?thesis by (rule inverse_pow_bounds [OF assms(1)])
qed

lemma expo_bounds:
  assumes "0 < x"
  shows "2 powi expo x \<le> x" and "x < 2 powi (expo x + 1)"
  using expo_large [of x] expo_small [OF assms] by (cases "1 \<le> x"; simp)+

lemma quantum_pos [simp]: "0 < quantum x"
  by (simp add: quantum_def)

lemma rne_mono: "x \<le> y \<Longrightarrow> rne x \<le> rne y"
proof -
  assume xy: "x \<le> y"
  then consider "\<lfloor>x\<rfloor> = \<lfloor>y\<rfloor>" | "\<lfloor>x\<rfloor> + 1 \<le> \<lfloor>y\<rfloor>"
    using floor_mono [OF xy] by linarith
  then show ?thesis
    using xy by cases (auto simp: rne_def Let_def)
qed

lemma rne_of_int [simp]: "rne (of_int n) = n"
  by (simp add: rne_def)

lemma scale_bound:
  assumes "0 < x"
  shows "x < 2 powi (scale_exp x + 1)"
proof -
  have "x < 2 powi (expo x + 1)" by (rule expo_bounds(2) [OF assms])
  also have "\<dots> \<le> 2 powi (scale_exp x + 1)"
    by (intro power_int_increasing) (simp_all add: scale_exp_def)
  finally show ?thesis .
qed

lemma quantum_mult: "2 powi k = of_int (2 ^ nat (k - (scale_exp x - 52))) * quantum x"
  if "scale_exp x - 52 \<le> k"
  using that by (simp add: quantum_def flip: power_int_add power_int_of_nat)

lemma fl64_pos_le_pow:
  assumes "0 < x"
  shows "fl64_pos x \<le> 2 powi (scale_exp x + 1)"
proof -
  have "x \<le> of_int (2 ^ 53) * quantum x"
    using scale_bound [OF assms] quantum_mult [of x "scale_exp x + 1"] by simp
  then have "x / quantum x \<le> of_int (2 ^ 53)" by (simp add: divide_le_eq)
  then have "rne (x / quantum x) \<le> rne (of_int (2 ^ 53))" by (rule rne_mono)
  then have "rne (x / quantum x) \<le> 2 ^ 53" by (simp only: rne_of_int)
  then have "(of_int (rne (x / quantum x)) :: rat) \<le> of_int (2 ^ 53)" by (simp only: of_int_le_iff)
  then have "fl64_pos x \<le> of_int (2 ^ 53) * quantum x"
    unfolding fl64_pos_def by (intro mult_right_mono) (simp_all add: less_imp_le)
  then show ?thesis using quantum_mult [of x "scale_exp x + 1"] by simp
qed

lemma fl64_pos_ge_pow:
  assumes "0 < x" and "scale_exp x = expo x"
  shows "2 powi scale_exp x \<le> fl64_pos x"
proof -
  have "of_int (2 ^ 52) * quantum x \<le> x"
    using expo_bounds(1) [OF assms(1)] quantum_mult [of x "scale_exp x"] assms(2) by simp
  then have "of_int (2 ^ 52) \<le> x / quantum x" by (simp add: le_divide_eq)
  then have "rne (of_int (2 ^ 52)) \<le> rne (x / quantum x)" by (rule rne_mono)
  then have "2 ^ 52 \<le> rne (x / quantum x)" by (simp only: rne_of_int)
  then have "(of_int (2 ^ 52) :: rat) \<le> of_int (rne (x / quantum x))" by (simp only: of_int_le_iff)
  then have "of_int (2 ^ 52) * quantum x \<le> fl64_pos x"
    unfolding fl64_pos_def by (intro mult_right_mono) (simp_all add: less_imp_le)
  then show ?thesis using quantum_mult [of x "scale_exp x"] by simp
qed

lemma expo_mono: "0 < x \<Longrightarrow> x \<le> y \<Longrightarrow> expo x \<le> expo y"
proof (rule ccontr)
  assume x: "0 < x" "x \<le> y" and "\<not> expo x \<le> expo y"
  then have "(2 :: rat) powi (expo y + 1) \<le> 2 powi expo x" by (intro power_int_increasing) auto
  with x expo_bounds(1) [of x] expo_bounds(2) [of y] show False by linarith
qed

lemma fl64_pos_mono:
  assumes "0 < x" and "x \<le> y"
  shows "fl64_pos x \<le> fl64_pos y"
proof (cases "scale_exp x = scale_exp y")
  case True
  then have q: "quantum x = quantum y" by (simp add: quantum_def)
  have "rne (x / quantum y) \<le> rne (y / quantum y)"
    using assms by (intro rne_mono) (simp add: divide_right_mono less_imp_le)
  then show ?thesis
    unfolding fl64_pos_def q by (intro mult_right_mono) (simp_all add: less_imp_le)
next
  case False
  with expo_mono [OF assms] have s: "scale_exp x < scale_exp y" "scale_exp y = expo y"
    by (auto simp: scale_exp_def max_def split: if_splits)
  have "fl64_pos x \<le> 2 powi (scale_exp x + 1)" by (rule fl64_pos_le_pow [OF assms(1)])
  also have "\<dots> \<le> 2 powi scale_exp y" using s(1) by (intro power_int_increasing) auto
  also have "\<dots> \<le> fl64_pos y" using assms s(2) by (intro fl64_pos_ge_pow) auto
  finally show ?thesis .
qed

lemma fl64_pos_nonneg: "0 < x \<Longrightarrow> 0 \<le> fl64_pos x"
proof -
  assume "0 < x"
  then have "0 \<le> x / quantum x" by (simp add: less_imp_le)
  then have "rne (of_int 0) \<le> rne (x / quantum x)" by (intro rne_mono) simp
  then have "0 \<le> rne (x / quantum x)" by (simp only: rne_of_int)
  then show ?thesis unfolding fl64_pos_def by (intro mult_nonneg_nonneg) (simp_all add: less_imp_le)
qed

lemma fl64_pos_exact: "x / quantum x = of_int m \<Longrightarrow> fl64_pos x = x"
  by (simp add: fl64_pos_def) (metis less_irrefl nonzero_eq_divide_eq quantum_pos)

lemma powi_le_cancel: "(2 :: rat) powi a \<le> 2 powi b \<Longrightarrow> a \<le> b"
  by (rule ccontr) (meson linorder_not_le power_int_strict_increasing rel_simps(49) one_less_numeral_iff semiring_norm(76))

lemma fl64_pos_dyadic:
  assumes n: "0 < n" "n \<le> 2 ^ 53" and k: "k \<le> 52"
  shows "fl64_pos (of_int n / 2 ^ k) = of_int n / 2 ^ k"
proof -
  define x :: rat where "x = of_int n / 2 ^ k"
  define e where "e = expo x"
  have xn: "x = of_int n * 2 powi (- int k)"
    by (simp add: x_def power_int_minus divide_inverse)
  have x: "0 < x" using n by (simp add: x_def)
  have "(1 :: rat) * 2 powi (- int k) \<le> x"
    unfolding xn using n by (intro mult_right_mono) simp_all
  then have "(2 :: rat) powi (- int k) < 2 powi (e + 1)"
    using expo_bounds(2) [OF x] by (simp add: e_def)
  then have ek: "- int k \<le> e"
    using powi_le_cancel [of "- int k" "e + 1"] by (cases "- int k = e + 1") auto
  then have q: "quantum x = 2 powi (e - 52)"
    using k by (simp add: quantum_def scale_exp_def e_def)
  have "x \<le> of_int (2 ^ 53) * 2 powi (- int k)"
    unfolding xn using n by (intro mult_right_mono) (simp_all del: of_int_power)
  also have "\<dots> = 2 powi (53 - int k)" by (simp add: power_int_diff power_int_minus divide_inverse)
  finally have ub: "x \<le> 2 powi (53 - int k)" .
  have "\<exists>m. x / quantum x = of_int m"
  proof (cases "e \<le> 52 - int k")
    case True
    have "x / quantum x = x / 2 powi (e - 52)" by (simp only: q)
    also have "\<dots> = of_int n * 2 powi (52 - e - int k)"
      unfolding xn by (simp add: power_int_diff power_int_minus power_int_add field_simps)
    also have "\<dots> = of_int (n * 2 ^ nat (52 - e - int k))"
      using True by (simp add: power_int_def)
    finally show ?thesis by blast
  next
    case False
    have "(2 :: rat) powi e \<le> 2 powi (53 - int k)"
      using expo_bounds(1) [OF x] ub by (simp add: e_def)
    then have e53: "e = 53 - int k" using False powi_le_cancel by fastforce
    then have xx: "x = 2 powi e" using expo_bounds(1) [OF x] ub by (simp add: e_def)
    have "x / quantum x = x / 2 powi (e - 52)" by (simp only: q)
    also have "\<dots> = 2 powi e / 2 powi (e - 52)" by (simp only: xx)
    also have "\<dots> = of_int (2 ^ 52)" by (simp add: power_int_diff)
    finally have "x / quantum x = of_int (2 ^ 52)" .
    then show ?thesis by blast
  qed
  then show ?thesis using fl64_pos_exact x_def by blast
qed

interpretation f64: rounding fl64
proof unfold_locales
  fix x y :: rat assume "x \<le> y"
  then show "fl64 x \<le> fl64 y"
    using fl64_pos_mono [of x y] fl64_pos_mono [of "- y" "- x"] fl64_pos_nonneg [of y]
      fl64_pos_nonneg [of "- x"] by (auto simp: fl64_def)
next
  fix n :: int and k :: nat assume "\<bar>n\<bar> \<le> 2 ^ 53" "k \<le> 52"
  then show "fl64 (of_int n / 2 ^ k) = of_int n / 2 ^ k"
    using fl64_pos_dyadic [of n k] fl64_pos_dyadic [of "- n" k]
    by (auto simp: fl64_def zero_less_divide_iff divide_less_0_iff)
qed

end
