(* ===== verification/RTT.thy ===== *)
theory RTT
  imports Float64
begin

text \<open>
  The round-trip time estimator of pkg/tunnel/reliable.go (lines 35 to 47 and 227 to 301): RFC 6298
  smoothing on float64 milliseconds with a clamped retransmission timeout. The mutex makes every
  method atomic, so each is one function on the state.
\<close>

section \<open>Model\<close>

definition DefaultRTOMs :: int where "DefaultRTOMs = 1000"
definition MinRTOMs :: int where "MinRTOMs = 100"
definition MaxRTOMs :: int where "MaxRTOMs = 4000"
definition RTTAlpha :: rat where "RTTAlpha = 1 / 8"
definition RTTBeta :: rat where "RTTBeta = 1 / 4"

lemmas rto_consts = DefaultRTOMs_def MinRTOMs_def MaxRTOMs_def

record rtt_estimator =
  srtt :: rat
  rttvar :: rat
  rto :: rat
  hasRTT :: bool

definition NewRTTEstimator :: rtt_estimator where
  "NewRTTEstimator = \<lparr>srtt = 0, rttvar = 0, rto = of_int DefaultRTOMs, hasRTT = False\<rparr>"

definition fabs :: "rat \<Rightarrow> rat" where
  "fabs x = (if x < 0 then - x else x)"

text \<open>
  \<open>Update\<close>. The factors \<open>1-RTTBeta\<close> and \<open>1-RTTAlpha\<close> are constant expressions, evaluated exactly.
\<close>

definition Update :: "rat \<Rightarrow> rtt_estimator \<Rightarrow> rtt_estimator" where
  "Update rttMs r =
     (let r = (if \<not> hasRTT r
               then r\<lparr>srtt := rttMs, rttvar := fl64 (rttMs / 2), hasRTT := True\<rparr>
               else r\<lparr>rttvar := fl64 (fl64 ((1 - RTTBeta) * rttvar r)
                                + fl64 (RTTBeta * fabs (fl64 (srtt r - rttMs)))),
                      srtt := fl64 (fl64 ((1 - RTTAlpha) * srtt r) + fl64 (RTTAlpha * rttMs))\<rparr>);
          r = r\<lparr>rto := fl64 (srtt r + fl64 (4 * rttvar r))\<rparr>;
          r = (if rto r < of_int MinRTOMs then r\<lparr>rto := of_int MinRTOMs\<rparr> else r)
      in if rto r > of_int MaxRTOMs then r\<lparr>rto := of_int MaxRTOMs\<rparr> else r)"

definition RTO :: "rtt_estimator \<Rightarrow> int" where
  "RTO r = trunc (rto r)"

definition SRTT :: "rtt_estimator \<Rightarrow> rat" where
  "SRTT r = (if \<not> hasRTT r then 0 else srtt r)"

definition Backoff :: "rtt_estimator \<Rightarrow> rtt_estimator" where
  "Backoff r =
     (let r = r\<lparr>rto := fl64 (rto r * 2)\<rparr>
      in if rto r > of_int MaxRTOMs then r\<lparr>rto := of_int MaxRTOMs\<rparr> else r)"

text \<open>The operations that change the estimator, and runs of them.\<close>

datatype rtt_op = Sample rat | Timeout

fun rtt_step :: "rtt_op \<Rightarrow> rtt_estimator \<Rightarrow> rtt_estimator" where
  "rtt_step (Sample x) r = Update x r"
| "rtt_step Timeout r = Backoff r"

section \<open>The timeout stays in its bounds\<close>

definition rto_ok :: "rtt_estimator \<Rightarrow> bool" where
  "rto_ok r \<longleftrightarrow> 100 \<le> rto r \<and> rto r \<le> 4000"

lemma rto_ok_New [simp]: "rto_ok NewRTTEstimator"
  by (simp add: rto_ok_def NewRTTEstimator_def rto_consts)

lemma rto_ok_Update [simp]: "rto_ok (Update x r)"
  by (simp add: rto_ok_def Update_def rto_consts Let_def)

lemma rto_ok_Backoff [simp]: "rto_ok r \<Longrightarrow> rto_ok (Backoff r)"
  using f64.fl_ge_int [of 100 "rto r * 2"]
  by (simp add: rto_ok_def Backoff_def rto_consts Let_def)

lemma rto_ok_step: "rto_ok r \<Longrightarrow> rto_ok (rtt_step op r)"
  by (cases op) simp_all

lemma rto_ok_run: "rto_ok r \<Longrightarrow> rto_ok (fold rtt_step ops r)"
  by (induction ops arbitrary: r) (simp_all add: rto_ok_step)

lemma RTO_bounds: "rto_ok r \<Longrightarrow> 100 \<le> RTO r \<and> RTO r \<le> 4000"
  by (simp add: rto_ok_def RTO_def trunc_def le_floor_iff floor_le_iff)

section \<open>The estimate stays in the range of the samples\<close>

definition est_between :: "int \<Rightarrow> int \<Rightarrow> rtt_estimator \<Rightarrow> bool" where
  "est_between lo hi r \<longleftrightarrow>
     hasRTT r \<and> of_int lo \<le> srtt r \<and> srtt r \<le> of_int hi \<and> 0 \<le> rttvar r
     \<and> (of_int (min lo 4000) \<le> rto r)"

lemma smooth_between:
  fixes s x :: rat
  assumes lo: "0 \<le> lo" "lo \<le> hi" and hi: "hi \<le> 2 ^ 49"
    and s: "of_int lo \<le> s" "s \<le> of_int hi" and x: "of_int lo \<le> x" "x \<le> of_int hi"
  shows "of_int lo \<le> fl64 (fl64 ((1 - RTTAlpha) * s) + fl64 (RTTAlpha * x))"
    and "fl64 (fl64 ((1 - RTTAlpha) * s) + fl64 (RTTAlpha * x)) \<le> of_int hi"
proof -
  have "of_int (7 * lo) / 2 ^ 3 \<le> fl64 ((1 - RTTAlpha) * s)"
    and "of_int (1 * lo) / 2 ^ 3 \<le> fl64 (RTTAlpha * x)"
    using lo hi s x by (intro f64.fl_ge_dyadic; simp add: RTTAlpha_def)+
  then show "of_int lo \<le> fl64 (fl64 ((1 - RTTAlpha) * s) + fl64 (RTTAlpha * x))"
    using lo hi by (intro f64.fl_ge_int) simp_all
  have "fl64 ((1 - RTTAlpha) * s) \<le> of_int (7 * hi) / 2 ^ 3"
    and "fl64 (RTTAlpha * x) \<le> of_int (1 * hi) / 2 ^ 3"
    using lo hi s x by (intro f64.fl_le_dyadic; simp add: RTTAlpha_def)+
  then show "fl64 (fl64 ((1 - RTTAlpha) * s) + fl64 (RTTAlpha * x)) \<le> of_int hi"
    using lo hi by (intro f64.fl_le_int) simp_all
qed

lemma rttvar_nonneg:
  "0 \<le> v \<Longrightarrow> 0 \<le> fl64 (fl64 ((1 - RTTBeta) * v) + fl64 (RTTBeta * fabs d))"
  by (intro f64.fl_nonneg add_nonneg_nonneg) (simp_all add: RTTBeta_def fabs_def)

lemma Update_rto_ge:
  assumes "of_int m \<le> srtt (Update x r)" "0 \<le> rttvar (Update x r)" "0 \<le> m" "m \<le> 4000"
  shows "of_int m \<le> rto (Update x r)"
proof -
  have "of_int m \<le> fl64 (srtt (Update x r) + fl64 (4 * rttvar (Update x r)))"
    using assms f64.fl_nonneg [of "4 * rttvar (Update x r)"] by (intro f64.fl_ge_int) auto
  with assms(4) show ?thesis by (auto simp: Update_def rto_consts Let_def split: if_splits)
qed

lemma Update_between:
  assumes "0 \<le> lo" "lo \<le> x" "x \<le> hi" "hi \<le> 2 ^ 49" "hasRTT r \<Longrightarrow> est_between lo hi r"
  shows "est_between lo hi (Update (of_int x) r)"
proof -
  have "hasRTT (Update (of_int x) r)" by (simp add: Update_def Let_def)
  moreover have "of_int lo \<le> srtt (Update (of_int x) r)" "srtt (Update (of_int x) r) \<le> of_int hi"
    using assms smooth_between [of lo hi "srtt r" "of_int x"]
    by (auto simp: Update_def est_between_def Let_def)
  moreover have "0 \<le> rttvar (Update (of_int x) r)"
    using assms rttvar_nonneg f64.fl_nonneg [of "of_int x / 2"]
    by (auto simp: Update_def est_between_def Let_def)
  moreover have "of_int (min lo 4000) \<le> rto (Update (of_int x) r)"
    using calculation assms(1) by (intro Update_rto_ge) (auto simp: min_def)
  ultimately show ?thesis by (simp add: est_between_def)
qed

lemma Updates_between:
  assumes "0 \<le> lo" "hi \<le> 2 ^ 49" "\<forall>x \<in> set xs. lo \<le> x \<and> x \<le> hi" "hasRTT r \<Longrightarrow> est_between lo hi r"
  shows "hasRTT (fold (Update \<circ> of_int) xs r) \<Longrightarrow> est_between lo hi (fold (Update \<circ> of_int) xs r)"
  using assms
proof (induction xs arbitrary: r)
  case (Cons x xs)
  then have "est_between lo hi (Update (of_int x) r)" by (intro Update_between) auto
  with Cons show ?case by simp
qed simp

section \<open>Properties\<close>

text \<open>
  C36. After any sequence of RTT samples and timeouts, in any order and with any values, the
  retransmission timeout is between 100 ms and 4000 ms.
\<close>

theorem rto_always_bounded:
  "MinRTOMs \<le> RTO (fold rtt_step ops NewRTTEstimator)
   \<and> RTO (fold rtt_step ops NewRTTEstimator) \<le> MaxRTOMs"
  using RTO_bounds [OF rto_ok_run [OF rto_ok_New]] by (simp add: rto_consts)

text \<open>
  C37. The smoothed RTT is a true average despite float64 rounding: when all samples (in whole
  milliseconds, at least one) lie between \<open>lo\<close> and \<open>hi\<close>, so does the smoothed RTT, and the timeout
  is not below \<open>lo\<close> (or its cap of 4000 ms).
\<close>

theorem srtt_within_samples:
  assumes "0 \<le> lo" and "hi \<le> 2 ^ 49" and "xs \<noteq> []" and "\<forall>x \<in> set xs. lo \<le> x \<and> x \<le> hi"
  shows "of_int lo \<le> SRTT (fold (Update \<circ> of_int) xs NewRTTEstimator)
    \<and> SRTT (fold (Update \<circ> of_int) xs NewRTTEstimator) \<le> of_int hi
    \<and> min lo MaxRTOMs \<le> RTO (fold (Update \<circ> of_int) xs NewRTTEstimator)"
proof -
  let ?r = "fold (Update \<circ> of_int) xs NewRTTEstimator"
  have "hasRTT (Update y r)" for y r by (simp add: Update_def Let_def)
  with assms(3) have "hasRTT ?r"
    by (cases xs rule: rev_cases) simp_all
  moreover have "est_between lo hi ?r"
    using assms \<open>hasRTT ?r\<close> by (intro Updates_between) (simp_all add: NewRTTEstimator_def)
  ultimately show ?thesis
    using assms(1) by (auto simp: est_between_def SRTT_def RTO_def trunc_def le_floor_iff rto_consts)
qed

theorem srtt_within_samples_witness:
  "20 \<le> SRTT (fold (Update \<circ> of_int) [50, 20, 33] NewRTTEstimator)
   \<and> SRTT (fold (Update \<circ> of_int) [50, 20, 33] NewRTTEstimator) \<le> 50
   \<and> min 20 MaxRTOMs \<le> RTO (fold (Update \<circ> of_int) [50, 20, 33] NewRTTEstimator)"
  using srtt_within_samples [of 20 50 "[50, 20, 33]"] by simp

end
