(* ===== verification/RelStream.thy ===== *)
theory RelStream
  imports RelPacket SeqNum RTT
begin

text \<open>
  The reliable stream, pkg/tunnel/reliable.go lines 218 to 1087: the state of \<open>ReliableStream\<close> and
  every operation on it, as functions on the state. The theories RelSender and RelReceiver prove
  the lemmas on its two halves.

  Conventions. Every call of \<open>sendFunc\<close> appends its argument to \<open>sentLog\<close>, every call of
  \<open>deliverFunc\<close> to \<open>deliveredLog\<close>. What a call reads from outside (the clock, the iteration order
  of maps, the result of \<open>sendFunc\<close>) is its argument of type \<open>env\<close>. An operation is one atomic
  step on the state, except \<open>Send\<close>: it blocks in \<open>waitForWindow\<close>, where steps of other goroutines
  may come in between.
\<close>

section \<open>Time\<close>

text \<open>
  A \<open>time.Time\<close> is the number of nanoseconds since the zero time (January 1, year 1); \<open>Sub\<close>
  saturates at the range of \<open>time.Duration\<close>, \<open>UnixNano\<close> counts from 1970.
\<close>

type_synonym time = int

definition Millisecond :: int where "Millisecond = 1000000"

definition time_Sub :: "time \<Rightarrow> time \<Rightarrow> int" where
  "time_Sub t u = max (- (2 ^ 63)) (min (2 ^ 63 - 1) (t - u))"

definition UnixNano :: "time \<Rightarrow> int" where
  "UnixNano t = wrap64 (t - 62135596800 * 1000000000)"

definition Milliseconds :: "int \<Rightarrow> int" where
  "Milliseconds d = go_div d Millisecond"

text \<open>
  What one call reads from its surroundings: \<open>time.Now()\<close> at its start, the later readings by
  \<open>time.Since\<close> for a packet and in the loss handlers, the iteration order of map loops, the
  error that \<open>sendFunc\<close> returns for a buffer, and the case that \<open>retransmitLoop\<close> takes when both are ready.
\<close>

record env =
  t_now :: time
  t_since :: "u32 \<Rightarrow> time"
  t_loss :: time
  e_iter :: "u32 fset \<Rightarrow> u32 list"
  e_send :: "bytes \<Rightarrow> go_error option"
  e_tick :: bool

section \<open>State\<close>

definition InitialCwnd :: int where "InitialCwnd = 32"
definition MinCwnd :: int where "MinCwnd = 8"
definition MaxCwnd :: int where "MaxCwnd = 16384"
definition DefaultSsthresh :: int where "DefaultSsthresh = 1024"
definition MaxRetries :: int where "MaxRetries = 20"
definition AckDelayMs :: int where "AckDelayMs = 5"
definition AckEveryN :: u32 where "AckEveryN = 4"
definition MaxOutOfOrderBuffer :: nat where "MaxOutOfOrderBuffer = 16384"
definition FastRetransmitCount :: int where "FastRetransmitCount = 3"
definition PacingGain :: rat where "PacingGain = 1"
definition MinPacingIntervalNs :: int where "MinPacingIntervalNs = 2 ^ 62"

lemmas cwnd_consts = InitialCwnd_def MinCwnd_def MaxCwnd_def DefaultSsthresh_def

record unacked_packet =
  up_pkt :: rpacket
  up_data :: bytes
  up_sentTime :: time
  up_retries :: int
  up_sacked :: bool

record rstream =
  streamID :: u32
  sendSeq :: u32
  sendBase :: u32
  unacked :: "(u32, unacked_packet) fmap"
  dupAckCount :: int
  lastSackTime :: time
  cwnd :: int
  ssthresh :: int
  caAccum :: int
  lastLossReduceNs :: int
  windowAvail :: bool
  nextSendTimeNs :: int
  recvNext :: u32
  outOfOrder :: "(u32, bytes) fmap"
  rs_closed :: bool
  closeCh :: bool
  rttEstimator :: rtt_estimator
  pendingAck :: bool
  ackTimer :: "time option"
  recvCounter :: u32
  retransmits :: u64
  packetsIn :: u64
  packetsOut :: u64
  loopDone :: bool
  sentLog :: "bytes list"
  deliveredLog :: "bytes list"

definition sendWindow :: "rstream \<Rightarrow> int" where
  "sendWindow rs = cwnd rs"

definition NewReliableStream :: "u32 \<Rightarrow> rstream" where
  "NewReliableStream sid =
     \<lparr>streamID = sid, sendSeq = 0, sendBase = 0, unacked = fmempty, dupAckCount = 0,
      lastSackTime = 0, cwnd = InitialCwnd, ssthresh = DefaultSsthresh, caAccum = 0,
      lastLossReduceNs = 0, windowAvail = False, nextSendTimeNs = 0, recvNext = 0,
      outOfOrder = fmempty, rs_closed = False, closeCh = False, rttEstimator = NewRTTEstimator,
      pendingAck = False, ackTimer = None, recvCounter = 0, retransmits = 0, packetsIn = 0,
      packetsOut = 0, loopDone = False, sentLog = [], deliveredLog = []\<rparr>"

text \<open>\<open>sendFunc\<close> for a list of buffers.\<close>

definition sendAll :: "bytes list \<Rightarrow> rstream \<Rightarrow> rstream" where
  "sendAll bufs rs = rs\<lparr>sentLog := sentLog rs @ bufs\<rparr>"

definition deliver :: "bytes \<Rightarrow> rstream \<Rightarrow> rstream" where
  "deliver data rs = rs\<lparr>deliveredLog := deliveredLog rs @ [data]\<rparr>"

section \<open>Window, pacing, congestion control\<close>

text \<open>The channel \<open>windowAvail\<close> has capacity 1 and the send does not block.\<close>

definition signalWindowAvail :: "rstream \<Rightarrow> rstream" where
  "signalWindowAvail rs = rs\<lparr>windowAvail := True\<rparr>"

text \<open>
  \<open>waitForWindow\<close>. While the caller is blocked in the second \<open>select\<close>, other goroutines run: each
  list element is what they do to the stream until the next wake-up and which case of the
  \<open>select\<close> wakes the caller; a case that is not ready at the end of the element stands for the
  100 ms timeout. \<open>None\<close>: still blocked when the list ends. A stale signal is drained first; the
  check that the code repeats after draining meets an unchanged state and is not repeated here.
\<close>

datatype wake = WakeSignal | WakeClose | WakeTimeout

definition window_open :: "u32 \<Rightarrow> rstream \<Rightarrow> bool" where
  "window_open seq rs \<longleftrightarrow> sint (seq - sendBase rs) < cwnd rs"

fun waitForWindow :: "u32 \<Rightarrow> (wake \<times> (rstream \<Rightarrow> rstream)) list \<Rightarrow> rstream \<Rightarrow> (bool \<times> rstream) option"
where
  "waitForWindow seq [] rs =
     (if rs_closed rs then Some (False, rs)
      else if window_open seq rs then Some (True, rs) else None)"
| "waitForWindow seq ((w, others) # rest) rs =
     (if rs_closed rs then Some (False, rs)
      else if window_open seq rs then Some (True, rs)
      else
        let rs = others (rs\<lparr>windowAvail := False\<rparr>)
        in case w of
             WakeSignal \<Rightarrow>
               waitForWindow seq rest (if windowAvail rs then rs\<lparr>windowAvail := False\<rparr> else rs)
           | WakeClose \<Rightarrow> if closeCh rs then Some (False, rs) else waitForWindow seq rest rs
           | WakeTimeout \<Rightarrow> waitForWindow seq rest rs)"

text \<open>\<open>pace\<close>; the compare-and-swap succeeds at once, sleeping does not change the stream.\<close>

definition pace :: "env \<Rightarrow> rstream \<Rightarrow> rstream" where
  "pace e rs =
     (let srttMs = SRTT (rttEstimator rs)
      in if srttMs \<le> 0 then rs
      else if cwnd rs \<le> 0 then rs
      else
        let intervalNs = trunc (fl64 (fl64 (fl64 (srttMs * 1000000) / of_int (cwnd rs)) / PacingGain))
        in if intervalNs < MinPacingIntervalNs then rs
        else
          let now = UnixNano (t_now e); nxt = nextSendTimeNs rs
          in rs\<lparr>nextSendTimeNs := wrap64 (if nxt \<le> now then now + intervalNs
                                        else nxt + intervalNs)\<rparr>)"

definition onAckAdvance :: "int \<Rightarrow> rstream \<Rightarrow> rstream" where
  "onAckAdvance pktsAcked rs =
     (if pktsAcked \<le> 0 then rs
      else if cwnd rs < ssthresh rs then
        let c = wrap32 (cwnd rs + pktsAcked)
        in rs\<lparr>cwnd := if c > MaxCwnd then MaxCwnd else c\<rparr>
      else
        let accum = wrap32 (caAccum rs + pktsAcked); rs = rs\<lparr>caAccum := accum\<rparr>
        in if accum \<ge> cwnd rs then
             let inc = go_div accum (cwnd rs);
                 c = wrap32 (cwnd rs + inc)
             in rs\<lparr>caAccum := wrap32 (accum + wrap32 (- inc * cwnd rs)),
                   cwnd := if c > MaxCwnd then MaxCwnd else c\<rparr>
           else rs)"

definition onLossFast :: "env \<Rightarrow> rstream \<Rightarrow> rstream" where
  "onLossFast e rs =
     (let now = UnixNano (t_loss e); lastNs = lastLossReduceNs rs;
          srttMs = SRTT (rttEstimator rs);
          srttMs = (if srttMs \<le> 0 then of_int (RTO (rttEstimator rs)) else srttMs)
      in if wrap64 (now - lastNs) < trunc (fl64 (srttMs * 1000000)) then rs
      else
        let newCwnd = go_div (cwnd rs) 2;
            newCwnd = (if newCwnd < MinCwnd then MinCwnd else newCwnd)
        in rs\<lparr>lastLossReduceNs := now, ssthresh := newCwnd, cwnd := newCwnd, caAccum := 0\<rparr>)"

definition onLossRTO :: "env \<Rightarrow> rstream \<Rightarrow> rstream" where
  "onLossRTO e rs =
     (let now = UnixNano (t_loss e); lastNs = lastLossReduceNs rs;
          srttMs = SRTT (rttEstimator rs);
          srttMs = (if srttMs \<le> 0 then of_int (RTO (rttEstimator rs)) else srttMs)
      in if wrap64 (now - lastNs) < trunc (fl64 (srttMs * 1000000)) then rs
      else
        let newSsthresh = go_div (cwnd rs) 2;
            newSsthresh = (if newSsthresh < MinCwnd then MinCwnd else newSsthresh)
        in rs\<lparr>lastLossReduceNs := now, ssthresh := newSsthresh, cwnd := newSsthresh,
              caAccum := 0\<rparr>)"

section \<open>Acknowledgement generation\<close>

text \<open>The block-building loop of \<open>buildSackBlocks\<close> over the sorted sequence numbers.\<close>

fun build_blocks :: "sackblock list \<Rightarrow> sackblock \<Rightarrow> u32 list \<Rightarrow> sackblock list" where
  "build_blocks blocks block [] =
     (if length blocks < MaxSackBlocks then blocks @ [block] else blocks)"
| "build_blocks blocks block (s # ss) =
     (if s = sb_Right block + 1 then build_blocks blocks (block\<lparr>sb_Right := s\<rparr>) ss
      else
        let blocks = blocks @ [block]
        in if length blocks \<ge> MaxSackBlocks then blocks
           else build_blocks blocks \<lparr>sb_Left = s, sb_Right = s\<rparr> ss)"

definition buildSackBlocks :: "env \<Rightarrow> rstream \<Rightarrow> sackblock list" where
  "buildSackBlocks e rs =
     (if golen (outOfOrder rs) = 0 then []
      else case insertion_sort seqLess (e_iter e (fmdom (outOfOrder rs))) of
             [] \<Rightarrow> []
           | s # ss \<Rightarrow> build_blocks [] \<lparr>sb_Left = s, sb_Right = s\<rparr> ss)"

definition cancelAckTimer :: "rstream \<Rightarrow> rstream" where
  "cancelAckTimer rs = rs\<lparr>ackTimer := None\<rparr>"

definition sendAckNow :: "rstream \<Rightarrow> rstream" where
  "sendAckNow rs =
     (let rs = cancelAckTimer (rs\<lparr>pendingAck := False\<rparr>);
          pkt = \<lparr>rp_StreamID = streamID rs, rp_Flags = FlagAck, rp_Seq = 0,
                 rp_Ack = recvNext rs, rp_SackBlocks = [], rp_Data = []\<rparr>
      in sendAll [Marshal pkt] rs)"

definition sendAckWithSack :: "env \<Rightarrow> rstream \<Rightarrow> rstream" where
  "sendAckWithSack e rs =
     (let rs = cancelAckTimer (rs\<lparr>pendingAck := False\<rparr>);
          pkt = \<lparr>rp_StreamID = streamID rs, rp_Flags = FlagAck, rp_Seq = 0,
                 rp_Ack = recvNext rs, rp_SackBlocks = [], rp_Data = []\<rparr>;
          sackBlocks = buildSackBlocks e rs;
          pkt = (if length sackBlocks > 0
                 then pkt\<lparr>rp_Flags := rp_Flags pkt OR FlagSack, rp_SackBlocks := sackBlocks\<rparr>
                 else pkt)
      in sendAll [Marshal pkt] rs)"

definition scheduleAck :: "env \<Rightarrow> rstream \<Rightarrow> rstream" where
  "scheduleAck e rs =
     (let rs = rs\<lparr>recvCounter := recvCounter rs + 1\<rparr>
      in if recvCounter rs mod AckEveryN = 0 then sendAckNow rs
      else if pendingAck rs then rs
      else rs\<lparr>pendingAck := True, ackTimer := Some (t_now e + AckDelayMs * Millisecond)\<rparr>)"

text \<open>The function that the acknowledgement timer runs.\<close>

definition ackTimerFunc :: "rstream \<Rightarrow> rstream" where
  "ackTimerFunc rs = (if pendingAck rs then sendAckNow (rs\<lparr>pendingAck := False\<rparr>) else rs)"

section \<open>Sending\<close>

text \<open>\<open>Send\<close> before the wait: the sequence number, or the error on a closed stream.\<close>

definition Send_alloc :: "rstream \<Rightarrow> go_error + u32 \<times> rstream" where
  "Send_alloc rs =
     (if rs_closed rs then Inl ErrStreamClosed
      else Inr (sendSeq rs, rs\<lparr>sendSeq := sendSeq rs + 1\<rparr>))"

text \<open>\<open>Send\<close> after the wait: pacing, packet with a piggybacked acknowledgement, storage, transmission.\<close>

definition data_packet :: "env \<Rightarrow> u32 \<Rightarrow> bytes \<Rightarrow> rstream \<Rightarrow> rpacket" where
  "data_packet e seq data rs =
     (let pkt = \<lparr>rp_StreamID = streamID rs, rp_Flags = FlagData, rp_Seq = seq, rp_Ack = 0,
                 rp_SackBlocks = [], rp_Data = data\<rparr>
      in if pendingAck rs then
           let pkt = pkt\<lparr>rp_Flags := rp_Flags pkt OR FlagAck, rp_Ack := recvNext rs\<rparr>;
               sackBlocks = buildSackBlocks e rs
           in if length sackBlocks > 0
              then pkt\<lparr>rp_Flags := rp_Flags pkt OR FlagSack, rp_SackBlocks := sackBlocks\<rparr>
              else pkt
         else pkt)"

definition store_unacked :: "env \<Rightarrow> rpacket \<Rightarrow> rstream \<Rightarrow> rstream" where
  "store_unacked e pkt rs =
     rs\<lparr>unacked := fmupd (rp_Seq pkt)
          \<lparr>up_pkt = pkt, up_data = Marshal pkt, up_sentTime = t_now e, up_retries = 0,
           up_sacked = False\<rparr> (unacked rs),
        packetsOut := packetsOut rs + 1\<rparr>"

definition Send_commit :: "env \<Rightarrow> u32 \<Rightarrow> bytes \<Rightarrow> rstream \<Rightarrow> go_error option \<times> rstream" where
  "Send_commit e seq data rs =
     (let rs = pace e rs;
          pkt = data_packet e seq data rs;
          rs = (if pendingAck rs then cancelAckTimer (rs\<lparr>pendingAck := False\<rparr>) else rs);
          rs = store_unacked e pkt rs;
          buf = Marshal pkt
      in (e_send e buf, sendAll [buf] rs))"

definition Send ::
  "env \<Rightarrow> (wake \<times> (rstream \<Rightarrow> rstream)) list \<Rightarrow> bytes \<Rightarrow> rstream
   \<Rightarrow> (go_error option \<times> rstream) option" where
  "Send e others data rs =
     (case Send_alloc rs of
        Inl err \<Rightarrow> Some (Some err, rs)
      | Inr (seq, rs) \<Rightarrow>
          (case waitForWindow seq others rs of
             None \<Rightarrow> None
           | Some (False, rs) \<Rightarrow> Some (Some ErrStreamClosed, rs)
           | Some (True, rs) \<Rightarrow> Some (Send_commit e seq data rs)))"

definition SendClose :: "env \<Rightarrow> rstream \<Rightarrow> go_error option \<times> rstream" where
  "SendClose e rs =
     (if rs_closed rs then (None, rs)
      else
        let seq = sendSeq rs;
            rs = rs\<lparr>sendSeq := sendSeq rs + 1\<rparr>;
            pkt = \<lparr>rp_StreamID = streamID rs, rp_Flags = FlagClose OR FlagAck, rp_Seq = seq,
                   rp_Ack = recvNext rs, rp_SackBlocks = [], rp_Data = []\<rparr>;
            rs = store_unacked e pkt rs;
            pktData = Marshal pkt
        in (e_send e pktData, sendAll [pktData] rs))"

section \<open>Processing acknowledgements\<close>

definition max_right :: "sackblock list \<Rightarrow> u32" where
  "max_right sackBlocks =
     (case sackBlocks of
        [] \<Rightarrow> 0
      | b # bs \<Rightarrow>
          fold (\<lambda>b maxRight. if seqGreater (sb_Right b) maxRight then sb_Right b else maxRight) bs
            (sb_Right b))"

definition in_sack :: "u32 \<Rightarrow> sackblock list \<Rightarrow> bool" where
  "in_sack seq sackBlocks \<longleftrightarrow>
     list_ex (\<lambda>b. \<not> seqLess seq (sb_Left b) \<and> seqLessOrEqual seq (sb_Right b)) sackBlocks"

text \<open>
  One iteration of the scan in \<open>markSackedAndCollectGaps\<close>; the list of lost packets holds their
  sequence numbers, the keys of the packets the code points to.
\<close>

definition gap_step ::
  "sackblock list \<Rightarrow> u32 \<Rightarrow> (u32, unacked_packet) fmap \<times> u32 list
   \<Rightarrow> (u32, unacked_packet) fmap \<times> u32 list" where
  "gap_step sackBlocks seq st =
     (case st of (un, lost) \<Rightarrow>
        case fmlookup un seq of
          None \<Rightarrow> (un, lost)
        | Some up \<Rightarrow>
            if up_sacked up then (un, lost)
            else if in_sack seq sackBlocks then (fmupd seq (up\<lparr>up_sacked := True\<rparr>) un, lost)
            else if seqLess seq (max_right sackBlocks) then (un, lost @ [seq])
            else (un, lost))"

definition scan_span :: "u32 \<Rightarrow> sackblock list \<Rightarrow> int" where
  "scan_span ack sackBlocks =
     (let span = sint (max_right sackBlocks - ack + 1)
      in if span \<le> 0 \<or> span > MaxCwnd * 2 then MaxCwnd * 2 else span)"

definition seq_range :: "u32 \<Rightarrow> int \<Rightarrow> u32 list" where
  "seq_range base n = map (\<lambda>i. base + of_nat i) [0..<nat n]"

definition markSackedAndCollectGaps ::
  "u32 \<Rightarrow> sackblock list \<Rightarrow> (u32, unacked_packet) fmap
   \<Rightarrow> (u32, unacked_packet) fmap \<times> u32 list" where
  "markSackedAndCollectGaps ack sackBlocks un =
     (if sackBlocks = [] then (un, [])
      else fold (gap_step sackBlocks) (seq_range ack (scan_span ack sackBlocks)) (un, []))"

text \<open>Retransmission of one stored packet: count it, restart its timer, queue its bytes.\<close>

definition retransmit_one :: "time \<Rightarrow> u32 \<Rightarrow> rstream \<times> bytes list \<Rightarrow> rstream \<times> bytes list" where
  "retransmit_one now seq st =
     (case st of (rs, out) \<Rightarrow>
        case fmlookup (unacked rs) seq of
          None \<Rightarrow> (rs, out)
        | Some up \<Rightarrow>
            (rs\<lparr>retransmits := retransmits rs + 1,
                unacked := fmupd seq (up\<lparr>up_retries := up_retries up + 1, up_sentTime := now\<rparr>)
                             (unacked rs)\<rparr>,
             out @ [up_data up]))"

definition sack_interval :: "rstream \<Rightarrow> int" where
  "sack_interval rs =
     (let minInterval = go_div (RTO (rttEstimator rs)) 2 * Millisecond
      in if minInterval < 10 * Millisecond then 10 * Millisecond else minInterval)"

text \<open>The duplicate path of \<open>processAck\<close>: \<open>ack == oldBase\<close>.\<close>

definition ack_duplicate :: "env \<Rightarrow> u32 \<Rightarrow> sackblock list \<Rightarrow> rstream \<Rightarrow> rstream" where
  "ack_duplicate e ack sackBlocks rs =
     (let oldBase = sendBase rs; now = t_now e;
          rs = rs\<lparr>dupAckCount := dupAckCount rs + 1\<rparr>;
          (un, lost) = markSackedAndCollectGaps ack sackBlocks (unacked rs);
          rs = rs\<lparr>unacked := un\<rparr>
      in if length sackBlocks > 0 then
           if time_Sub now (lastSackTime rs) \<ge> sack_interval rs then
             let rs = onLossFast e (rs\<lparr>lastSackTime := now\<rparr>);
                 (rs, out) = fold (retransmit_one now) lost (rs, [])
             in sendAll out rs
           else rs
         else if dupAckCount rs \<ge> FastRetransmitCount then
           let rs = rs\<lparr>dupAckCount := 0\<rparr>
           in case fmlookup (unacked rs) oldBase of
                None \<Rightarrow> rs
              | Some up \<Rightarrow>
                  if up_sacked up then rs
                  else
                    let (rs, out) = retransmit_one now oldBase (onLossFast e rs, [])
                    in sendAll out rs
         else rs)"

text \<open>One iteration of the loop that removes the packets a cumulative acknowledgement covers.\<close>

definition ack_one :: "env \<Rightarrow> u32 \<Rightarrow> rstream \<times> int \<Rightarrow> rstream \<times> int" where
  "ack_one e seq st =
     (case st of (rs, pktsAcked) \<Rightarrow>
        case fmlookup (unacked rs) seq of
          None \<Rightarrow> (rs, pktsAcked)
        | Some up \<Rightarrow>
            let rs = (if up_retries up = 0
                      then rs\<lparr>rttEstimator :=
                             Update (fl64 (of_int (Milliseconds
                               (time_Sub (t_since e seq) (up_sentTime up))))) (rttEstimator rs)\<rparr>
                      else rs)
            in (rs\<lparr>unacked := fmdrop seq (unacked rs)\<rparr>, wrap32 (pktsAcked + 1)))"

definition ack_span :: "u32 \<Rightarrow> u32 \<Rightarrow> int" where
  "ack_span ack oldBase =
     (let span = sint (ack - oldBase)
      in if span < 0 \<or> span > MaxCwnd * 2 then MaxCwnd * 2 else span)"

text \<open>The path of \<open>processAck\<close> for every other acknowledgement number.\<close>

definition ack_new :: "env \<Rightarrow> u32 \<Rightarrow> sackblock list \<Rightarrow> rstream \<Rightarrow> rstream" where
  "ack_new e ack sackBlocks rs =
     (let oldBase = sendBase rs; now = t_now e;
          rs = rs\<lparr>dupAckCount := 0\<rparr>;
          (rs, pktsAcked) = fold (ack_one e) (seq_range oldBase (ack_span ack oldBase)) (rs, 0);
          (rs, toRetransmit) =
            (if length sackBlocks > 0 then
               let (un, lost) = markSackedAndCollectGaps ack sackBlocks (unacked rs);
                   rs = rs\<lparr>unacked := un\<rparr>
               in if time_Sub now (lastSackTime rs) \<ge> sack_interval rs \<and> length lost > 0
                  then fold (retransmit_one now) lost (onLossFast e (rs\<lparr>lastSackTime := now\<rparr>), [])
                  else (rs, [])
             else (rs, []));
          rs = (if seqGreater ack (sendBase rs) then rs\<lparr>sendBase := ack\<rparr> else rs);
          rs = (if pktsAcked > 0 then signalWindowAvail (onAckAdvance pktsAcked rs) else rs)
      in sendAll toRetransmit rs)"

definition processAck :: "env \<Rightarrow> u32 \<Rightarrow> sackblock list \<Rightarrow> rstream \<Rightarrow> rstream" where
  "processAck e ack sackBlocks rs =
     (if ack = sendBase rs then ack_duplicate e ack sackBlocks rs
      else ack_new e ack sackBlocks rs)"

section \<open>Receiving\<close>

text \<open>The delivery loop; it stops because every round takes a packet out of the buffer.\<close>

function deliverOutOfOrder :: "rstream \<Rightarrow> rstream" where
  "deliverOutOfOrder rs =
     (case fmlookup (outOfOrder rs) (recvNext rs) of
        None \<Rightarrow> rs
      | Some data \<Rightarrow>
          deliverOutOfOrder
            ((deliver data (rs\<lparr>outOfOrder := fmdrop (recvNext rs) (outOfOrder rs)\<rparr>))
               \<lparr>recvNext := recvNext rs + 1\<rparr>))"
  by pat_completeness auto
termination
  by (relation "measure (\<lambda>rs. golen (outOfOrder rs))")
    (auto simp: deliver_def intro!: golen_fmdrop_less fmdomI)

declare deliverOutOfOrder.simps [simp del]

definition processData :: "env \<Rightarrow> u32 \<Rightarrow> bytes \<Rightarrow> rstream \<Rightarrow> rstream" where
  "processData e seq data rs =
     (let expected = recvNext rs
      in if seq = expected then
           let rs = (deliver data rs)\<lparr>recvNext := recvNext rs + 1\<rparr>
           in scheduleAck e (deliverOutOfOrder rs)
         else if seqGreater seq expected then
           let rs = (if golen (outOfOrder rs) < MaxOutOfOrderBuffer
                        \<and> fmlookup (outOfOrder rs) seq = None
                     then rs\<lparr>outOfOrder := fmupd seq data (outOfOrder rs)\<rparr> else rs)
           in sendAckWithSack e rs
         else sendAckNow rs)"

text \<open>\<open>Receive\<close>: the result says whether the packet closes the stream.\<close>

definition Receive :: "env \<Rightarrow> rpacket \<Rightarrow> rstream \<Rightarrow> bool \<times> rstream" where
  "Receive e pkt rs =
     (let rs = rs\<lparr>packetsIn := packetsIn rs + 1\<rparr>;
          rs = (if rp_Flags pkt AND FlagAck \<noteq> 0
                then processAck e (rp_Ack pkt) (rp_SackBlocks pkt) rs else rs);
          rs = (if rp_Flags pkt AND FlagData \<noteq> 0 \<and> length (rp_Data pkt) > 0
                then processData e (rp_Seq pkt) (rp_Data pkt) rs else rs)
      in if rp_Flags pkt AND FlagClose \<noteq> 0 then (True, deliverOutOfOrder rs) else (False, rs))"

section \<open>Retransmission timer and closing\<close>

definition check_one :: "time \<Rightarrow> int \<Rightarrow> u32 \<Rightarrow> rstream \<times> bytes list \<Rightarrow> rstream \<times> bytes list" where
  "check_one now rtoNs seq st =
     (case st of (rs, out) \<Rightarrow>
        case fmlookup (unacked rs) seq of
          None \<Rightarrow> (rs, out)
        | Some up \<Rightarrow>
            if up_sacked up then (rs, out)
            else if time_Sub now (up_sentTime up) > rtoNs then
              if up_retries up \<ge> MaxRetries then (rs\<lparr>unacked := fmdrop seq (unacked rs)\<rparr>, out)
              else retransmit_one now seq (rs, out)
            else (rs, out))"

definition checkRetransmit :: "env \<Rightarrow> rstream \<Rightarrow> rstream" where
  "checkRetransmit e rs =
     (let now = t_now e; rtoNs = RTO (rttEstimator rs) * Millisecond;
          (rs, toRetransmit) =
            fold (check_one now rtoNs) (e_iter e (fmdom (unacked rs))) (rs, []);
          rs = (if length toRetransmit > 0
                then let rs = onLossRTO e rs
                     in rs\<lparr>rttEstimator := Backoff (rttEstimator rs)\<rparr>
                else rs)
      in sendAll toRetransmit rs)"

text \<open>
  One iteration of \<open>retransmitLoop\<close>: \<open>checkRetransmit\<close> at a tick, or the return (\<open>loopDone\<close>) when \<open>closeCh\<close> is
  closed. When both cases of the \<open>select\<close> are ready either may be taken, as \<open>e_tick\<close> says.
\<close>

definition retransmitLoop_tick :: "env \<Rightarrow> rstream \<Rightarrow> rstream" where
  "retransmitLoop_tick e rs =
     (if loopDone rs then rs
      else if closeCh rs \<and> \<not> e_tick e then rs\<lparr>loopDone := True\<rparr>
      else checkRetransmit e rs)"

definition Close :: "rstream \<Rightarrow> rstream" where
  "Close rs =
     (if rs_closed rs then rs
      else signalWindowAvail (cancelAckTimer (rs\<lparr>rs_closed := True, closeCh := True\<rparr>)))"

definition GetStats :: "rstream \<Rightarrow> nat \<times> nat \<times> u64" where
  "GetStats rs = (golen (unacked rs), golen (outOfOrder rs), retransmits rs)"

section \<open>Interleaving\<close>

text \<open>
  The atomic steps of the goroutines that share a stream: the two halves of \<open>Send\<close> and the wake-up
  in between, the other calls of the API, the acknowledgement timer and the tick of
  \<open>retransmitLoop\<close>.
\<close>

datatype stream_op =
    OpSendAlloc
  | OpSendWake
  | OpSendCommit env u32 bytes
  | OpSendClose env
  | OpReceive env rpacket
  | OpAckTimer
  | OpTick env
  | OpClose

primrec stream_step :: "stream_op \<Rightarrow> rstream \<Rightarrow> rstream" where
  "stream_step OpSendAlloc rs = (case Send_alloc rs of Inl _ \<Rightarrow> rs | Inr (_, rs') \<Rightarrow> rs')"
| "stream_step OpSendWake rs = rs\<lparr>windowAvail := False\<rparr>"
| "stream_step (OpSendCommit e seq data) rs = snd (Send_commit e seq data rs)"
| "stream_step (OpSendClose e) rs = snd (SendClose e rs)"
| "stream_step (OpReceive e pkt) rs = snd (Receive e pkt rs)"
| "stream_step OpAckTimer rs = ackTimerFunc rs"
| "stream_step (OpTick e) rs = retransmitLoop_tick e rs"
| "stream_step OpClose rs = Close rs"

definition stream_run :: "u32 \<Rightarrow> stream_op list \<Rightarrow> rstream" where
  "stream_run sid ops = fold stream_step ops (NewReliableStream sid)"

lemma stream_run_invariant:
  assumes "\<And>sid. P (NewReliableStream sid)" and "\<And>op rs. P rs \<Longrightarrow> P (stream_step op rs)"
  shows "P (stream_run sid ops)"
  unfolding stream_run_def by (rule fold_invariant, rule assms(2), assumption, rule assms(1))

text \<open>Surroundings at a fixed time, with maps ranged over in ascending order and no send errors.\<close>

definition env_at :: "time \<Rightarrow> env" where
  "env_at t = \<lparr>t_now = t, t_since = (\<lambda>_. t), t_loss = t, e_iter = sorted_list_of_fset,
               e_send = (\<lambda>_. None), e_tick = False\<rparr>"

lemma env_at_iter: "iter_ok (e_iter (env_at t))"
  by (simp add: env_at_def iter_ok_sorted)

end
