(* ===== verification/RelReceiver.thy ===== *)
theory RelReceiver
  imports RelStream "HOL-Library.Sublist"
begin

text \<open>
  The receiving half of a reliable stream. The sequence number of stream position \<open>n\<close> is \<open>of_nat n\<close>;
  \<open>items\<close> is the sequence of data blocks that the peer has sent. The invariant \<open>recv_inv\<close> ties
  \<open>recvNext\<close>, the out-of-order buffer and the delivered data to \<open>items\<close>.
\<close>

section \<open>What the other operations leave alone\<close>

definition recv_view :: "rstream \<Rightarrow> u32 \<times> (u32, bytes) fmap \<times> bytes list" where
  "recv_view rs = (recvNext rs, outOfOrder rs, deliveredLog rs)"

lemma recv_view_upd [simp]:
  "recv_view (rs\<lparr>sendSeq := a\<rparr>) = recv_view rs"
  "recv_view (rs\<lparr>sendBase := a\<rparr>) = recv_view rs"
  "recv_view (rs\<lparr>unacked := un\<rparr>) = recv_view rs"
  "recv_view (rs\<lparr>dupAckCount := c\<rparr>) = recv_view rs"
  "recv_view (rs\<lparr>lastSackTime := t\<rparr>) = recv_view rs"
  "recv_view (rs\<lparr>cwnd := c\<rparr>) = recv_view rs"
  "recv_view (rs\<lparr>ssthresh := c\<rparr>) = recv_view rs"
  "recv_view (rs\<lparr>caAccum := c\<rparr>) = recv_view rs"
  "recv_view (rs\<lparr>lastLossReduceNs := t\<rparr>) = recv_view rs"
  "recv_view (rs\<lparr>windowAvail := b\<rparr>) = recv_view rs"
  "recv_view (rs\<lparr>nextSendTimeNs := t\<rparr>) = recv_view rs"
  "recv_view (rs\<lparr>rs_closed := b\<rparr>) = recv_view rs"
  "recv_view (rs\<lparr>closeCh := b\<rparr>) = recv_view rs"
  "recv_view (rs\<lparr>rttEstimator := r\<rparr>) = recv_view rs"
  "recv_view (rs\<lparr>pendingAck := b\<rparr>) = recv_view rs"
  "recv_view (rs\<lparr>ackTimer := tm\<rparr>) = recv_view rs"
  "recv_view (rs\<lparr>recvCounter := a\<rparr>) = recv_view rs"
  "recv_view (rs\<lparr>retransmits := x\<rparr>) = recv_view rs"
  "recv_view (rs\<lparr>packetsIn := x\<rparr>) = recv_view rs"
  "recv_view (rs\<lparr>packetsOut := x\<rparr>) = recv_view rs"
  "recv_view (rs\<lparr>loopDone := b\<rparr>) = recv_view rs"
  "recv_view (rs\<lparr>sentLog := l\<rparr>) = recv_view rs"
  by (simp_all add: recv_view_def)

lemma recv_view_ops [simp]:
  "recv_view (sendAll bufs rs) = recv_view rs"
  "recv_view (signalWindowAvail rs) = recv_view rs"
  "recv_view (cancelAckTimer rs) = recv_view rs"
  "recv_view (pace e rs) = recv_view rs"
  "recv_view (onAckAdvance k rs) = recv_view rs"
  "recv_view (onLossFast e rs) = recv_view rs"
  "recv_view (onLossRTO e rs) = recv_view rs"
  "recv_view (sendAckNow rs) = recv_view rs"
  "recv_view (sendAckWithSack e rs) = recv_view rs"
  "recv_view (store_unacked e pkt rs) = recv_view rs"
  "recv_view (Close rs) = recv_view rs"
  by (simp_all add: sendAll_def signalWindowAvail_def cancelAckTimer_def pace_def onAckAdvance_def
      onLossFast_def onLossRTO_def sendAckNow_def sendAckWithSack_def store_unacked_def Close_def
      Let_def)

lemma recv_view_acks [simp]:
  "recv_view (scheduleAck e rs) = recv_view rs"
  "recv_view (ackTimerFunc rs) = recv_view rs"
  by (simp_all add: scheduleAck_def ackTimerFunc_def Let_def)

lemma recv_view_send [simp]:
  "recv_view (snd (Send_commit e seq data rs)) = recv_view rs"
  "recv_view (snd (SendClose e rs)) = recv_view rs"
  by (simp_all add: Send_commit_def SendClose_def Let_def)

lemma recv_view_loops [simp]:
  "recv_view (fst (retransmit_one now seq st)) = recv_view (fst st)"
  "recv_view (fst (check_one now rtoNs seq st)) = recv_view (fst st)"
  "recv_view (fst (ack_one e seq st2)) = recv_view (fst st2)"
  by (simp_all add: retransmit_one_def check_one_def ack_one_def Let_def
      split: prod.split option.split)

lemma recv_view_folds [simp]:
  "recv_view (fst (fold (retransmit_one now) seqs st)) = recv_view (fst st)"
  "recv_view (fst (fold (check_one now rtoNs) seqs st)) = recv_view (fst st)"
  "recv_view (fst (fold (ack_one e) seqs st2)) = recv_view (fst st2)"
  by (rule fold_keeps_pair, simp)+

lemma recv_view_ack_duplicate: "recv_view (ack_duplicate e ack blocks rs) = recv_view rs"
  by (simp add: ack_duplicate_def Let_def split_beta split: option.split)

lemma recv_view_ack_new: "recv_view (ack_new e ack blocks rs) = recv_view rs"
  by (simp add: ack_new_def Let_def split_beta)

lemma recv_view_processAck [simp]: "recv_view (processAck e ack blocks rs) = recv_view rs"
  by (simp add: processAck_def recv_view_ack_duplicate recv_view_ack_new)

lemma recv_view_checkRetransmit [simp]: "recv_view (checkRetransmit e rs) = recv_view rs"
  by (simp add: checkRetransmit_def Let_def split_beta)

lemma recv_view_tick [simp]: "recv_view (retransmitLoop_tick e rs) = recv_view rs"
  by (simp add: retransmitLoop_tick_def)

section \<open>The receiver invariant\<close>

text \<open>
  Position \<open>n\<close> is the next to deliver; the buffer holds only blocks of later positions (of \<open>n\<close>
  itself or later, while the delivery loop runs) in the half window above \<open>n\<close>.
\<close>

definition buffer_ok :: "bytes list \<Rightarrow> nat \<Rightarrow> nat \<Rightarrow> (u32, bytes) fmap \<Rightarrow> bool" where
  "buffer_ok items lo n buf \<longleftrightarrow>
     (\<forall>k d. fmlookup buf k = Some d \<longrightarrow>
        (\<exists>j. lo \<le> j \<and> j < n + 2 ^ 31 \<and> j < length items \<and> k = of_nat j \<and> d = items ! j))"

definition recv_inv :: "bytes list \<Rightarrow> rstream \<Rightarrow> bool" where
  "recv_inv items rs \<longleftrightarrow>
     (let n = length (deliveredLog rs)
      in n \<le> length items \<and> deliveredLog rs = take n items \<and> recvNext rs = of_nat n
         \<and> buffer_ok items (Suc n) n (outOfOrder rs))"

definition recv_weak :: "bytes list \<Rightarrow> rstream \<Rightarrow> bool" where
  "recv_weak items rs \<longleftrightarrow>
     (let n = length (deliveredLog rs)
      in n \<le> length items \<and> deliveredLog rs = take n items \<and> recvNext rs = of_nat n
         \<and> buffer_ok items n n (outOfOrder rs))"

lemma recv_inv_view: "recv_view rs = recv_view rs' \<Longrightarrow> recv_inv items rs = recv_inv items rs'"
  by (simp add: recv_inv_def recv_view_def)

lemma recv_inv_New [simp]: "recv_inv items (NewReliableStream sid)"
  by (simp add: recv_inv_def NewReliableStream_def buffer_ok_def)

lemma buffer_ok_append: "buffer_ok items lo n buf \<Longrightarrow> buffer_ok (items @ xs) lo n buf"
  unfolding buffer_ok_def by (metis length_append nth_append trans_less_add1)

lemma recv_inv_append: "recv_inv items rs \<Longrightarrow> recv_inv (items @ xs) rs"
  by (auto simp: recv_inv_def Let_def buffer_ok_append)

lemma recv_inv_weak: "recv_inv items rs \<Longrightarrow> recv_weak items rs"
  by (simp add: recv_inv_def recv_weak_def buffer_ok_def Let_def) (meson Suc_leD)

lemma buffer_okD:
  assumes "buffer_ok items lo n buf" and "fmlookup buf k = Some d"
  obtains j where "lo \<le> j" "j < n + 2 ^ 31" "j < length items" "k = of_nat j" "d = items ! j"
  using assms unfolding buffer_ok_def by blast

lemma buffer_ok_next:
  assumes "buffer_ok items n n buf"
  shows "buffer_ok items (Suc n) (Suc n) (fmdrop (of_nat n) buf)"
  unfolding buffer_ok_def
proof (intro allI impI)
  fix k d assume l: "fmlookup (fmdrop (of_nat n) buf) k = Some d"
  then have "k \<noteq> of_nat n" and "fmlookup buf k = Some d" by (auto split: if_splits)
  then obtain j where j: "n \<le> j" "j < n + 2 ^ 31" "j < length items" "k = of_nat j" "d = items ! j"
    and "j \<noteq> n" using buffer_okD [OF assms] by metis
  then show "\<exists>j. Suc n \<le> j \<and> j < Suc n + 2 ^ 31 \<and> j < length items \<and> k = of_nat j \<and> d = items ! j"
    by (intro exI [of _ j]) auto
qed

lemma buffer_ok_head:
  assumes "buffer_ok items n n buf" and "fmlookup buf (of_nat n) = Some d"
  shows "n < length items" and "d = items ! n"
proof -
  obtain j where j: "n \<le> j" "j < n + 2 ^ 31" "j < length items" "(of_nat n :: u32) = of_nat j"
    "d = items ! j" using buffer_okD [OF assms] by metis
  then have "n = j" by (intro of_nat_seq_inj) auto
  with j show "n < length items" "d = items ! n" by auto
qed

lemma buffer_ok_strict:
  assumes "buffer_ok items n n buf" and "fmlookup buf (of_nat n) = None"
  shows "buffer_ok items (Suc n) n buf"
  unfolding buffer_ok_def
proof (intro allI impI)
  fix k d assume "fmlookup buf k = Some d"
  then obtain j where j: "n \<le> j" "j < n + 2 ^ 31" "j < length items" "k = of_nat j" "d = items ! j"
    and "k \<noteq> of_nat n" using buffer_okD [OF assms(1)] assms(2) by (metis option.distinct(1))
  then show "\<exists>j. Suc n \<le> j \<and> j < n + 2 ^ 31 \<and> j < length items \<and> k = of_nat j \<and> d = items ! j"
    by (intro exI [of _ j]) (auto simp: Suc_le_eq order_le_less)
qed

text \<open>The delivery loop takes the weak invariant to the strong one.\<close>

lemma deliver_next_weak:
  assumes "recv_weak items rs" and "fmlookup (outOfOrder rs) (recvNext rs) = Some data"
  shows "recv_weak items ((deliver data (rs\<lparr>outOfOrder := fmdrop (recvNext rs) (outOfOrder rs)\<rparr>))
               \<lparr>recvNext := recvNext rs + 1\<rparr>)"
proof -
  let ?n = "length (deliveredLog rs)"
  have inv: "deliveredLog rs = take ?n items" "recvNext rs = of_nat ?n"
    "buffer_ok items ?n ?n (outOfOrder rs)"
    using assms(1) by (auto simp: recv_weak_def Let_def)
  then have d: "?n < length items" "data = items ! ?n"
    using buffer_ok_head assms(2) by metis+
  have "buffer_ok items (Suc ?n) (Suc ?n) (fmdrop (recvNext rs) (outOfOrder rs))"
    using buffer_ok_next [OF inv(3)] inv(2) by simp
  with d inv show ?thesis
    by (simp add: recv_weak_def deliver_def take_Suc_conv_app_nth add.commute)
qed

lemma deliverOutOfOrder_inv: "recv_weak items rs \<Longrightarrow> recv_inv items (deliverOutOfOrder rs)"
proof (induction rs rule: deliverOutOfOrder.induct)
  case (1 rs)
  show ?case
  proof (cases "fmlookup (outOfOrder rs) (recvNext rs)")
    case None
    with 1(2) show ?thesis
      by (simp add: deliverOutOfOrder.simps [of rs] recv_inv_def recv_weak_def Let_def
          buffer_ok_strict)
  next
    case (Some data)
    with 1 deliver_next_weak show ?thesis by (simp add: deliverOutOfOrder.simps [of rs])
  qed
qed


text \<open>On the strong invariant the delivery loop has nothing to do.\<close>

lemma recv_inv_head: "recv_inv items rs \<Longrightarrow> fmlookup (outOfOrder rs) (recvNext rs) = None"
proof (rule ccontr)
  let ?n = "length (deliveredLog rs)"
  assume inv: "recv_inv items rs" and "fmlookup (outOfOrder rs) (recvNext rs) \<noteq> None"
  then obtain d where "fmlookup (outOfOrder rs) (recvNext rs) = Some d" by auto
  moreover have "buffer_ok items (Suc ?n) ?n (outOfOrder rs)" and n: "recvNext rs = of_nat ?n"
    using inv by (auto simp: recv_inv_def Let_def)
  ultimately obtain j where "Suc ?n \<le> j" "j < ?n + 2 ^ 31" "recvNext rs = of_nat j"
    by (elim buffer_okD)
  with n have "?n = j" by (intro of_nat_seq_inj) auto
  with \<open>Suc ?n \<le> j\<close> show False by simp
qed

lemma deliverOutOfOrder_idle: "recv_inv items rs \<Longrightarrow> deliverOutOfOrder rs = rs"
  using recv_inv_head by (simp add: deliverOutOfOrder.simps [of rs])

text \<open>A data packet is genuine at position \<open>i\<close> when it carries the block of that position.\<close>

definition fresh :: "nat \<Rightarrow> rstream \<Rightarrow> bool" where
  "fresh i rs \<longleftrightarrow> \<bar>int i - int (length (deliveredLog rs))\<bar> < 2 ^ 31"

lemma fresh_compare:
  assumes "recv_inv items rs" and "fresh i rs"
  shows "of_nat i = recvNext rs \<longleftrightarrow> i = length (deliveredLog rs)"
    and "seqGreater (of_nat i) (recvNext rs) \<longleftrightarrow> length (deliveredLog rs) < i"
proof -
  have n: "recvNext rs = of_nat (length (deliveredLog rs))"
    using assms(1) by (simp add: recv_inv_def Let_def)
  show "of_nat i = recvNext rs \<longleftrightarrow> i = length (deliveredLog rs)"
    using assms(2) of_nat_seq_inj unfolding n fresh_def by blast
  show "seqGreater (of_nat i) (recvNext rs) \<longleftrightarrow> length (deliveredLog rs) < i"
    using sint_of_nat_diff [of i "length (deliveredLog rs)"] assms(2)
    unfolding n fresh_def seqGreater_def by simp
qed

lemma recv_inv_buffer:
  assumes "recv_inv items rs" and "fresh i rs" and "i < length items"
    and "length (deliveredLog rs) < i"
  shows "recv_inv items (rs\<lparr>outOfOrder := fmupd (of_nat i) (items ! i) (outOfOrder rs)\<rparr>)"
proof -
  let ?n = "length (deliveredLog rs)"
  have "buffer_ok items (Suc ?n) ?n (outOfOrder rs)"
    using assms(1) by (simp add: recv_inv_def Let_def)
  moreover have "Suc ?n \<le> i" "i < ?n + 2 ^ 31"
    using assms(2,4) by (auto simp: fresh_def)
  ultimately have "buffer_ok items (Suc ?n) ?n (fmupd (of_nat i) (items ! i) (outOfOrder rs))"
    using assms(3) unfolding buffer_ok_def by (metis fmupd_lookup option.inject)
  with assms(1) show ?thesis by (simp add: recv_inv_def Let_def)
qed

lemma recv_weak_deliver:
  assumes "recv_inv items rs" and "length (deliveredLog rs) < length items"
  shows "recv_weak items ((deliver (items ! length (deliveredLog rs)) rs)
           \<lparr>recvNext := recvNext rs + 1\<rparr>)"
proof -
  let ?n = "length (deliveredLog rs)"
  have inv: "deliveredLog rs = take ?n items" "recvNext rs = of_nat ?n"
    "buffer_ok items (Suc ?n) ?n (outOfOrder rs)"
    using assms(1) by (auto simp: recv_inv_def Let_def)
  then have "buffer_ok items (Suc ?n) (Suc ?n) (outOfOrder rs)"
    unfolding buffer_ok_def by (metis add_Suc less_SucI)
  with inv assms(2) show ?thesis
    by (simp add: recv_weak_def deliver_def take_Suc_conv_app_nth add.commute)
qed

lemma recv_inv_processData:
  assumes inv: "recv_inv items rs" and i: "i < length items" "fresh i rs"
  shows "recv_inv items (processData e (of_nat i) (items ! i) rs)"
proof -
  note cmp = fresh_compare [OF inv i(2)]
  consider "i = length (deliveredLog rs)" | "i < length (deliveredLog rs)"
    | "length (deliveredLog rs) < i" by linarith
  then show ?thesis
  proof cases
    case 1
    with cmp inv i(1) recv_weak_deliver [OF inv]
    have "recv_inv items (deliverOutOfOrder
        ((deliver (items ! i) rs)\<lparr>recvNext := recvNext rs + 1\<rparr>))"
      by (intro deliverOutOfOrder_inv) simp
    with 1 cmp show ?thesis
      by (simp add: processData_def Let_def recv_inv_view [OF recv_view_acks(1)])
  next
    case 2
    with cmp inv show ?thesis
      by (simp add: processData_def Let_def recv_inv_view [OF recv_view_ops(8)])
  next
    case 3
    with cmp inv i recv_inv_buffer [OF inv] show ?thesis
      by (simp add: processData_def Let_def recv_inv_view [OF recv_view_ops(9)])
  qed
qed

section \<open>Steps and runs\<close>

definition carries_data :: "rpacket \<Rightarrow> bool" where
  "carries_data pkt \<longleftrightarrow> rp_Flags pkt AND FlagData \<noteq> 0 \<and> rp_Data pkt \<noteq> []"

text \<open>
  The packets that may arrive: those with data hold the block of a position of \<open>items\<close>, at less
  than 2^31 from the next expected one. Packets without data are arbitrary.
\<close>

definition genuine_at :: "bytes list \<Rightarrow> nat \<Rightarrow> rpacket \<Rightarrow> bool" where
  "genuine_at items i pkt \<longleftrightarrow> i < length items \<and> rp_Seq pkt = of_nat i \<and> rp_Data pkt = items ! i"

fun op_genuine :: "bytes list \<Rightarrow> rstream \<Rightarrow> stream_op \<Rightarrow> bool" where
  "op_genuine items rs (OpReceive e pkt) \<longleftrightarrow>
     (carries_data pkt \<longrightarrow> (\<exists>i \<in> set [0..<length items]. genuine_at items i pkt \<and> fresh i rs))"
| "op_genuine items rs _ \<longleftrightarrow> True"

text \<open>The state in \<open>Receive\<close> between the acknowledgement part and the data part.\<close>

definition after_ack :: "env \<Rightarrow> rpacket \<Rightarrow> rstream \<Rightarrow> rstream" where
  "after_ack e pkt rs =
     (if rp_Flags pkt AND FlagAck \<noteq> 0
      then processAck e (rp_Ack pkt) (rp_SackBlocks pkt) (rs\<lparr>packetsIn := packetsIn rs + 1\<rparr>)
      else rs\<lparr>packetsIn := packetsIn rs + 1\<rparr>)"

definition after_data :: "env \<Rightarrow> rpacket \<Rightarrow> rstream \<Rightarrow> rstream" where
  "after_data e pkt rs =
     (if carries_data pkt then processData e (rp_Seq pkt) (rp_Data pkt) (after_ack e pkt rs)
      else after_ack e pkt rs)"

lemma Receive_stages:
  "Receive e pkt rs =
     (if rp_Flags pkt AND FlagClose \<noteq> 0 then (True, deliverOutOfOrder (after_data e pkt rs))
      else (False, after_data e pkt rs))"
  by (simp only: Receive_def after_data_def after_ack_def carries_data_def Let_def length_greater_0_conv)

lemma recv_view_after_ack [simp]: "recv_view (after_ack e pkt rs) = recv_view rs"
  by (simp add: after_ack_def)

lemma Receive_idle:
  "recv_inv items (after_data e pkt rs) \<Longrightarrow> snd (Receive e pkt rs) = after_data e pkt rs"
  by (simp add: Receive_stages deliverOutOfOrder_idle)

lemma recv_view_step:
  "(\<And>e pkt. op \<noteq> OpReceive e pkt) \<Longrightarrow> recv_view (stream_step op rs) = recv_view rs"
  by (cases op) (auto simp: Send_alloc_def)

lemma recv_inv_after_data:
  assumes "recv_inv items rs"
    and "carries_data pkt \<Longrightarrow> \<exists>i. genuine_at items i pkt \<and> fresh i rs"
  shows "recv_inv items (after_data e pkt rs)"
proof (cases "carries_data pkt")
  case True
  then obtain i where i: "genuine_at items i pkt" "fresh i rs" using assms(2) by blast
  have "fresh i (after_ack e pkt rs)"
    using i(2) recv_view_after_ack [of e pkt rs] by (simp add: fresh_def recv_view_def)
  moreover have "recv_inv items (after_ack e pkt rs)"
    using assms(1) recv_inv_view recv_view_after_ack by metis
  ultimately show ?thesis
    using True i(1) recv_inv_processData by (simp add: after_data_def genuine_at_def)
next
  case False
  then show ?thesis
    using assms(1) recv_inv_view [OF recv_view_after_ack] by (simp add: after_data_def)
qed

lemma recv_inv_step:
  assumes "recv_inv items rs" and "op_genuine items rs op"
  shows "recv_inv items (stream_step op rs)"
proof (cases "\<exists>e pkt. op = OpReceive e pkt")
  case False
  then show ?thesis using assms(1) recv_inv_view recv_view_step by metis
next
  case True
  then obtain e pkt where op: "op = OpReceive e pkt" by blast
  with assms(2) have "carries_data pkt \<Longrightarrow> \<exists>i. genuine_at items i pkt \<and> fresh i rs" by auto
  with assms(1) have "recv_inv items (after_data e pkt rs)" by (rule recv_inv_after_data)
  with op show ?thesis by (simp add: Receive_idle)
qed

text \<open>The states that a stream reaches while the peer's blocks are \<open>items\<close>.\<close>

inductive receiving :: "bytes list \<Rightarrow> rstream \<Rightarrow> bool" for items where
  new: "receiving items (NewReliableStream sid)"
| step: "receiving items rs \<Longrightarrow> op_genuine items rs op \<Longrightarrow> receiving items (stream_step op rs)"

lemma receiving_inv: "receiving items rs \<Longrightarrow> recv_inv items rs"
  by (induction rule: receiving.induct) (simp_all add: recv_inv_step)

section \<open>Completeness\<close>

text \<open>
  When packets arrive from the \<open>MaxOutOfOrderBuffer\<close> positions from the next expected one on, the
  buffer never refuses one, and the stream implements the abstract receiver whose state is the set
  \<open>R\<close> of positions received so far: position \<open>m\<close> is the first one missing, the blocks before it
  are delivered, the later ones buffered.
\<close>

definition tracks :: "bytes list \<Rightarrow> nat set \<Rightarrow> nat \<Rightarrow> rstream \<Rightarrow> bool" where
  "tracks items R m rs \<longleftrightarrow>
     {..<m} \<subseteq> R \<and> R \<subseteq> {..<m + MaxOutOfOrderBuffer} \<inter> {..<length items}
     \<and> deliveredLog rs = take m items \<and> recvNext rs = of_nat m
     \<and> (\<forall>k d. fmlookup (outOfOrder rs) k = Some d \<longleftrightarrow>
              (\<exists>j \<in> R. m \<le> j \<and> k = of_nat j \<and> d = items ! j))"

lemma tracks_view: "recv_view rs = recv_view rs' \<Longrightarrow> tracks items R m rs = tracks items R m rs'"
  by (simp add: tracks_def recv_view_def)

lemma tracks_New: "tracks items {} 0 (NewReliableStream sid)"
  by (simp add: tracks_def NewReliableStream_def)

lemma tracks_inj:
  assumes "tracks items R m rs" and "i \<in> R" "m \<le> i" "j < m + 2 ^ 31" "m \<le> j"
    and "(of_nat i :: u32) = of_nat j"
  shows "i = j"
proof (rule of_nat_seq_inj [OF _ assms(6)])
  have "i < m + 16384" using assms(1,2) by (auto simp: tracks_def MaxOutOfOrderBuffer_def)
  then show "\<bar>int i - int j\<bar> < 2 ^ 31" using assms by auto
qed

lemma tracks_lookup:
  assumes "tracks items R m rs" and "m \<le> j" and "j < m + 2 ^ 31"
  shows "fmlookup (outOfOrder rs) (of_nat j) = (if j \<in> R then Some (items ! j) else None)"
proof -
  have iff: "fmlookup (outOfOrder rs) (of_nat j) = Some d \<longleftrightarrow> j \<in> R \<and> d = items ! j" for d
    using assms(1) tracks_inj [OF assms(1) _ _ assms(3,2)] assms(2) unfolding tracks_def by metis
  show ?thesis
  proof (cases "fmlookup (outOfOrder rs) (of_nat j)")
    case None
    with iff show ?thesis by auto
  next
    case (Some d)
    with iff show ?thesis by auto
  qed
qed

lemma tracks_deliver_next:
  assumes t: "tracks items R m rs" and m: "m \<in> R"
  shows "tracks items R (Suc m) ((deliver (items ! m) (rs\<lparr>outOfOrder := fmdrop (recvNext rs)
           (outOfOrder rs)\<rparr>))\<lparr>recvNext := recvNext rs + 1\<rparr>)"
proof -
  have n: "recvNext rs = of_nat m" and len: "m < length items"
    using t m by (auto simp: tracks_def)
  have "fmlookup (fmdrop (of_nat m) (outOfOrder rs)) k = Some d \<longleftrightarrow>
      (\<exists>j \<in> R. Suc m \<le> j \<and> k = of_nat j \<and> d = items ! j)" for k d
  proof -
    have "fmlookup (fmdrop (of_nat m) (outOfOrder rs)) k = Some d \<longleftrightarrow>
        k \<noteq> of_nat m \<and> (\<exists>j \<in> R. m \<le> j \<and> k = of_nat j \<and> d = items ! j)"
      using t unfolding tracks_def by (metis fmlookup_drop option.distinct(1))
    also have "\<dots> \<longleftrightarrow> (\<exists>j \<in> R. Suc m \<le> j \<and> k = of_nat j \<and> d = items ! j)"
    proof -
      have "m \<le> i \<and> (of_nat i :: u32) \<noteq> of_nat m \<longleftrightarrow> Suc m \<le> i" if "i \<in> R" for i
        using tracks_inj [OF t that, of m] by (auto simp: Suc_le_eq order_le_less)
      then show ?thesis by metis
    qed
    finally show ?thesis .
  qed
  moreover have "{..<Suc m} \<subseteq> R" "R \<subseteq> {..<Suc m + MaxOutOfOrderBuffer} \<inter> {..<length items}"
    using t m by (auto simp: tracks_def less_Suc_eq)
  ultimately show ?thesis
    using t len n by (simp add: tracks_def deliver_def take_Suc_conv_app_nth add.commute)
qed

lemma tracks_deliverOutOfOrder:
  "tracks items R m rs \<Longrightarrow> \<exists>m'. m' \<notin> R \<and> tracks items R m' (deliverOutOfOrder rs)"
proof (induction rs arbitrary: m rule: deliverOutOfOrder.induct)
  case (1 rs)
  have n: "recvNext rs = of_nat m" using 1(2) by (simp add: tracks_def)
  have look: "fmlookup (outOfOrder rs) (recvNext rs) = (if m \<in> R then Some (items ! m) else None)"
    using tracks_lookup [OF 1(2), of m] n by simp
  show ?case
  proof (cases "m \<in> R")
    case True
    with look 1(1) [OF _ tracks_deliver_next [OF 1(2)]] show ?thesis
      by (simp add: deliverOutOfOrder.simps [of rs])
  next
    case False
    with 1(2) look show ?thesis by (auto simp: deliverOutOfOrder.simps [of rs])
  qed
qed


lemma tracks_buffer_room:
  assumes "tracks items R m rs" and "m \<notin> R"
  shows "golen (outOfOrder rs) < MaxOutOfOrderBuffer"
proof -
  have "fset (fmdom (outOfOrder rs)) \<subseteq> (of_nat :: nat \<Rightarrow> u32) ` {Suc m..<m + MaxOutOfOrderBuffer}"
  proof
    fix k assume "k \<in> fset (fmdom (outOfOrder rs))"
    then obtain d where "fmlookup (outOfOrder rs) k = Some d" by (auto simp: fmlookup_dom_iff)
    then obtain j where j: "j \<in> R" "m \<le> j" "k = of_nat j" using assms(1) by (auto simp: tracks_def)
    moreover from j assms(2) have "j \<noteq> m" by auto
    moreover have "j < m + MaxOutOfOrderBuffer" using j(1) assms(1) by (auto simp: tracks_def)
    ultimately show "k \<in> of_nat ` {Suc m..<m + MaxOutOfOrderBuffer}" by auto
  qed
  then have "fcard (fmdom (outOfOrder rs)) \<le> card ((of_nat :: nat \<Rightarrow> u32) ` {Suc m..<m + MaxOutOfOrderBuffer})"
    unfolding fcard.rep_eq by (intro card_mono) auto
  also have "\<dots> \<le> card {Suc m..<m + MaxOutOfOrderBuffer}" by (rule card_image_le) simp
  finally show ?thesis by (simp add: golen_def MaxOutOfOrderBuffer_def)
qed

lemma tracks_insert:
  assumes t: "tracks items R m rs" and i: "m < i" "i < m + MaxOutOfOrderBuffer" "i < length items"
  shows "tracks items (insert i R) m (rs\<lparr>outOfOrder := fmupd (of_nat i) (items ! i) (outOfOrder rs)\<rparr>)"
proof -
  have inj: "(of_nat j :: u32) = of_nat i \<longleftrightarrow> j = i" if "j \<in> R" "m \<le> j" for j
    using tracks_inj [OF t that, of i] i by (auto simp: MaxOutOfOrderBuffer_def)
  have "fmlookup (fmupd (of_nat i) (items ! i) (outOfOrder rs)) k = Some d \<longleftrightarrow>
      (\<exists>j \<in> insert i R. m \<le> j \<and> k = of_nat j \<and> d = items ! j)" for k d
  proof (cases "k = of_nat i")
    case True
    with inj i(1) show ?thesis by (metis fmupd_lookup insert_iff less_imp_le option.inject)
  next
    case False
    then have "fmlookup (fmupd (of_nat i) (items ! i) (outOfOrder rs)) k = Some d \<longleftrightarrow>
      (\<exists>j \<in> R. m \<le> j \<and> k = of_nat j \<and> d = items ! j)" using t by (simp add: tracks_def)
    with False show ?thesis by blast
  qed
  with t i show ?thesis by (auto simp: tracks_def)
qed

lemma tracks_deliver:
  assumes t: "tracks items R m rs" and m: "m \<notin> R" "m < length items"
  shows "tracks items (insert m R) (Suc m)
           ((deliver (items ! m) rs)\<lparr>recvNext := recvNext rs + 1\<rparr>)"
proof -
  have "(\<exists>j \<in> R. m \<le> j \<and> k = of_nat j \<and> d = items ! j) \<longleftrightarrow>
      (\<exists>j \<in> insert m R. Suc m \<le> j \<and> k = of_nat j \<and> d = items ! j)" for k :: u32 and d
  proof -
    have "j \<in> R \<and> m \<le> j \<longleftrightarrow> j \<in> insert m R \<and> Suc m \<le> j" for j
      using m(1) by (cases "j = m") auto
    then show ?thesis by (metis (no_types, lifting))
  qed
  moreover have "{..<Suc m} \<subseteq> insert m R"
    "insert m R \<subseteq> {..<Suc m + MaxOutOfOrderBuffer} \<inter> {..<length items}"
    using t m by (auto simp: tracks_def less_Suc_eq)
  ultimately show ?thesis
    using t m(2) by (simp add: tracks_def deliver_def take_Suc_conv_app_nth add.commute)
qed

lemma tracks_processData:
  assumes t: "tracks items R m rs" "m \<notin> R" and i: "i < length items"
    "i < m + MaxOutOfOrderBuffer" "m < i + 2 ^ 31"
  shows "\<exists>m'. m' \<notin> insert i R \<and> tracks items (insert i R) m' (processData e (of_nat i) (items ! i) rs)"
proof -
  have n: "recvNext rs = of_nat m" using t(1) by (simp add: tracks_def)
  have d: "\<bar>int i - int m\<bar> < 2 ^ 31" using i(2,3) by (auto simp: MaxOutOfOrderBuffer_def)
  then have eq: "(of_nat i :: u32) = recvNext rs \<longleftrightarrow> i = m" using of_nat_seq_inj n by metis
  have gt: "seqGreater (of_nat i) (recvNext rs) \<longleftrightarrow> m < i"
    using sint_of_nat_diff [OF d] n by (simp add: seqGreater_def)
  consider "i = m" | "i < m" | "m < i" by linarith
  then show ?thesis
  proof cases
    case 1
    with t i eq show ?thesis
      using tracks_deliverOutOfOrder [OF tracks_deliver [OF t]]
      by (simp add: processData_def Let_def tracks_view [OF recv_view_acks(1)])
  next
    case 2
    then have "insert i R = R" using t(1) by (auto simp: tracks_def)
    with 2 eq gt t show ?thesis
      by (auto simp: processData_def Let_def tracks_view [OF recv_view_ops(8)])
  next
    case 3
    let ?rs = "rs\<lparr>outOfOrder := fmupd (of_nat i) (items ! i) (outOfOrder rs)\<rparr>"
    have look: "fmlookup (outOfOrder rs) (of_nat i) = (if i \<in> R then Some (items ! i) else None)"
      using 3 i(2) by (intro tracks_lookup [OF t(1)]) (auto simp: MaxOutOfOrderBuffer_def)
    have "tracks items (insert i R) m ?rs" using tracks_insert [OF t(1)] 3 i by simp
    with 3 eq gt t tracks_buffer_room [OF t] look show ?thesis
      by (intro exI [of _ m])
        (auto simp: processData_def Let_def tracks_view [OF recv_view_ops(9)] insert_absorb)
  qed
qed


definition op_data :: "stream_op \<Rightarrow> bool" where
  "op_data op = (case op of OpReceive e pkt \<Rightarrow> carries_data pkt | _ \<Rightarrow> False)"

inductive collecting :: "bytes list \<Rightarrow> nat set \<Rightarrow> rstream \<Rightarrow> bool" for items where
  new: "collecting items {} (NewReliableStream sid)"
| other: "collecting items R rs \<Longrightarrow> \<not> op_data op \<Longrightarrow> collecting items R (stream_step op rs)"
| data: "collecting items R rs \<Longrightarrow> carries_data pkt \<Longrightarrow> genuine_at items i pkt
    \<Longrightarrow> i < length (deliveredLog rs) + MaxOutOfOrderBuffer \<Longrightarrow> length (deliveredLog rs) < i + 2 ^ 31
    \<Longrightarrow> collecting items (insert i R) (stream_step (OpReceive e pkt) rs)"

lemma tracks_idle:
  "tracks items R m rs \<Longrightarrow> m \<notin> R \<Longrightarrow> deliverOutOfOrder rs = rs"
  using tracks_lookup [of items R m rs m]
  by (simp add: deliverOutOfOrder.simps [of rs] tracks_def)

lemma tracks_length:
  assumes "tracks items R m rs"
  shows "length (deliveredLog rs) = m"
proof -
  have "{..<m} \<subseteq> R" "R \<subseteq> {..<length items}" using assms by (simp_all add: tracks_def)
  then have "{..<m} \<subseteq> {..<length items}" by (rule subset_trans)
  then have "m \<le> length items" by simp
  with assms show ?thesis by (simp add: tracks_def)
qed


lemma tracks_after_data:
  assumes t: "tracks items R m rs" "m \<notin> R" and pkt: "carries_data pkt" "genuine_at items i pkt"
    and i: "i < m + MaxOutOfOrderBuffer" "m < i + 2 ^ 31"
  shows "\<exists>m'. m' \<notin> insert i R \<and> tracks items (insert i R) m' (after_data e pkt rs)"
proof -
  have "tracks items R m (after_ack e pkt rs)"
    using t(1) tracks_view [OF recv_view_after_ack] by simp
  then show ?thesis
    using tracks_processData [OF _ t(2) _ i] pkt by (simp add: after_data_def genuine_at_def)
qed

lemma tracks_Receive:
  "tracks items R m (after_data e pkt rs) \<Longrightarrow> m \<notin> R \<Longrightarrow> tracks items R m (snd (Receive e pkt rs))"
  by (simp add: Receive_stages tracks_idle)

lemma tracks_other:
  assumes t: "tracks items R m rs" "m \<notin> R" and op: "\<not> op_data op"
  shows "tracks items R m (stream_step op rs)"
proof (cases "\<exists>e pkt. op = OpReceive e pkt")
  case False
  then show ?thesis using t(1) tracks_view recv_view_step by metis
next
  case True
  then obtain e pkt where e: "op = OpReceive e pkt" by blast
  with op have "tracks items R m (after_data e pkt rs)"
    using t(1) tracks_view [OF recv_view_after_ack] by (simp add: after_data_def op_data_def)
  with e t(2) show ?thesis by (simp add: tracks_Receive)
qed

lemma collecting_tracks: "collecting items R rs \<Longrightarrow> \<exists>m. m \<notin> R \<and> tracks items R m rs"
proof (induction rule: collecting.induct)
  case (new sid)
  then show ?case using tracks_New by auto
next
  case (other R rs op)
  then show ?case using tracks_other by blast
next
  case (data R rs pkt i e)
  then obtain m where m: "m \<notin> R" "tracks items R m rs" by blast
  have "\<exists>m'. m' \<notin> insert i R \<and> tracks items (insert i R) m' (after_data e pkt rs)"
    by (rule tracks_after_data [OF m(2,1) data(2,3)])
      (use data(4,5) tracks_length [OF m(2)] in simp_all)
  then show ?case by (metis stream_step.simps(5) tracks_Receive)
qed

definition first_missing :: "nat set \<Rightarrow> nat" where
  "first_missing R = (LEAST i. i \<notin> R)"

lemma first_missing_eq: "{..<m} \<subseteq> R \<Longrightarrow> m \<notin> R \<Longrightarrow> first_missing R = m"
  unfolding first_missing_def by (rule Least_equality) (auto simp: subset_iff not_less [symmetric])

definition block_packet :: "nat \<Rightarrow> bytes \<Rightarrow> rpacket" where
  "block_packet i data = \<lparr>rp_StreamID = 5, rp_Flags = FlagData, rp_Seq = of_nat i, rp_Ack = 0,
                          rp_SackBlocks = [], rp_Data = data\<rparr>"

lemma block_packet_genuine:
  "i < length items \<Longrightarrow> genuine_at items i (block_packet i (items ! i))"
  "data \<noteq> [] \<Longrightarrow> carries_data (block_packet i data)"
  by (simp_all add: genuine_at_def carries_data_def block_packet_def FlagData_def)

section \<open>Properties\<close>

text \<open>
  C5. In-order delivery. Whatever packets arrive, in whatever order, repeated or not, and whatever
  else the stream does in between: as long as every packet with data carries the block of some
  position of \<open>items\<close> at less than 2^31 from the next expected position, the blocks handed to
  \<open>deliverFunc\<close> are a prefix of \<open>items\<close> and \<open>recvNext\<close> is the sequence number of the first block
  not delivered.
\<close>

theorem delivers_prefix:
  assumes "receiving items rs"
  shows "prefix (deliveredLog rs) items \<and> recvNext rs = of_nat (length (deliveredLog rs))"
  using receiving_inv [OF assms] take_is_prefix unfolding recv_inv_def Let_def by metis

theorem delivers_prefix_witness:
  "prefix (deliveredLog (stream_step (OpReceive (env_at 0) (block_packet 0 [10]))
            (NewReliableStream 5))) [[10], [20]]"
proof -
  have "op_genuine [[10], [20]] (NewReliableStream 5)
      (OpReceive (env_at 0) (block_packet 0 [10]))"
    using block_packet_genuine(1) [of 0 "[[10], [20]]"]
    by (auto simp: fresh_def NewReliableStream_def intro!: bexI [of _ 0])
  then show ?thesis using delivers_prefix [OF receiving.step [OF receiving.new]] by blast
qed

text \<open>
  C6. No loss and no duplication at the receiver (refinement). When data packets come from the
  16384 positions from the next expected one on, or are late copies, the stream implements the
  receiver that only remembers the set \<open>R\<close> of positions received: delivered are exactly the blocks
  before the first missing position, each once and in order, that position is the next
  acknowledgement number, and the buffer holds exactly the later received blocks.
\<close>

theorem receiver_refines:
  assumes "collecting items R rs"
  shows "deliveredLog rs = take (first_missing R) items
    \<and> recvNext rs = of_nat (first_missing R)
    \<and> (\<forall>k d. fmlookup (outOfOrder rs) k = Some d \<longleftrightarrow>
              (\<exists>j \<in> R. first_missing R < j \<and> k = of_nat j \<and> d = items ! j))"
proof -
  obtain m where m: "m \<notin> R" "tracks items R m rs" using collecting_tracks [OF assms] by blast
  then have "first_missing R = m" by (intro first_missing_eq) (auto simp: tracks_def)
  moreover have "m \<le> j \<longleftrightarrow> m < j" if "j \<in> R" for j
    using m(1) that by (cases "j = m") auto
  ultimately show ?thesis using m(2) unfolding tracks_def by auto
qed


theorem receiver_refines_witness:
  "deliveredLog (stream_step (OpReceive (env_at 0) (block_packet 0 [10]))
     (stream_step (OpReceive (env_at 0) (block_packet 1 [20])) (NewReliableStream 5)))
   = [[10], [20]]"
proof -
  let ?items = "[[10], [20]] :: bytes list"
  let ?s = "stream_step (OpReceive (env_at 0) (block_packet 1 [20])) (NewReliableStream 5)"
  have g: "genuine_at ?items 0 (block_packet 0 [10])" "genuine_at ?items 1 (block_packet 1 [20])"
    using block_packet_genuine(1) [of _ ?items] by force+
  have 1: "collecting ?items {1} ?s"
    by (rule collecting.data [OF collecting.new])
      (simp_all add: block_packet_genuine(2) g [simplified] NewReliableStream_def MaxOutOfOrderBuffer_def)
  have "length (deliveredLog ?s) = 0"
    using receiver_refines [OF 1] first_missing_eq [of 0 "{1}"] by simp
  then have "collecting ?items {0, 1} (stream_step (OpReceive (env_at 0) (block_packet 0 [10])) ?s)"
    by (intro collecting.data [OF 1]) (simp_all add: block_packet_genuine(2) g [simplified] MaxOutOfOrderBuffer_def)
  from receiver_refines [OF this] show ?thesis
    using first_missing_eq [of 2 "{0, 1}"] by (simp add: lessThan_Suc numeral_2_eq_2)
qed

end
