(* ===== verification/RelSender.thy ===== *)
theory RelSender
  imports RelStream
begin

text \<open>
  The sending half of a reliable stream: congestion window, send window, acknowledgement
  processing and retransmission.
\<close>

section \<open>Congestion control\<close>

definition cc_view :: "rstream \<Rightarrow> int \<times> int \<times> int" where
  "cc_view rs = (cwnd rs, ssthresh rs, caAccum rs)"

lemma cc_view_upd [simp]:
  "cc_view (rs\<lparr>sendSeq := a\<rparr>) = cc_view rs"
  "cc_view (rs\<lparr>sendBase := a\<rparr>) = cc_view rs"
  "cc_view (rs\<lparr>unacked := un\<rparr>) = cc_view rs"
  "cc_view (rs\<lparr>dupAckCount := c\<rparr>) = cc_view rs"
  "cc_view (rs\<lparr>lastSackTime := t\<rparr>) = cc_view rs"
  "cc_view (rs\<lparr>windowAvail := b\<rparr>) = cc_view rs"
  "cc_view (rs\<lparr>nextSendTimeNs := t\<rparr>) = cc_view rs"
  "cc_view (rs\<lparr>recvNext := a\<rparr>) = cc_view rs"
  "cc_view (rs\<lparr>outOfOrder := buf\<rparr>) = cc_view rs"
  "cc_view (rs\<lparr>rs_closed := b\<rparr>) = cc_view rs"
  "cc_view (rs\<lparr>closeCh := b\<rparr>) = cc_view rs"
  "cc_view (rs\<lparr>rttEstimator := r\<rparr>) = cc_view rs"
  "cc_view (rs\<lparr>pendingAck := b\<rparr>) = cc_view rs"
  "cc_view (rs\<lparr>ackTimer := tm\<rparr>) = cc_view rs"
  "cc_view (rs\<lparr>recvCounter := a\<rparr>) = cc_view rs"
  "cc_view (rs\<lparr>retransmits := x\<rparr>) = cc_view rs"
  "cc_view (rs\<lparr>packetsIn := x\<rparr>) = cc_view rs"
  "cc_view (rs\<lparr>packetsOut := x\<rparr>) = cc_view rs"
  "cc_view (rs\<lparr>loopDone := b\<rparr>) = cc_view rs"
  "cc_view (rs\<lparr>sentLog := l\<rparr>) = cc_view rs"
  "cc_view (rs\<lparr>deliveredLog := l\<rparr>) = cc_view rs"
  by (simp_all add: cc_view_def)

lemma cc_view_ops [simp]:
  "cc_view (sendAll bufs rs) = cc_view rs"
  "cc_view (deliver data rs) = cc_view rs"
  "cc_view (signalWindowAvail rs) = cc_view rs"
  "cc_view (cancelAckTimer rs) = cc_view rs"
  "cc_view (pace e rs) = cc_view rs"
  "cc_view (sendAckNow rs) = cc_view rs"
  "cc_view (sendAckWithSack e rs) = cc_view rs"
  "cc_view (store_unacked e pkt rs) = cc_view rs"
  "cc_view (Close rs) = cc_view rs"
  by (simp_all add: sendAll_def deliver_def signalWindowAvail_def cancelAckTimer_def pace_def
      sendAckNow_def sendAckWithSack_def store_unacked_def Close_def Let_def)

lemma cc_view_acks [simp]:
  "cc_view (scheduleAck e rs) = cc_view rs"
  "cc_view (ackTimerFunc rs) = cc_view rs"
  by (simp_all add: scheduleAck_def ackTimerFunc_def Let_def)

lemma cc_view_send [simp]:
  "cc_view (snd (Send_commit e seq data rs)) = cc_view rs"
  "cc_view (snd (SendClose e rs)) = cc_view rs"
  by (simp_all add: Send_commit_def SendClose_def Let_def)

lemma cc_view_deliverOutOfOrder [simp]: "cc_view (deliverOutOfOrder rs) = cc_view rs"
proof (induction rs rule: deliverOutOfOrder.induct)
  case (1 rs)
  then show ?case
    by (cases "fmlookup (outOfOrder rs) (recvNext rs)") (simp_all add: deliverOutOfOrder.simps [of rs])
qed

lemma cc_view_processData [simp]: "cc_view (processData e seq data rs) = cc_view rs"
  by (simp add: processData_def Let_def)

lemma cc_view_loops [simp]:
  "cc_view (fst (retransmit_one now seq st)) = cc_view (fst st)"
  "cc_view (fst (check_one now rtoNs seq st)) = cc_view (fst st)"
  "cc_view (fst (ack_one e seq st2)) = cc_view (fst st2)"
  by (simp_all add: retransmit_one_def check_one_def ack_one_def Let_def
      split: prod.split option.split)

lemma cc_view_folds [simp]:
  "cc_view (fst (fold (retransmit_one now) seqs st)) = cc_view (fst st)"
  "cc_view (fst (fold (check_one now rtoNs) seqs st)) = cc_view (fst st)"
  "cc_view (fst (fold (ack_one e) seqs st2)) = cc_view (fst st2)"
  by (rule fold_keeps_pair, simp)+

text \<open>The invariant of the congestion controller.\<close>

definition cc_inv :: "rstream \<Rightarrow> bool" where
  "cc_inv rs \<longleftrightarrow> MinCwnd \<le> cwnd rs \<and> cwnd rs \<le> MaxCwnd \<and> MinCwnd \<le> ssthresh rs
     \<and> ssthresh rs \<le> MaxCwnd \<and> 0 \<le> caAccum rs \<and> caAccum rs < cwnd rs"

lemma cc_inv_view: "cc_view rs = cc_view rs' \<Longrightarrow> cc_inv rs = cc_inv rs'"
  by (simp add: cc_inv_def cc_view_def)

lemmas cc_inv_keeps [simp] =
  cc_view_upd [THEN cc_inv_view] cc_view_ops [THEN cc_inv_view] cc_view_acks [THEN cc_inv_view]
  cc_view_send [THEN cc_inv_view] cc_view_deliverOutOfOrder [THEN cc_inv_view]
  cc_view_processData [THEN cc_inv_view] cc_view_loops [THEN cc_inv_view]
  cc_view_folds [THEN cc_inv_view]

lemma cc_inv_New: "cc_inv (NewReliableStream sid)"
  by (simp add: cc_inv_def NewReliableStream_def cwnd_consts)

text \<open>Growth, without the wrap-arounds, which do not occur.\<close>

lemma aimd_arith:
  fixes c a :: int
  assumes c: "8 \<le> c" "c \<le> 16384" and a: "0 < a" "a \<le> 49152"
  shows "go_div a c = a div c" and "wrap32 a = a" and "wrap32 (c + a div c) = c + a div c"
    and "wrap32 (a + wrap32 (- (a div c) * c)) = a mod c" and "a < c \<Longrightarrow> a mod c = a \<and> a div c = 0"
    and "0 \<le> a div c" and "0 \<le> a mod c" and "a mod c < c"
proof -
  have m: "a div c * c + a mod c = a" by simp
  show r: "0 \<le> a mod c" "a mod c < c" using c by simp_all
  show q: "0 \<le> a div c" using c a by (simp add: pos_imp_zdiv_nonneg_iff)
  have "a div c * 1 \<le> a div c * c" using q c by (intro mult_left_mono) auto
  with m r a have qa: "a div c \<le> 49152" "a div c * c \<le> 49152" "0 \<le> a div c * c"
    using q by linarith+
  show "go_div a c = a div c" using c a by (simp add: go_div_nonneg)
  show "wrap32 a = a" using a by (simp add: wrap32_id)
  show "wrap32 (c + a div c) = c + a div c" using c q qa by (intro wrap32_id) simp_all
  have "wrap32 (- (a div c) * c) = - (a div c) * c"
    by (rule wrap32_id) (use qa in simp_all)
  moreover have "wrap32 (a mod c) = a mod c" 
    using order_trans [OF _ r(1), of "- (2 ^ 31)"] order_less_le_trans [OF r(2), of "2 ^ 31"] c
    by (intro wrap32_id) simp_all
  ultimately show "wrap32 (a + wrap32 (- (a div c) * c)) = a mod c"
    by (simp add: minus_div_mult_eq_mod)
  show "a < c \<Longrightarrow> a mod c = a \<and> a div c = 0" using a by simp
qed

lemma onAckAdvance_exact:
  assumes inv: "cc_inv rs" and k: "0 < k" "k \<le> MaxCwnd * 2"
  shows "onAckAdvance k rs =
     (if cwnd rs < ssthresh rs then rs\<lparr>cwnd := min MaxCwnd (cwnd rs + k)\<rparr>
      else rs\<lparr>cwnd := min MaxCwnd (cwnd rs + (caAccum rs + k) div cwnd rs),
              caAccum := (caAccum rs + k) mod cwnd rs\<rparr>)"
proof -
  have c: "8 \<le> cwnd rs" "cwnd rs \<le> 16384" and a: "0 < caAccum rs + k" "caAccum rs + k \<le> 49152"
    using inv k by (auto simp: cc_inv_def cwnd_consts)
  have ck: "wrap32 (cwnd rs + k) = cwnd rs + k"
    using c k by (intro wrap32_id) (simp_all add: cwnd_consts)
  note arith = aimd_arith [OF c a]
  show ?thesis
  proof (cases "cwnd rs < ssthresh rs")
    case True
    with k ck show ?thesis by (auto simp: onAckAdvance_def Let_def min_def)
  next
    case False
    show ?thesis
    proof (cases "caAccum rs + k < cwnd rs")
      case True
      with False k(1) arith(2,5) c show ?thesis
        by (simp add: onAckAdvance_def cwnd_consts min_def)
    next
      case False2: False
      with False k(1) show ?thesis
        using arith(1-4) by (auto simp: onAckAdvance_def min_def Let_def)
    qed
  qed
qed

lemma cc_inv_onAckAdvance:
  assumes inv: "cc_inv rs" and k: "k \<le> MaxCwnd * 2"
  shows "cc_inv (onAckAdvance k rs)"
proof (cases "0 < k")
  case True
  have c: "8 \<le> cwnd rs" "cwnd rs \<le> 16384" and a: "0 < caAccum rs + k" "caAccum rs + k \<le> 49152"
    using inv k True by (auto simp: cc_inv_def cwnd_consts)
  show ?thesis
    unfolding onAckAdvance_exact [OF inv True k]
    using inv True aimd_arith(6,7) [OF c a] order_less_le_trans [OF aimd_arith(8) [OF c a]] c
    by (auto simp: cc_inv_def cwnd_consts)
next
  case False
  with inv show ?thesis by (simp add: onAckAdvance_def)
qed

lemma halved_bounds: "MinCwnd \<le> c \<Longrightarrow> c \<le> MaxCwnd \<Longrightarrow>
   MinCwnd \<le> max MinCwnd (go_div c 2) \<and> max MinCwnd (go_div c 2) \<le> MaxCwnd"
  by (simp add: cwnd_consts go_div_nonneg)

lemma onLossFast_eq:
  "onLossFast e rs = rs \<or>
   onLossFast e rs = rs\<lparr>lastLossReduceNs := UnixNano (t_loss e),
     ssthresh := max MinCwnd (go_div (cwnd rs) 2), cwnd := max MinCwnd (go_div (cwnd rs) 2),
     caAccum := 0\<rparr>"
  by (simp add: onLossFast_def Let_def max_def not_le)

text \<open>The two loss reactions are the same function.\<close>

lemma onLossRTO_eq: "onLossRTO e rs = onLossFast e rs"
  by (simp add: onLossRTO_def onLossFast_def Let_def)

lemma cc_inv_onLoss [simp]: "cc_inv rs \<Longrightarrow> cc_inv (onLossFast e rs)" "cc_inv rs \<Longrightarrow> cc_inv (onLossRTO e rs)"
proof -
  assume inv: "cc_inv rs"
  then have "MinCwnd \<le> max MinCwnd (go_div (cwnd rs) 2) \<and> max MinCwnd (go_div (cwnd rs) 2) \<le> MaxCwnd"
    by (intro halved_bounds) (simp_all add: cc_inv_def)
  with inv onLossFast_eq [of e rs] show *: "cc_inv (onLossFast e rs)"
    by (auto simp: cc_inv_def MinCwnd_def)
  then show "cc_inv (onLossRTO e rs)" by (simp add: onLossRTO_eq)
qed


text \<open>How many packets an acknowledgement removes.\<close>

lemma length_seq_range [simp]: "length (seq_range base n) = nat n"
  by (simp add: seq_range_def)

lemma ack_span_bounds: "0 \<le> ack_span ack base \<and> ack_span ack base \<le> MaxCwnd * 2"
  by (simp add: ack_span_def Let_def MaxCwnd_def)

lemma ack_count_bounds:
  "0 \<le> k \<Longrightarrow> k + int (length seqs) < 2 ^ 31 \<Longrightarrow>
   0 \<le> snd (fold (ack_one e) seqs (rs, k)) \<and> snd (fold (ack_one e) seqs (rs, k)) \<le> k + int (length seqs)"
proof (induction seqs arbitrary: rs k)
  case Nil
  then show ?case by simp
next
  case (Cons s seqs)
  have "wrap32 (k + 1) = k + 1" using Cons.prems by (intro wrap32_id) simp_all
  moreover obtain rs' k' where st: "ack_one e s (rs, k) = (rs', k')" by (cases "ack_one e s (rs, k)")
  ultimately have "k' = k \<or> k' = k + 1"
    by (auto simp: ack_one_def Let_def split: option.splits)
  with Cons.prems Cons.IH [of k' rs'] st show ?case by auto
qed

lemma cc_inv_ack_new:
  assumes "cc_inv rs"
  shows "cc_inv (ack_new e ack blocks rs)"
proof -
  let ?seqs = "seq_range (sendBase rs) (ack_span ack (sendBase rs))"
  let ?st = "fold (ack_one e) ?seqs (rs\<lparr>dupAckCount := 0\<rparr>, 0)"
  have k: "snd ?st \<le> MaxCwnd * 2"
    using ack_count_bounds [of 0 ?seqs e "rs\<lparr>dupAckCount := 0\<rparr>"]
      ack_span_bounds [of ack "sendBase rs"] by (simp add: MaxCwnd_def)
  with assms show ?thesis
    by (simp add: ack_new_def Let_def split_beta cc_inv_onAckAdvance)
qed

lemma cc_inv_ack_duplicate: "cc_inv rs \<Longrightarrow> cc_inv (ack_duplicate e ack blocks rs)"
  by (simp add: ack_duplicate_def Let_def split_beta split: option.split)

lemma cc_inv_checkRetransmit: "cc_inv rs \<Longrightarrow> cc_inv (checkRetransmit e rs)"
  by (simp add: checkRetransmit_def Let_def split_beta)

lemma cc_inv_step: "cc_inv rs \<Longrightarrow> cc_inv (stream_step op rs)"
  by (cases op)
    (simp_all add: Send_alloc_def Receive_def processAck_def cc_inv_ack_new cc_inv_ack_duplicate
      retransmitLoop_tick_def cc_inv_checkRetransmit Let_def)

lemma cc_inv_run: "cc_inv (stream_run sid ops)"
  by (rule stream_run_invariant) (simp_all add: cc_inv_step cc_inv_New)

section \<open>Cumulative acknowledgements\<close>

text \<open>The bytes kept for retransmission of a sequence number.\<close>

definition stored :: "(u32, unacked_packet) fmap \<Rightarrow> u32 \<Rightarrow> bytes option" where
  "stored un s = map_option up_data (fmlookup un s)"

lemma stored_retransmit_one [simp]:
  "stored (unacked (fst (retransmit_one now seq st))) = stored (unacked (fst st))"
  by (auto simp: retransmit_one_def stored_def fun_eq_iff split: prod.split option.split)

lemma stored_retransmits [simp]:
  "stored (unacked (fst (fold (retransmit_one now) seqs st))) = stored (unacked (fst st))"
  by (rule fold_keeps_pair [where view = "\<lambda>rs. stored (unacked rs)"]) simp

lemma stored_gap_step: "stored (fst (gap_step blocks seq st)) = stored (fst st)"
  by (auto simp: gap_step_def stored_def fun_eq_iff split: prod.split option.split)

lemma stored_markSacked [simp]:
  "stored (fst (markSackedAndCollectGaps ack blocks un)) = stored un"
  using fold_keeps_pair [where view = stored and f = "gap_step blocks", OF stored_gap_step]
  by (simp add: markSackedAndCollectGaps_def)

lemma unacked_ops [simp]:
  "unacked (onLossFast e rs) = unacked rs"
  "unacked (onAckAdvance k rs) = unacked rs"
  "unacked (signalWindowAvail rs) = unacked rs"
  "unacked (sendAll bufs rs) = unacked rs"
  by (simp_all add: onLossFast_def onAckAdvance_def signalWindowAvail_def sendAll_def Let_def)

lemma sendBase_ops [simp]:
  "sendBase (onLossFast e rs) = sendBase rs"
  "sendBase (onAckAdvance k rs) = sendBase rs"
  "sendBase (signalWindowAvail rs) = sendBase rs"
  "sendBase (sendAll bufs rs) = sendBase rs"
  by (simp_all add: onLossFast_def onAckAdvance_def signalWindowAvail_def sendAll_def Let_def)

lemma sendBase_loops [simp]:
  "sendBase (fst (retransmit_one now seq st)) = sendBase (fst st)"
  "sendBase (fst (ack_one e seq st2)) = sendBase (fst st2)"
  by (simp_all add: retransmit_one_def ack_one_def Let_def split: prod.split option.split)

lemma sendBase_folds [simp]:
  "sendBase (fst (fold (retransmit_one now) seqs st)) = sendBase (fst st)"
  "sendBase (fst (fold (ack_one e) seqs st2)) = sendBase (fst st2)"
  by (rule fold_keeps_pair, simp)+

lemma stored_ack_one:
  "stored (unacked (fst (ack_one e seq st))) s =
     (if s = seq then None else stored (unacked (fst st)) s)"
  by (auto simp: ack_one_def stored_def Let_def split: prod.split option.split)

lemma stored_ack_fold:
  "stored (unacked (fst (fold (ack_one e) seqs st))) s =
     (if s \<in> set seqs then None else stored (unacked (fst st)) s)"
  by (induction seqs arbitrary: st) (auto simp: stored_ack_one)

lemma in_seq_range:
  assumes "n \<le> 2 ^ 32"
  shows "s \<in> set (seq_range base n) \<longleftrightarrow> int (unat (s - base)) < n"
proof
  assume "s \<in> set (seq_range base n)"
  then obtain i where i: "s = base + of_nat i" "i < nat n" by (auto simp: seq_range_def)
  then have "unat (s - base) = i" using assms by (simp add: unat_of_nat)
  with i show "int (unat (s - base)) < n" by simp
next
  assume "int (unat (s - base)) < n"
  then have "unat (s - base) \<in> set [0..<nat n]"
    by (simp add: zless_nat_eq_int_zless del: of_nat_unat)
  moreover have "s = base + of_nat (unat (s - base))" by simp
  ultimately show "s \<in> set (seq_range base n)"
    unfolding seq_range_def set_map by (rule rev_image_eqI)
qed

lemma in_ack_range:
  "s \<in> set (seq_range base (ack_span ack base)) \<longleftrightarrow> int (unat (s - base)) < ack_span ack base"
  using ack_span_bounds [of ack base] by (intro in_seq_range) (simp add: MaxCwnd_def)

lemma stored_ack_new:
  "stored (unacked (ack_new e ack blocks rs)) s =
     (if int (unat (s - sendBase rs)) < ack_span ack (sendBase rs) then None
      else stored (unacked rs) s)"
  unfolding in_ack_range [symmetric]
  by (simp add: ack_new_def Let_def split_beta stored_ack_fold del: of_nat_unat)

lemma stored_ack_duplicate:
  "stored (unacked (ack_duplicate e ack blocks rs)) = stored (unacked rs)"
  by (simp add: ack_duplicate_def Let_def split_beta split: option.split)

lemma sendBase_ack_new:
  "sendBase (ack_new e ack blocks rs) = (if seqGreater ack (sendBase rs) then ack else sendBase rs)"
  by (simp add: ack_new_def Let_def split_beta)

lemma sendBase_ack_duplicate: "sendBase (ack_duplicate e ack blocks rs) = sendBase rs"
  by (simp add: ack_duplicate_def Let_def split_beta split: option.split)


lemma stored_processAck:
  "stored (unacked (processAck e ack blocks rs)) s =
     (if ack \<noteq> sendBase rs \<and> int (unat (s - sendBase rs)) < ack_span ack (sendBase rs) then None
      else stored (unacked rs) s)"
  by (simp add: processAck_def stored_ack_new stored_ack_duplicate del: of_nat_unat)

lemma sendBase_processAck:
  "sendBase (processAck e ack blocks rs) =
     (if seqGreater ack (sendBase rs) then ack else sendBase rs)"
  by (simp add: processAck_def sendBase_ack_new sendBase_ack_duplicate)

lemma ack_span_valid:
  assumes "seqGreater ack base" and "unat (ack - base) \<le> 32768"
  shows "ack_span ack base = int (unat (ack - base))"
proof -
  have "sint (ack - base) = int (unat (ack - base))"
    using assms(2) sint_window_diff [of ack base base] by (simp add: window_def)
  with assms show ?thesis
    by (simp add: ack_span_def MaxCwnd_def Let_def seqGreater_def del: of_nat_unat)
qed

lemma ack_span_stale: "seqLess ack base \<Longrightarrow> ack_span ack base = 32768"
  by (simp add: ack_span_def seqLess_def MaxCwnd_def)

section \<open>Loss detection from SACK blocks\<close>

text \<open>One pass over distinct sequence numbers: covered packets get their mark, gaps are collected.\<close>

definition sack_mark :: "sackblock list \<Rightarrow> u32 list \<Rightarrow> u32 \<Rightarrow> unacked_packet \<Rightarrow> unacked_packet" where
  "sack_mark blocks seqs s up =
     (if s \<in> set seqs \<and> in_sack s blocks then up\<lparr>up_sacked := True\<rparr> else up)"

definition is_gap :: "sackblock list \<Rightarrow> (u32, unacked_packet) fmap \<Rightarrow> u32 \<Rightarrow> bool" where
  "is_gap blocks un s \<longleftrightarrow>
     (case fmlookup un s of
        None \<Rightarrow> False
      | Some up \<Rightarrow> \<not> up_sacked up \<and> \<not> in_sack s blocks \<and> seqLess s (max_right blocks))"

lemma fmlookup_gap_step:
  "fmlookup (fst (gap_step blocks s (un, lost))) k =
     map_option (\<lambda>up. if k = s \<and> in_sack s blocks then up\<lparr>up_sacked := True\<rparr> else up) (fmlookup un k)"
  by (cases "fmlookup un k") (auto simp: gap_step_def split: option.split)

lemma snd_gap_step:
  "snd (gap_step blocks s (un, lost)) = (if is_gap blocks un s then lost @ [s] else lost)"
  by (auto simp: gap_step_def is_gap_def split: option.split)

lemma sack_mark_Cons:
  "map_option (sack_mark blocks seqs k) (map_option (\<lambda>up. if k = s \<and> in_sack s blocks
       then up\<lparr>up_sacked := True\<rparr> else up) x) = map_option (sack_mark blocks (s # seqs) k) x"
  by (cases x) (auto simp: sack_mark_def)

lemma gap_fold_marks:
  "fmlookup (fst (fold (gap_step blocks) seqs (un, lost))) k =
     map_option (sack_mark blocks seqs k) (fmlookup un k)"
proof (induction seqs arbitrary: un lost)
  case Nil
  show ?case by (cases "fmlookup un k") (simp_all add: sack_mark_def)
next
  case (Cons s seqs)
  have "gap_step blocks s (un, lost) =
      (fst (gap_step blocks s (un, lost)), snd (gap_step blocks s (un, lost)))" by simp
  then have "fmlookup (fst (fold (gap_step blocks) (s # seqs) (un, lost))) k =
      map_option (sack_mark blocks seqs k) (fmlookup (fst (gap_step blocks s (un, lost))) k)"
    using Cons.IH by (metis fold_simps(2))
  then show ?case by (simp only: fmlookup_gap_step sack_mark_Cons)
qed

lemma is_gap_gap_step:
  "k \<noteq> s \<Longrightarrow> is_gap blocks (fst (gap_step blocks s (un, lost))) k = is_gap blocks un k"
  unfolding is_gap_def fmlookup_gap_step by (simp split: option.split)

lemma gap_fold_lost:
  "distinct seqs \<Longrightarrow>
     snd (fold (gap_step blocks) seqs (un, lost)) = lost @ filter (is_gap blocks un) seqs"
proof (induction seqs arbitrary: un lost)
  case Nil
  show ?case by simp
next
  case (Cons s seqs)
  have "gap_step blocks s (un, lost) =
      (fst (gap_step blocks s (un, lost)), if is_gap blocks un s then lost @ [s] else lost)"
    by (simp add: prod_eq_iff snd_gap_step)
  then have "snd (fold (gap_step blocks) (s # seqs) (un, lost)) =
      (if is_gap blocks un s then lost @ [s] else lost)
        @ filter (is_gap blocks (fst (gap_step blocks s (un, lost)))) seqs"
    using Cons.IH Cons.prems by (metis distinct.simps(2) fold_simps(2))
  moreover have "filter (is_gap blocks (fst (gap_step blocks s (un, lost)))) seqs =
      filter (is_gap blocks un) seqs"
    using Cons.prems by (intro filter_cong refl is_gap_gap_step) auto
  ultimately show ?case by simp
qed

lemma distinct_seq_range: "n \<le> 2 ^ 32 \<Longrightarrow> distinct (seq_range base n)"
  by (auto simp: seq_range_def distinct_map inj_on_def word_of_nat_eq_iff take_bit_eq_mod)

lemma scan_span_bounds: "0 < scan_span ack blocks \<and> scan_span ack blocks \<le> MaxCwnd * 2"
  by (simp add: scan_span_def Let_def MaxCwnd_def)


lemma markSacked_lookup:
  assumes "blocks \<noteq> []"
  shows "fmlookup (fst (markSackedAndCollectGaps ack blocks un)) k =
    map_option (\<lambda>up. if int (unat (k - ack)) < scan_span ack blocks \<and> in_sack k blocks
                     then up\<lparr>up_sacked := True\<rparr> else up) (fmlookup un k)"
proof -
  have "k \<in> set (seq_range ack (scan_span ack blocks)) \<longleftrightarrow>
      int (unat (k - ack)) < scan_span ack blocks"
    using scan_span_bounds [of ack blocks] by (intro in_seq_range) (simp add: MaxCwnd_def)
  then show ?thesis
    using assms by (simp add: markSackedAndCollectGaps_def gap_fold_marks sack_mark_def [abs_def]
        del: of_nat_unat)
qed

lemma markSacked_lost:
  assumes "blocks \<noteq> []"
  shows "snd (markSackedAndCollectGaps ack blocks un) =
    filter (is_gap blocks un) (seq_range ack (scan_span ack blocks))"
  using assms scan_span_bounds [of ack blocks] distinct_seq_range [of "scan_span ack blocks" ack]
  by (simp add: markSackedAndCollectGaps_def gap_fold_lost MaxCwnd_def)

text \<open>
  For blocks within 32768 positions above the acknowledgement number, in positions relative to that number: the greatest right
  edge, membership and the end of the scan.
\<close>

definition in_reach :: "u32 \<Rightarrow> sackblock list \<Rightarrow> bool" where
  "in_reach ack blocks \<longleftrightarrow>
     (\<forall>b \<in> set blocks. unat (sb_Left b - ack) < 32768 \<and> unat (sb_Right b - ack) < 32768)"

lemma in_reachD:
  assumes "in_reach ack blocks" and "b \<in> set blocks"
  shows "sb_Left b \<in> window ack" and "sb_Right b \<in> window ack" and "unat (sb_Right b - ack) < 32768"
  using assms by (fastforce simp: in_reach_def window_def)+

lemma max_right_fold:
  assumes "m \<in> window ack" and "\<forall>b \<in> set bs. sb_Right b \<in> window ack"
    and "m' = fold (\<lambda>b m. if seqGreater (sb_Right b) m then sb_Right b else m) bs m"
  shows "m' \<in> insert m (sb_Right ` set bs) \<and> (\<forall>x \<in> insert m (sb_Right ` set bs). unat (x - ack) \<le> unat (m' - ack))"
  using assms
proof (induction bs arbitrary: m)
  case (Cons b bs)
  let ?m = "if seqGreater (sb_Right b) m then sb_Right b else m"
  have w: "?m \<in> window ack" "\<forall>b \<in> set bs. sb_Right b \<in> window ack" using Cons.prems by auto
  have "unat (m - ack) \<le> unat (?m - ack)" "unat (sb_Right b - ack) \<le> unat (?m - ack)"
    using window_compare(3) [of "sb_Right b" ack m] Cons.prems(1,2) by auto
  with Cons.IH [OF w] Cons.prems(3) show ?case by (fastforce split: if_splits)
qed simp

lemma max_right_top:
  assumes "blocks \<noteq> []" and "in_reach ack blocks"
  shows "max_right blocks \<in> window ack"
    and "unat (max_right blocks - ack) = Max ((\<lambda>b. unat (sb_Right b - ack)) ` set blocks)"
proof -
  obtain b bs where b: "blocks = b # bs" using assms(1) by (cases blocks) auto
  have "max_right blocks \<in> sb_Right ` set blocks
      \<and> (\<forall>x \<in> sb_Right ` set blocks. unat (x - ack) \<le> unat (max_right blocks - ack))"
    using max_right_fold [of "sb_Right b" ack bs, OF _ _ refl] in_reachD(2) [OF assms(2)] b
    by (simp add: max_right_def)
  then show "max_right blocks \<in> window ack"
    and "unat (max_right blocks - ack) = Max ((\<lambda>b. unat (sb_Right b - ack)) ` set blocks)"
    using in_reachD(2) [OF assms(2)] by (auto intro!: Max_eqI [symmetric])
qed

lemma scan_span_top:
  assumes "blocks \<noteq> []" and "in_reach ack blocks"
  shows "scan_span ack blocks = int (unat (max_right blocks - ack)) + 1"
proof -
  have "unat (max_right blocks - ack) < 32768"
    using max_right_top(2) [OF assms] in_reachD(3) [OF assms(2)] assms(1) by simp
  then have u: "uint (max_right blocks - ack) < 32768" by (simp add: uint_nat del: of_nat_unat)
  then have "sint (max_right blocks - ack + 1) = uint (max_right blocks - ack) + 1"
    using sint_small_diff [of "max_right blocks - ack + 1" 0]
      uint_plus_simple [of "max_right blocks - ack" 1] by (simp add: word_le_def uint_word_ariths)
  moreover have "\<not> uint (max_right blocks - ack) + 1 \<le> 0"
    using uint_ge_0 [of "max_right blocks - ack"] by linarith
  ultimately show ?thesis using u by (simp add: scan_span_def Let_def MaxCwnd_def)
qed

lemma in_sack_positions:
  assumes "in_reach ack blocks" and "s \<in> window ack"
  shows "in_sack s blocks \<longleftrightarrow>
    (\<exists>b \<in> set blocks. unat (sb_Left b - ack) \<le> unat (s - ack) \<and> unat (s - ack) \<le> unat (sb_Right b - ack))"
  using in_reachD [OF assms(1)] assms(2)
  by (auto simp: in_sack_def list_ex_iff window_compare [of s ack] not_less)

section \<open>The retransmission timer\<close>

definition timed_out :: "time \<Rightarrow> int \<Rightarrow> unacked_packet \<Rightarrow> bool" where
  "timed_out now rtoNs up \<longleftrightarrow> \<not> up_sacked up \<and> rtoNs < time_Sub now (up_sentTime up)"

definition due :: "time \<Rightarrow> int \<Rightarrow> unacked_packet \<Rightarrow> bool" where
  "due now rtoNs up \<longleftrightarrow> timed_out now rtoNs up \<and> up_retries up < MaxRetries"

definition timer_entry :: "time \<Rightarrow> int \<Rightarrow> unacked_packet \<Rightarrow> unacked_packet option" where
  "timer_entry now rtoNs up =
     (if due now rtoNs up then Some (up\<lparr>up_retries := up_retries up + 1, up_sentTime := now\<rparr>)
      else if timed_out now rtoNs up then None else Some up)"

definition due_bytes :: "time \<Rightarrow> int \<Rightarrow> (u32, unacked_packet) fmap \<Rightarrow> u32 \<Rightarrow> bytes list" where
  "due_bytes now rtoNs un k =
     (case fmlookup un k of
        None \<Rightarrow> [] | Some up \<Rightarrow> if due now rtoNs up then [up_data up] else [])"

lemma check_one_lookup:
  "fmlookup (unacked (fst (check_one now rtoNs s (rs, out)))) k =
     (if k = s then Option.bind (fmlookup (unacked rs) k) (timer_entry now rtoNs)
      else fmlookup (unacked rs) k)"
  by (auto simp: check_one_def retransmit_one_def timer_entry_def due_def timed_out_def not_le
      split: option.split)

lemma check_one_out:
  "snd (check_one now rtoNs s (rs, out)) = out @ due_bytes now rtoNs (unacked rs) s"
  by (auto simp: check_one_def retransmit_one_def due_bytes_def due_def timed_out_def
      split: option.split)

lemma check_one_pair:
  "check_one now rtoNs s (rs, out) =
     (fst (check_one now rtoNs s (rs, out)), out @ due_bytes now rtoNs (unacked rs) s)"
  by (simp add: prod_eq_iff check_one_out)

lemma check_fold_lookup:
  "distinct seqs \<Longrightarrow> fmlookup (unacked (fst (fold (check_one now rtoNs) seqs (rs, out)))) k =
     (if k \<in> set seqs then Option.bind (fmlookup (unacked rs) k) (timer_entry now rtoNs)
      else fmlookup (unacked rs) k)"
proof (induction seqs arbitrary: rs out)
  case Nil
  show ?case by simp
next
  case (Cons s seqs)
  have "fold (check_one now rtoNs) (s # seqs) (rs, out) =
      fold (check_one now rtoNs) seqs (fst (check_one now rtoNs s (rs, out)),
        out @ due_bytes now rtoNs (unacked rs) s)"
    by (metis check_one_pair fold_simps(2))
  with Cons show ?case by (simp add: check_one_lookup)
qed

lemma check_fold_out:
  "distinct seqs \<Longrightarrow> snd (fold (check_one now rtoNs) seqs (rs, out)) =
     out @ concat (map (due_bytes now rtoNs (unacked rs)) seqs)"
proof (induction seqs arbitrary: rs out)
  case Nil
  show ?case by simp
next
  case (Cons s seqs)
  let ?rs = "fst (check_one now rtoNs s (rs, out))"
  have "fold (check_one now rtoNs) (s # seqs) (rs, out) =
      fold (check_one now rtoNs) seqs (?rs, out @ due_bytes now rtoNs (unacked rs) s)"
    by (metis check_one_pair fold_simps(2))
  moreover have "map (due_bytes now rtoNs (unacked ?rs)) seqs = map (due_bytes now rtoNs (unacked rs)) seqs"
    using Cons.prems by (intro map_cong refl) (auto simp: due_bytes_def check_one_lookup)
  ultimately show ?case using Cons.IH [of ?rs] Cons.prems by (simp del: map_eq_conv)
qed

lemma check_fold_rtt:
  "rttEstimator (fst (fold (check_one now rtoNs) seqs st)) = rttEstimator (fst st)"
  by (rule fold_keeps_pair)
    (simp add: check_one_def retransmit_one_def split: prod.split option.split)

lemma check_fold_sentLog:
  "sentLog (fst (fold (check_one now rtoNs) seqs st)) = sentLog (fst st)"
  by (rule fold_keeps_pair)
    (simp add: check_one_def retransmit_one_def split: prod.split option.split)


lemma check_fold_backoff:
  assumes "distinct seqs"
  shows "snd (fold (check_one now rtoNs) seqs (rs, [])) = [] \<longleftrightarrow>
    (\<forall>k \<in> set seqs. \<forall>up. fmlookup (unacked rs) k = Some up \<longrightarrow> \<not> due now rtoNs up)"
  unfolding check_fold_out [OF assms]
  by (auto simp: due_bytes_def split: option.splits if_splits)

section \<open>The send window\<close>

lemma window_open_avail [simp]: "window_open seq (rs\<lparr>windowAvail := b\<rparr>) = window_open seq rs"
  by (simp add: window_open_def)

lemma waitForWindow_True:
  "waitForWindow seq others rs = Some (True, rs') \<Longrightarrow> \<not> rs_closed rs' \<and> window_open seq rs'"
  by (induction seq others rs rule: waitForWindow.induct)
    (auto simp: Let_def split: if_splits wake.splits)

text \<open>The state after some rounds of waiting, that is after what the others did in each of them.\<close>

fun waited :: "(wake \<times> (rstream \<Rightarrow> rstream)) list \<Rightarrow> rstream \<Rightarrow> rstream" where
  "waited [] rs = rs"
| "waited ((w, others) # rest) rs =
     (let rs = others (rs\<lparr>windowAvail := False\<rparr>)
      in waited rest (if w = WakeSignal \<and> windowAvail rs then rs\<lparr>windowAvail := False\<rparr> else rs))"

text \<open>The wait ends after the first round that leaves the stream closed or the window open.\<close>

lemma waitForWindow_rounds:
  assumes "waitForWindow seq others rs = Some (b, rs')"
  shows "\<exists>k \<le> length others. rs' = waited (take k others) rs
    \<and> (if b then \<not> rs_closed rs' \<and> window_open seq rs' else rs_closed rs' \<or> closeCh rs')
    \<and> (\<forall>j < k. \<not> rs_closed (waited (take j others) rs) \<and> \<not> window_open seq (waited (take j others) rs))"
  using assms
proof (induction others arbitrary: rs)
  case Nil
  then show ?case by (auto split: if_splits)
next
  case (Cons a others)
  obtain w f where a: "a = (w, f)" by fastforce
  show ?case
  proof (cases "rs_closed rs \<or> window_open seq rs")
    case True
    then show ?thesis using Cons.prems a by (intro exI [of _ 0]) (auto split: if_splits)
  next
    case False
    let ?s = "f (rs\<lparr>windowAvail := False\<rparr>)"
    let ?t = "if w = WakeSignal \<and> windowAvail ?s then ?s\<lparr>windowAvail := False\<rparr> else ?s"
    show ?thesis
    proof (cases "w = WakeClose \<and> closeCh ?s")
      case True
      then show ?thesis using Cons.prems a False by (intro exI [of _ 1]) (auto simp: Let_def)
    next
      case c: False
      then have "waitForWindow seq others ?t = Some (b, rs')"
        using Cons.prems a False by (cases w) (auto simp: Let_def)
      from Cons.IH [OF this] obtain k where k: "k \<le> length others" "rs' = waited (take k others) ?t"
        "if b then \<not> rs_closed rs' \<and> window_open seq rs' else rs_closed rs' \<or> closeCh rs'"
        "\<forall>j < k. \<not> rs_closed (waited (take j others) ?t) \<and> \<not> window_open seq (waited (take j others) ?t)"
        by blast
      have step: "waited (take (Suc j) (a # others)) rs = waited (take j others) ?t" for j
        by (simp add: a Let_def)
      have "\<not> rs_closed (waited (take j (a # others)) rs) \<and> \<not> window_open seq (waited (take j (a # others)) rs)"
        if "j < Suc k" for j
        using that k(4) False step by (cases j) auto
      with k(1-3) step show ?thesis by (intro exI [of _ "Suc k"]) simp
    qed
  qed
qed

lemma waitForWindow_Nil:
  "rs_closed rs \<or> window_open seq rs \<Longrightarrow> waitForWindow seq others rs \<noteq> None"
  by (cases others) auto

lemma waitForWindow_returns:
  assumes "\<And>rs. rs_closed (f rs) \<or> window_open seq (f rs)"
  shows "waitForWindow seq (others @ [(w, f)]) rs \<noteq> None"
proof (induction others arbitrary: rs)
  case Nil
  have "waitForWindow seq [] ((f rs)\<lparr>windowAvail := b\<rparr>) \<noteq> None"
    and "waitForWindow seq [] (f rs) \<noteq> None" for rs b
    using assms [of rs] by auto
  then show ?case using assms by (cases w) (auto simp: Let_def)
next
  case (Cons a others)
  then show ?case by (cases a) (auto simp: Let_def split: wake.split)
qed


section \<open>What one transmission does\<close>

lemma pace_fields [simp]:
  "streamID (pace e rs) = streamID rs" "pendingAck (pace e rs) = pendingAck rs"
  "recvNext (pace e rs) = recvNext rs" "outOfOrder (pace e rs) = outOfOrder rs"
  "unacked (pace e rs) = unacked rs" "sentLog (pace e rs) = sentLog rs"
  "sendSeq (pace e rs) = sendSeq rs" "sendBase (pace e rs) = sendBase rs"
  by (simp_all add: pace_def Let_def)

lemma length_build_blocks: "length blocks < MaxSackBlocks \<Longrightarrow> length (build_blocks blocks b ss) \<le> MaxSackBlocks"
  by (induction blocks b ss rule: build_blocks.induct) (auto simp: Let_def)

lemma length_buildSackBlocks: "length (buildSackBlocks e rs) \<le> MaxSackBlocks"
  by (auto simp: buildSackBlocks_def MaxSackBlocks_def split: list.split
      intro!: length_build_blocks [unfolded MaxSackBlocks_def])

lemma buildSackBlocks_cong:
  "outOfOrder rs = outOfOrder rs' \<Longrightarrow> buildSackBlocks e rs = buildSackBlocks e rs'"
  by (simp add: buildSackBlocks_def)

lemma data_packet_fields [simp]:
  "rp_StreamID (data_packet e seq data rs) = streamID rs"
  "rp_Seq (data_packet e seq data rs) = seq"
  "rp_Data (data_packet e seq data rs) = data"
  "rp_Ack (data_packet e seq data rs) = (if pendingAck rs then recvNext rs else 0)"
  "rp_SackBlocks (data_packet e seq data rs) = (if pendingAck rs then buildSackBlocks e rs else [])"
  "rp_Flags (data_packet e seq data rs) AND FlagAck \<noteq> 0 \<longleftrightarrow> pendingAck rs"
  "rp_Flags (data_packet e seq data rs) AND FlagData \<noteq> 0"
  "rp_Flags (data_packet e seq data rs) AND FlagClose = 0"
  by (simp_all add: data_packet_def flag_defs Let_def)

lemma wf_data_packet: "wf_rpacket (data_packet e seq data rs)"
  using length_buildSackBlocks [of e rs]
  by (simp add: wf_rpacket_def data_packet_def flag_defs Let_def MaxSackBlocks_def)

lemma data_packet_pace [simp]: "data_packet e seq data (pace e rs) = data_packet e seq data rs"
  using buildSackBlocks_cong [of "pace e rs" rs e] by (simp add: data_packet_def Let_def)

lemma Send_commit_sent:
  "sentLog (snd (Send_commit e seq data rs)) = sentLog rs @ [Marshal (data_packet e seq data rs)]"
  by (simp add: Send_commit_def Let_def sendAll_def store_unacked_def cancelAckTimer_def)

lemma Send_commit_stored:
  "stored (unacked (snd (Send_commit e seq data rs))) k =
     (if k = seq then Some (Marshal (data_packet e seq data rs)) else stored (unacked rs) k)"
  by (simp add: Send_commit_def Let_def store_unacked_def cancelAckTimer_def stored_def)

lemma Send_commit_result: "fst (Send_commit e seq data rs) = e_send e (Marshal (data_packet e seq data rs))"
  by (simp add: Send_commit_def Let_def)

lemma Send_cases:
  assumes "Send e others data rs = Some (r, rs')"
  obtains "r = Some ErrStreamClosed" "rs_closed rs" "rs' = rs"
  | "\<not> rs_closed rs" "r = Some ErrStreamClosed"
      "waitForWindow (sendSeq rs) others (rs\<lparr>sendSeq := sendSeq rs + 1\<rparr>) = Some (False, rs')"
  | rs1 where "\<not> rs_closed rs" "(r, rs') = Send_commit e (sendSeq rs) data rs1"
      "waitForWindow (sendSeq rs) others (rs\<lparr>sendSeq := sendSeq rs + 1\<rparr>) = Some (True, rs1)"
  using assms
  by (auto simp: Send_def Send_alloc_def split: if_splits option.splits bool.splits)

section \<open>Closing\<close>

text \<open>
  The identifier of a stream never changes, its next sequence number only by \<open>Send\<close> and
  \<open>SendClose\<close>, its two close indicators only by \<open>Close\<close>.
\<close>

definition id_view :: "rstream \<Rightarrow> u32 \<times> u32 \<times> bool \<times> bool" where
  "id_view rs = (streamID rs, sendSeq rs, rs_closed rs, closeCh rs)"

lemma id_view_upd [simp]:
  "id_view (rs\<lparr>sendBase := a\<rparr>) = id_view rs"
  "id_view (rs\<lparr>unacked := un\<rparr>) = id_view rs"
  "id_view (rs\<lparr>dupAckCount := c\<rparr>) = id_view rs"
  "id_view (rs\<lparr>lastSackTime := t\<rparr>) = id_view rs"
  "id_view (rs\<lparr>cwnd := c\<rparr>) = id_view rs"
  "id_view (rs\<lparr>ssthresh := c\<rparr>) = id_view rs"
  "id_view (rs\<lparr>caAccum := c\<rparr>) = id_view rs"
  "id_view (rs\<lparr>lastLossReduceNs := t\<rparr>) = id_view rs"
  "id_view (rs\<lparr>windowAvail := b\<rparr>) = id_view rs"
  "id_view (rs\<lparr>nextSendTimeNs := t\<rparr>) = id_view rs"
  "id_view (rs\<lparr>recvNext := a\<rparr>) = id_view rs"
  "id_view (rs\<lparr>outOfOrder := buf\<rparr>) = id_view rs"
  "id_view (rs\<lparr>rttEstimator := r\<rparr>) = id_view rs"
  "id_view (rs\<lparr>pendingAck := b\<rparr>) = id_view rs"
  "id_view (rs\<lparr>ackTimer := tm\<rparr>) = id_view rs"
  "id_view (rs\<lparr>recvCounter := a\<rparr>) = id_view rs"
  "id_view (rs\<lparr>retransmits := x\<rparr>) = id_view rs"
  "id_view (rs\<lparr>packetsIn := x\<rparr>) = id_view rs"
  "id_view (rs\<lparr>packetsOut := x\<rparr>) = id_view rs"
  "id_view (rs\<lparr>loopDone := b\<rparr>) = id_view rs"
  "id_view (rs\<lparr>sentLog := l\<rparr>) = id_view rs"
  "id_view (rs\<lparr>deliveredLog := l\<rparr>) = id_view rs"
  by (simp_all add: id_view_def)

lemma id_view_ops [simp]:
  "id_view (sendAll bufs rs) = id_view rs"
  "id_view (deliver data rs) = id_view rs"
  "id_view (signalWindowAvail rs) = id_view rs"
  "id_view (cancelAckTimer rs) = id_view rs"
  "id_view (pace e rs) = id_view rs"
  "id_view (onAckAdvance k rs) = id_view rs"
  "id_view (onLossFast e rs) = id_view rs"
  "id_view (sendAckNow rs) = id_view rs"
  "id_view (sendAckWithSack e rs) = id_view rs"
  "id_view (store_unacked e pkt rs) = id_view rs"
  by (simp_all add: sendAll_def deliver_def signalWindowAvail_def cancelAckTimer_def pace_def
      onAckAdvance_def onLossFast_def sendAckNow_def sendAckWithSack_def store_unacked_def Let_def)

lemma id_view_loops [simp]:
  "id_view (fst (retransmit_one now seq st)) = id_view (fst st)"
  "id_view (fst (check_one now rtoNs seq st)) = id_view (fst st)"
  "id_view (fst (ack_one e seq st2)) = id_view (fst st2)"
  by (simp_all add: retransmit_one_def check_one_def ack_one_def Let_def
      split: prod.split option.split)

lemma id_view_folds [simp]:
  "id_view (fst (fold (retransmit_one now) seqs st)) = id_view (fst st)"
  "id_view (fst (fold (check_one now rtoNs) seqs st)) = id_view (fst st)"
  "id_view (fst (fold (ack_one e) seqs st2)) = id_view (fst st2)"
  by (rule fold_keeps_pair, simp)+

lemma id_view_deliverOutOfOrder [simp]: "id_view (deliverOutOfOrder rs) = id_view rs"
proof (induction rs rule: deliverOutOfOrder.induct)
  case (1 rs)
  then show ?case
    by (cases "fmlookup (outOfOrder rs) (recvNext rs)") (simp_all add: deliverOutOfOrder.simps [of rs])
qed

lemma id_view_processAck [simp]: "id_view (processAck e ack blocks rs) = id_view rs"
  by (simp add: processAck_def ack_duplicate_def ack_new_def Let_def split_beta split: option.split)

lemma id_view_processData [simp]: "id_view (processData e seq data rs) = id_view rs"
  by (simp add: processData_def scheduleAck_def Let_def)

lemma id_view_step:
  "op \<noteq> OpClose \<Longrightarrow> op \<noteq> OpSendAlloc \<Longrightarrow> (\<And>e. op \<noteq> OpSendClose e) \<Longrightarrow>
   id_view (stream_step op rs) = id_view rs"
  by (cases op)
    (auto simp: Send_commit_def Receive_def ackTimerFunc_def retransmitLoop_tick_def
      checkRetransmit_def onLossRTO_eq Let_def split_beta)

lemma id_view_SendClose:
  "id_view (snd (SendClose e rs)) =
     (streamID rs, if rs_closed rs then sendSeq rs else sendSeq rs + 1, rs_closed rs, closeCh rs)"
  by (simp add: SendClose_def Let_def) (simp add: id_view_def)

lemma Close_closes: "rs_closed (Close rs)" "rs_closed rs = closeCh rs \<Longrightarrow> closeCh (Close rs)"
  by (simp_all add: Close_def signalWindowAvail_def cancelAckTimer_def)

lemma closed_step:
  "rs_closed rs = closeCh rs \<Longrightarrow> rs_closed (stream_step op rs) = closeCh (stream_step op rs)"
  using id_view_step [of op rs] id_view_SendClose Close_closes [of rs]
  by (cases op) (auto simp: id_view_def Send_alloc_def)

lemma closed_run: "rs_closed (stream_run sid ops) = closeCh (stream_run sid ops)"
  by (rule stream_run_invariant) (simp_all add: closed_step, simp add: NewReliableStream_def)

section \<open>Properties\<close>

text \<open>
  C15. The congestion window stays within its bounds. In every state a stream reaches, whatever
  acknowledgements a peer sends and whatever the clock reads: 8 to 16384 packets, the slow-start
  threshold likewise, and the congestion-avoidance accumulator is less than one window. In
  particular no 32-bit operation of the controller overflows.
\<close>

theorem cwnd_bounded:
  "MinCwnd \<le> cwnd (stream_run sid ops) \<and> cwnd (stream_run sid ops) \<le> MaxCwnd
   \<and> MinCwnd \<le> ssthresh (stream_run sid ops) \<and> ssthresh (stream_run sid ops) \<le> MaxCwnd
   \<and> 0 \<le> caAccum (stream_run sid ops) \<and> caAccum (stream_run sid ops) < cwnd (stream_run sid ops)"
  using cc_inv_run by (simp add: cc_inv_def)

text \<open>
  Growth of the window. For \<open>k\<close> newly acknowledged packets, below the threshold the window
  grows by \<open>k\<close> (slow start); otherwise the acknowledged packets are counted and the window grows by
  one for every full window of them, the remainder being kept (congestion avoidance); 16384 caps
  both.
\<close>

theorem window_growth:
  assumes "rs = stream_run sid ops" and "0 < k" and "k \<le> MaxCwnd * 2"
  shows "onAckAdvance k rs =
     (if cwnd rs < ssthresh rs then rs\<lparr>cwnd := min MaxCwnd (cwnd rs + k)\<rparr>
      else rs\<lparr>cwnd := min MaxCwnd (cwnd rs + (caAccum rs + k) div cwnd rs),
              caAccum := (caAccum rs + k) mod cwnd rs\<rparr>)"
  using assms by (simp add: onAckAdvance_exact [OF cc_inv_run])

theorem window_growth_witness:
  "onAckAdvance 5 (stream_run 1 []) = (stream_run 1 [])\<lparr>cwnd := 37\<rparr>"
  using window_growth [of "stream_run 1 []" 1 "[]" 5]
  by (simp add: stream_run_def NewReliableStream_def cwnd_consts)

text \<open>
  C9. A cumulative acknowledgement of at most 32768 packets, with or without SACK blocks, removes
  exactly the packets it covers from the retransmission store, keeps the bytes of all others, and
  moves the send window to the acknowledged position.
\<close>

theorem cumulative_ack_exact:
  assumes "seqGreater ack (sendBase rs)" and "unat (ack - sendBase rs) \<le> 32768"
  shows "stored (unacked (processAck e ack blocks rs)) s =
      (if unat (s - sendBase rs) < unat (ack - sendBase rs) then None else stored (unacked rs) s)
    \<and> sendBase (processAck e ack blocks rs) = ack"
proof -
  have "ack \<noteq> sendBase rs" using assms(1) by (auto simp: seqGreater_def)
  then show ?thesis
    using assms
    by (simp add: stored_processAck sendBase_processAck ack_span_valid del: of_nat_unat)
qed

theorem cumulative_ack_exact_witness:
  "sendBase (processAck (env_at 0) 2 [] (NewReliableStream 1)) = 2"
proof -
  have "seqGreater 2 (sendBase (NewReliableStream 1))"
    "unat (2 - sendBase (NewReliableStream 1)) \<le> 32768"
    by (simp_all add: NewReliableStream_def seqGreater_def)
  then show ?thesis using cumulative_ack_exact by blast
qed

text \<open>
  C23. A stale acknowledgement discards unacknowledged packets. An acknowledgement number before
  \<open>sendBase\<close>, as a reordered or duplicated acknowledgement carries, does not move the send window,
  but removes every packet of the 32768 positions from \<open>sendBase\<close> on from the retransmission store
  although none of them is acknowledged.
\<close>

theorem stale_ack_discards:
  assumes "seqLess ack (sendBase rs)"
  shows "stored (unacked (processAck e ack blocks rs)) s =
      (if unat (s - sendBase rs) < 32768 then None else stored (unacked rs) s)
    \<and> sendBase (processAck e ack blocks rs) = sendBase rs"
proof -
  have "ack \<noteq> sendBase rs" "\<not> seqGreater ack (sendBase rs)"
    using assms by (auto simp: seqLess_def seqGreater_def)
  then show ?thesis
    using assms by (simp add: stored_processAck sendBase_processAck ack_span_stale del: of_nat_unat)
qed


definition two_sent :: rstream where
  "two_sent = stream_run 1 [OpSendAlloc, OpSendCommit (env_at 0) 0 [7], OpSendAlloc,
     OpSendCommit (env_at 0) 1 [8],
     OpReceive (env_at 3000000) \<lparr>rp_StreamID = 1, rp_Flags = FlagAck, rp_Seq = 0, rp_Ack = 1,
                            rp_SackBlocks = [], rp_Data = []\<rparr>]"

theorem stale_ack_discards_witness:
  "stored (unacked two_sent) 1 = Some [0, 0, 0, 1, 1, 0, 0, 0, 1, 8]
   \<and> stored (unacked (processAck (env_at 4000000) 0 [] two_sent)) 1 = None"
proof -
  have "sendBase two_sent = 1" and s: "stored (unacked two_sent) 1 = Some [0, 0, 0, 1, 1, 0, 0, 0, 1, 8]"
    by code_simp+
  then have "seqLess 0 (sendBase two_sent)" and "unat (1 - sendBase two_sent) < 32768"
    by (simp_all add: seqLess_def)
  with s show ?thesis using stale_ack_discards [of 0 two_sent] by simp
qed

text \<open>
  C11. The SACK scan, in positions relative to the acknowledgement number (distances modulo 2^32). For a non-empty
  list of blocks whose edges lie less than 32768 positions above it, exactly the stored packets that lie in one of
  the blocks, both edges included, get the mark that exempts them from retransmission, and all other fields of all packets
  stay; reported lost are, in ascending order, the stored packets below the highest right edge of all blocks that
  are not marked and lie in no block.
\<close>

theorem sack_scan_exact:
  assumes "blocks \<noteq> []"
    and "\<forall>b \<in> set blocks. unat (sb_Left b - ack) < 32768 \<and> unat (sb_Right b - ack) < 32768"
    and "covered = (\<lambda>s. \<exists>b \<in> set blocks. unat (sb_Left b - ack) \<le> unat (s - ack) \<and> unat (s - ack) \<le> unat (sb_Right b - ack))"
    and "highest = Max ((\<lambda>b. unat (sb_Right b - ack)) ` set blocks)"
  shows "(\<forall>k. fmlookup (fst (markSackedAndCollectGaps ack blocks un)) k =
      map_option (\<lambda>up. if covered k then up\<lparr>up_sacked := True\<rparr> else up) (fmlookup un k))
    \<and> snd (markSackedAndCollectGaps ack blocks un) =
        filter (\<lambda>s. \<exists>up. fmlookup un s = Some up \<and> \<not> up_sacked up \<and> \<not> covered s)
          (map (\<lambda>i. ack + of_nat i) [0..<highest])"
proof -
  have reach: "in_reach ack blocks" using assms(2) by (simp add: in_reach_def)
  note top = max_right_top [OF assms(1) reach, folded assms(4)]
  note span = scan_span_top [OF assms(1) reach, unfolded top(2)]
  have le: "unat (sb_Right b - ack) \<le> highest" if "b \<in> set blocks" for b
    using that by (simp add: assms(4))
  have "highest < 32768" using assms(1,2) by (simp add: assms(4))
  then have win: "s \<in> window ack" if "unat (s - ack) \<le> highest" for s using that by (simp add: window_def)
  have cov: "(int (unat (k - ack)) < scan_span ack blocks \<and> in_sack k blocks) = covered k" for k
    using in_sack_positions [OF reach win [of k]] le unfolding span assms(3)
    by (fastforce simp del: of_nat_unat intro: le_trans)
  have gap: "is_gap blocks un s =
      ((\<exists>up. fmlookup un s = Some up \<and> \<not> up_sacked up \<and> \<not> covered s) \<and> unat (s - ack) < highest)"
    if "unat (s - ack) \<le> highest" for s
    using in_sack_positions [OF reach win [OF that]] window_compare(1) [OF win [OF that] top(1)] top(2)
    by (auto simp: is_gap_def assms(3) split: option.split)
  have pos: "unat (ack + of_nat i - ack) = i" if "i \<le> highest" for i
    using that \<open>highest < 32768\<close> by (simp add: unat_of_nat)
  have "filter (is_gap blocks un) (seq_range ack (scan_span ack blocks)) =
      filter (\<lambda>s. \<exists>up. fmlookup un s = Some up \<and> \<not> up_sacked up \<and> \<not> covered s)
        (map (\<lambda>i. ack + of_nat i) [0..<highest])"
    using gap [of "ack + of_nat highest"] pos gap
    by (auto simp: seq_range_def span nat_add_distrib intro!: filter_cong)
  then show ?thesis
    using markSacked_lookup [OF assms(1), of ack un] markSacked_lost [OF assms(1), of ack un] cov by simp
qed

theorem sack_scan_exact_witness:
  "snd (markSackedAndCollectGaps 1 [\<lparr>sb_Left = 2, sb_Right = 2\<rparr>, \<lparr>sb_Left = 4, sb_Right = 5\<rparr>] (unacked two_sent)) = [1]"
proof -
  let ?b = "[\<lparr>sb_Left = 2, sb_Right = 2\<rparr>, \<lparr>sb_Left = 4, sb_Right = 5\<rparr>]"
  have "fmlookup (unacked two_sent) 2 = None" "fmlookup (unacked two_sent) 3 = None"
    "fmlookup (unacked two_sent) 4 = None"
    "map_option up_sacked (fmlookup (unacked two_sent) 1) = Some False" by code_simp+
  moreover have "[0..<4] = [0, 1, 2, 3 :: nat]" by (simp add: upt_rec)
  ultimately show ?thesis
    using sack_scan_exact [of ?b 1, OF _ _ refl refl, of "unacked two_sent"] by (auto simp: max_def)
qed

text \<open>
  C12. The retransmission timer. A pass sends, in iteration order, exactly the stored bytes of the
  packets that are older than the timeout, not selectively acknowledged and retried less than 20
  times; each of them counts one more retry and restarts its age. Packets that had their 20 retries
  are dropped from the store, all others stay as they are. The timeout is doubled exactly when
  something was sent.
\<close>

theorem retransmit_timer_exact:
  assumes "iter_ok (e_iter e)" and "r = RTO (rttEstimator rs) * Millisecond"
    and "un = unacked rs" and "rs' = checkRetransmit e rs"
  shows "sentLog rs' = sentLog rs @ concat (map (due_bytes (t_now e) r un) (e_iter e (fmdom un)))
    \<and> (\<forall>k. fmlookup (unacked rs') k = Option.bind (fmlookup un k) (timer_entry (t_now e) r))
    \<and> rttEstimator rs' =
        (if \<exists>k up. fmlookup un k = Some up \<and> due (t_now e) r up then Backoff (rttEstimator rs)
         else rttEstimator rs)"
proof -
  define seqs st where "seqs = e_iter e (fmdom un)"
    and "st = fold (check_one (t_now e) r) seqs (rs, [])"
  have seqs: "distinct seqs" "\<And>k. k \<in> set seqs \<longleftrightarrow> fmlookup un k \<noteq> None"
    using iter_okD [OF assms(1)] by (auto simp: seqs_def fmlookup_dom_iff)
  have "checkRetransmit e rs = sendAll (snd st)
      (if snd st \<noteq> [] then (onLossRTO e (fst st))\<lparr>rttEstimator := Backoff (rttEstimator (onLossRTO e (fst st)))\<rparr>
       else fst st)"
    by (simp add: checkRetransmit_def Let_def split_beta st_def seqs_def assms(2,3))
  moreover have "rttEstimator (onLossRTO e (fst st)) = rttEstimator rs" "sentLog (onLossRTO e (fst st)) = sentLog rs"
    "rttEstimator (fst st) = rttEstimator rs" "sentLog (fst st) = sentLog rs"
    by (simp_all add: onLossRTO_def Let_def st_def check_fold_rtt check_fold_sentLog)
  ultimately have rs': "sentLog rs' = sentLog rs @ snd st" "unacked rs' = unacked (fst st)"
    "rttEstimator rs' = (if snd st \<noteq> [] then Backoff (rttEstimator rs) else rttEstimator rs)"
    by (simp_all add: assms(4) sendAll_def onLossRTO_eq)
  have "snd st = [] \<longleftrightarrow> (\<forall>k up. fmlookup un k = Some up \<longrightarrow> \<not> due (t_now e) r up)"
    unfolding st_def check_fold_backoff [OF seqs(1)] using seqs(2) assms(3) by auto
  then show ?thesis
    using rs' seqs(2) check_fold_out [OF seqs(1), of "t_now e" r rs "[]"]
      check_fold_lookup [OF seqs(1), of "t_now e" r rs "[]"]
    by (auto simp: st_def seqs_def assms(3))
qed


theorem retransmit_timer_exact_witness:
  "sentLog (checkRetransmit (env_at 1000000000) two_sent) =
     sentLog two_sent @ [[0, 0, 0, 1, 1, 0, 0, 0, 1, 8]]"
proof -
  let ?e = "env_at 1000000000" and ?r = "RTO (rttEstimator two_sent) * Millisecond"
  have "concat (map (due_bytes (t_now ?e) ?r (unacked two_sent)) (e_iter ?e (fmdom (unacked two_sent))))
      = [[0, 0, 0, 1, 1, 0, 0, 0, 1, 8]]" by code_simp
  then show ?thesis using retransmit_timer_exact [OF env_at_iter refl refl refl] by simp
qed

text \<open>
  Fast retransmit. A duplicate acknowledgement without SACK blocks is counted; the third in a
  row sends the packet at the left edge of the window again, if it is still stored and not
  selectively acknowledged, with one more retry and a restarted age, and resets the count. Before
  the third, nothing is sent and the store does not change.
\<close>

theorem fast_retransmit:
  assumes "fmlookup (unacked rs) (sendBase rs) = Some up" and "\<not> up_sacked up"
    and "rs' = processAck e (sendBase rs) [] rs"
  shows "if dupAckCount rs + 1 \<ge> FastRetransmitCount
    then sentLog rs' = sentLog rs @ [up_data up] \<and> dupAckCount rs' = 0
      \<and> unacked rs' = fmupd (sendBase rs) (up\<lparr>up_retries := up_retries up + 1, up_sentTime := t_now e\<rparr>)
                        (unacked rs)
    else sentLog rs' = sentLog rs \<and> dupAckCount rs' = dupAckCount rs + 1 \<and> unacked rs' = unacked rs"
proof -
  have "sentLog (onLossFast e r) = sentLog r" "dupAckCount (onLossFast e r) = dupAckCount r" for r
    by (simp_all add: onLossFast_def Let_def)
  with assms show ?thesis
    by (simp add: processAck_def ack_duplicate_def markSackedAndCollectGaps_def retransmit_one_def
        sendAll_def Let_def)
qed

theorem fast_retransmit_witness:
  "sentLog (processAck (env_at 4000000) 1 [] (two_sent\<lparr>dupAckCount := 2\<rparr>)) =
     sentLog two_sent @ [[0, 0, 0, 1, 1, 0, 0, 0, 1, 8]]"
proof -
  let ?rs = "two_sent\<lparr>dupAckCount := 2\<rparr>"
  have b: "sendBase ?rs = 1"
    and "map_option (\<lambda>up. (up_sacked up, up_data up)) (fmlookup (unacked ?rs) 1)
      = Some (False, [0, 0, 0, 1, 1, 0, 0, 0, 1, 8])" by code_simp+
  then obtain up where "fmlookup (unacked ?rs) (sendBase ?rs) = Some up" "\<not> up_sacked up"
    "up_data up = [0, 0, 0, 1, 1, 0, 0, 0, 1, 8]" by auto
  with fast_retransmit [OF this(1,2) refl] b show ?thesis by (simp add: FastRetransmitCount_def)
qed



text \<open>
  C14. A blocked \<open>Send\<close> does not miss the event it waits for: if the last thing the other goroutines
  do leaves the stream closed or the window open for its sequence number, the call returns, whatever
  wakes it and whatever happened before.
\<close>

theorem Send_unblocks:
  assumes "\<And>s. rs_closed (f s) \<or> window_open (sendSeq rs) (f s)"
  shows "\<exists>r rs'. Send e (others @ [(w, f)]) data rs = Some (r, rs')"
proof (cases "rs_closed rs")
  case True
  then show ?thesis by (simp add: Send_def Send_alloc_def)
next
  case False
  have "waitForWindow (sendSeq rs) (others @ [(w, f)]) (rs\<lparr>sendSeq := sendSeq rs + 1\<rparr>) \<noteq> None"
    by (rule waitForWindow_returns [OF assms])
  with False show ?thesis
    by (auto simp: Send_def Send_alloc_def split: bool.split)
qed

theorem Send_unblocks_witness:
  "\<exists>r rs'. Send (env_at 0) [(WakeTimeout, id), (WakeClose, Close)] [9]
     ((NewReliableStream 1)\<lparr>sendSeq := 100\<rparr>) = Some (r, rs')"
  using Send_unblocks [of Close "(NewReliableStream 1)\<lparr>sendSeq := 100\<rparr>" "env_at 0"
      "[(WakeTimeout, id)]" WakeClose "[9]"]
  by (simp add: Close_closes)

text \<open>
  What one transmission puts on the wire and into the store: the bytes decode to a packet with
  the stream's identifier, the sequence number and the data, and, when an acknowledgement was due,
  with the acknowledgement number and the SACK blocks; the same bytes are stored for
  retransmission, the other stored packets stay, and no acknowledgement is due any more.
\<close>

theorem transmission:
  "\<exists>buf pkt. sentLog (snd (Send_commit e seq data rs)) = sentLog rs @ [buf]
    \<and> UnmarshalReliable buf = Inr pkt
    \<and> rp_StreamID pkt = streamID rs \<and> rp_Seq pkt = seq \<and> rp_Data pkt = data
    \<and> (rp_Flags pkt AND FlagData \<noteq> 0) \<and> (rp_Flags pkt AND FlagClose = 0)
    \<and> (rp_Flags pkt AND FlagAck \<noteq> 0 \<longleftrightarrow> pendingAck rs)
    \<and> (pendingAck rs \<longrightarrow> rp_Ack pkt = recvNext rs \<and> rp_SackBlocks pkt = buildSackBlocks e rs)
    \<and> stored (unacked (snd (Send_commit e seq data rs))) = (stored (unacked rs))(seq \<mapsto> buf)
    \<and> \<not> pendingAck (snd (Send_commit e seq data rs))"
proof -
  let ?p = "data_packet e seq data rs"
  have "\<not> pendingAck (snd (Send_commit e seq data rs))"
    by (simp add: Send_commit_def Let_def sendAll_def store_unacked_def cancelAckTimer_def)
  then show ?thesis
    using rpkt.decode_encode [OF wf_data_packet]
    by (intro exI [of _ "Marshal ?p"] exI [of _ ?p])
      (auto simp: Send_commit_sent Send_commit_stored fun_eq_iff)
qed

theorem transmission_witness:
  "UnmarshalReliable (last (sentLog (snd (Send_commit (env_at 0) 3 [9] (NewReliableStream 1)))))
   = Inr \<lparr>rp_StreamID = 1, rp_Flags = FlagData, rp_Seq = 3, rp_Ack = 0, rp_SackBlocks = [], rp_Data = [9]\<rparr>
   \<and> stored (unacked (snd (Send_commit (env_at 0) 3 [9] (NewReliableStream 1)))) 3 \<noteq> None"
proof -
  have "stored (unacked (snd (Send_commit (env_at 0) 3 [9] (NewReliableStream 1)))) 3 \<noteq> None"
    using transmission [of "env_at 0" 3 "[9]" "NewReliableStream 1"] by auto
  moreover have "UnmarshalReliable (last (sentLog (snd (Send_commit (env_at 0) 3 [9] (NewReliableStream 1)))))
   = Inr \<lparr>rp_StreamID = 1, rp_Flags = FlagData, rp_Seq = 3, rp_Ack = 0, rp_SackBlocks = [], rp_Data = [9]\<rparr>"
    by code_simp
  ultimately show ?thesis by blast
qed

text \<open>
  Closing is final. From any state a stream reaches, after \<open>Close\<close>: closing again changes
  nothing, \<open>Send\<close> fails with the closed error and \<open>SendClose\<close> succeeds without effect; the
  retransmission loop returns at the latest when it takes the close case, and does nothing after that.
\<close>

theorem close_is_final:
  assumes "rs = Close (stream_run sid ops)" and "\<not> e_tick e'"
  shows "Close rs = rs \<and> Send e others data rs = Some (Some ErrStreamClosed, rs)
    \<and> SendClose e rs = (None, rs)
    \<and> (let rs' = retransmitLoop_tick e' rs in sentLog rs' = sentLog rs \<and> retransmitLoop_tick e rs' = rs')"
proof -
  have "rs_closed rs" "closeCh rs" using assms Close_closes closed_run by simp_all
  with assms(2) show ?thesis
    by (simp add: Close_def Send_def Send_alloc_def SendClose_def retransmitLoop_tick_def)
qed

theorem close_is_final_witness:
  "Send (env_at 0) [] [1] (Close (stream_run 1 [])) = Some (Some ErrStreamClosed, Close (stream_run 1 []))"
  using close_is_final [OF refl, of "env_at 0"] by (simp add: env_at_def)

end
