(* ===== verification/RelSack.thy ===== *)
theory RelSack
  imports RelReceiver RelSender
begin

text \<open>
  Selective acknowledgements: what a receiver reports of its out-of-order buffer
  (\<open>buildSackBlocks\<close>), whatever the peer has sent.
\<close>

section \<open>The buffer lies in the half window above the next expected number\<close>

definition dist_ok :: "nat \<Rightarrow> rstream \<Rightarrow> bool" where
  "dist_ok lo rs \<longleftrightarrow>
     (\<forall>k \<in> fset (fmdom (outOfOrder rs)). lo \<le> unat (k - recvNext rs) \<and> unat (k - recvNext rs) < 2 ^ 31)"

definition buffer_inv :: "rstream \<Rightarrow> bool" where
  "buffer_inv rs \<longleftrightarrow> dist_ok 1 rs \<and> golen (outOfOrder rs) \<le> MaxOutOfOrderBuffer"

lemma buffer_inv_view: "recv_view rs = recv_view rs' \<Longrightarrow> buffer_inv rs = buffer_inv rs'"
  by (simp add: buffer_inv_def dist_ok_def recv_view_def)

lemma unat_pred: "x \<noteq> 0 \<Longrightarrow> unat (x - 1 :: u32) = unat x - 1"
  by (rule unat_minus_one)

lemma shifted_mod:
  fixes u :: int
  assumes "0 \<le> u" and "u < 4294967296"
  shows "2147483648 < (u + 2147483648) mod 4294967296 \<longleftrightarrow> 0 < u \<and> u < 2147483648"
proof (cases "u < 2147483648")
  case True
  with assms(1) show ?thesis by simp
next
  case False
  have "(u + 2147483648) mod 4294967296 = (u - 2147483648 + 4294967296) mod 4294967296"
    by (simp add: add.commute)
  also have "\<dots> = u - 2147483648" using False assms(2) unfolding mod_add_self2 by simp
  finally show ?thesis using False assms(2) by simp
qed

lemma seqGreater_dist: "seqGreater k n \<longleftrightarrow> 1 \<le> unat (k - n) \<and> unat (k - n) < 2 ^ 31"
proof -
  have "sint (k - n) > 0 \<longleftrightarrow> 0 < uint (k - n) \<and> uint (k - n) < 2 ^ 31"
    using uint_ge_0 [of "k - n"] uint_lt2p [of "k - n"] shifted_mod [of "uint (k - n)"]
    by (simp add: sint_uint signed_take_bit_eq_take_bit_shift take_bit_eq_mod)
  then show ?thesis unfolding seqGreater_def by (simp add: uint_nat Suc_le_eq del: of_nat_unat)
qed

lemma dist_ok_next:
  assumes "dist_ok lo rs" and "\<And>k. k |\<in>| fmdom (outOfOrder rs) \<Longrightarrow> k \<noteq> recvNext rs"
  shows "dist_ok 0 (rs\<lparr>recvNext := recvNext rs + 1\<rparr>)"
  unfolding dist_ok_def
proof
  fix k assume "k \<in> fset (fmdom (outOfOrder (rs\<lparr>recvNext := recvNext rs + 1\<rparr>)))"
  then have "k - recvNext rs \<noteq> 0" "unat (k - recvNext rs) < 2 ^ 31"
    using assms by (auto simp: dist_ok_def)
  then have "unat (k - recvNext rs - 1) < 2 ^ 31" by (simp add: unat_pred)
  then show "0 \<le> unat (k - recvNext (rs\<lparr>recvNext := recvNext rs + 1\<rparr>))
      \<and> unat (k - recvNext (rs\<lparr>recvNext := recvNext rs + 1\<rparr>)) < 2 ^ 31"
    by (simp add: diff_diff_eq)
qed


lemma dist_ok_deliver:
  "dist_ok lo (deliver data rs) = dist_ok lo rs"
  by (simp add: dist_ok_def deliver_def)

lemma dist_ok_mono: "dist_ok lo rs \<Longrightarrow> lo' \<le> lo \<Longrightarrow> dist_ok lo' rs"
  by (auto simp: dist_ok_def)

lemma dist_ok_fmdrop: "dist_ok lo rs \<Longrightarrow> dist_ok lo (rs\<lparr>outOfOrder := fmdrop k (outOfOrder rs)\<rparr>)"
  by (auto simp: dist_ok_def)

lemma buffer_inv_deliverOutOfOrder:
  "dist_ok 0 rs \<Longrightarrow> golen (outOfOrder rs) \<le> MaxOutOfOrderBuffer \<Longrightarrow> buffer_inv (deliverOutOfOrder rs)"
proof (induction rs rule: deliverOutOfOrder.induct)
  case (1 rs)
  show ?case
  proof (cases "fmlookup (outOfOrder rs) (recvNext rs)")
    case None
    have "dist_ok 1 rs" unfolding dist_ok_def
    proof
      fix k assume k: "k \<in> fset (fmdom (outOfOrder rs))"
      with None have "k - recvNext rs \<noteq> 0" by (auto simp: fmdom_notI)
      with k 1(2) show "1 \<le> unat (k - recvNext rs) \<and> unat (k - recvNext rs) < 2 ^ 31"
        by (simp add: dist_ok_def Suc_le_eq unat_gt_0)
    qed
    with None 1(3) show ?thesis by (simp add: deliverOutOfOrder.simps [of rs] buffer_inv_def)
  next
    case (Some data)
    let ?rs = "deliver data (rs\<lparr>outOfOrder := fmdrop (recvNext rs) (outOfOrder rs)\<rparr>)"
    have "dist_ok 0 (?rs\<lparr>recvNext := recvNext ?rs + 1\<rparr>)"
      using 1(2) by (intro dist_ok_next [of 0]) (auto simp: dist_ok_deliver dist_ok_fmdrop, simp add: deliver_def)
    moreover have "recvNext ?rs = recvNext rs" by (simp add: deliver_def)
    moreover have "golen (outOfOrder ?rs) \<le> MaxOutOfOrderBuffer"
      using golen_fmdrop_le [of "recvNext rs" "outOfOrder rs"] 1(3) by (simp add: deliver_def)
    ultimately have "buffer_inv (deliverOutOfOrder (?rs\<lparr>recvNext := recvNext rs + 1\<rparr>))"
      using 1(1) [OF Some] by simp
    with Some show ?thesis by (simp add: deliverOutOfOrder.simps [of rs])
  qed
qed

lemma buffer_inv_processData:
  assumes "buffer_inv rs"
  shows "buffer_inv (processData e seq data rs)"
proof -
  have d: "dist_ok 1 rs" "golen (outOfOrder rs) \<le> MaxOutOfOrderBuffer"
    using assms by (simp_all add: buffer_inv_def)
  have ne: "k \<noteq> recvNext rs" if "k |\<in>| fmdom (outOfOrder rs)" for k
    using d(1) that by (auto simp: dist_ok_def)
  have adv: "buffer_inv (deliverOutOfOrder ((deliver data rs)\<lparr>recvNext := recvNext rs + 1\<rparr>))"
    using d ne dist_ok_next [OF d(1)]
    by (intro buffer_inv_deliverOutOfOrder) (simp_all add: deliver_def dist_ok_def)
  have ins: "buffer_inv (rs\<lparr>outOfOrder := fmupd seq data (outOfOrder rs)\<rparr>)"
    if "seqGreater seq (recvNext rs)" "golen (outOfOrder rs) < MaxOutOfOrderBuffer"
      "fmlookup (outOfOrder rs) seq = None"
    using d that unfolding seqGreater_dist
    by (auto simp: buffer_inv_def dist_ok_def golen_fmupd_new fmdom_notI)
  show ?thesis
    using adv ins assms
    by (simp add: processData_def Let_def buffer_inv_view [OF recv_view_acks(1)]
        buffer_inv_view [OF recv_view_ops(8)] buffer_inv_view [OF recv_view_ops(9)])
qed

lemma buffer_inv_step:
  assumes "buffer_inv rs"
  shows "buffer_inv (stream_step op rs)"
proof (cases "\<exists>e pkt. op = OpReceive e pkt")
  case False
  then show ?thesis using assms buffer_inv_view recv_view_step by metis
next
  case True
  then obtain e pkt where op: "op = OpReceive e pkt" by blast
  have "buffer_inv (after_ack e pkt rs)" using assms buffer_inv_view recv_view_after_ack by metis
  then have inv: "buffer_inv (after_data e pkt rs)"
    by (simp add: after_data_def buffer_inv_processData)
  then have "buffer_inv (deliverOutOfOrder (after_data e pkt rs))"
    by (intro buffer_inv_deliverOutOfOrder) (auto simp: buffer_inv_def elim: dist_ok_mono)
  with inv op show ?thesis by (simp add: Receive_stages)
qed

lemma buffer_inv_run: "buffer_inv (stream_run sid ops)"
  by (rule stream_run_invariant)
    (simp_all add: buffer_inv_step, simp add: buffer_inv_def dist_ok_def NewReliableStream_def)

section \<open>Blocks\<close>

text \<open>The blocks without the limit on their number: the maximal runs of the sorted numbers.\<close>

fun all_blocks :: "sackblock \<Rightarrow> u32 list \<Rightarrow> sackblock list" where
  "all_blocks block [] = [block]"
| "all_blocks block (s # ss) =
     (if s = sb_Right block + 1 then all_blocks (block\<lparr>sb_Right := s\<rparr>) ss
      else block # all_blocks \<lparr>sb_Left = s, sb_Right = s\<rparr> ss)"

lemma build_blocks_take:
  "length blocks < MaxSackBlocks \<Longrightarrow>
   build_blocks blocks block ss = take MaxSackBlocks (blocks @ all_blocks block ss)"
proof (induction blocks block ss rule: build_blocks.induct)
  case (2 blocks block s ss)
  have "MaxSackBlocks - length blocks = 1" if "\<not> Suc (length blocks) < MaxSackBlocks"
    using 2(3) that by simp
  with 2 show ?case by (auto simp: Let_def not_le)
qed simp

text \<open>Distances from the base of the window; a block covers a range of distances.\<close>

definition covers :: "u32 \<Rightarrow> sackblock \<Rightarrow> u32 \<Rightarrow> bool" where
  "covers b blk x \<longleftrightarrow> unat (sb_Left blk - b) \<le> unat (x - b) \<and> unat (x - b) \<le> unat (sb_Right blk - b)"

definition block_ok :: "u32 \<Rightarrow> sackblock \<Rightarrow> bool" where
  "block_ok b blk \<longleftrightarrow> unat (sb_Left blk - b) \<le> unat (sb_Right blk - b) \<and> unat (sb_Right blk - b) < 2 ^ 31"

lemma dist_succ:
  fixes r b :: u32
  assumes "unat (r - b) < 2 ^ 31"
  shows "unat (r + 1 - b) = Suc (unat (r - b))"
proof -
  have "r + 1 - b = (r - b) + 1" by simp
  also have "unat \<dots> = Suc (unat (r - b))"
    using assms by (simp add: unat_word_ariths)
  finally show ?thesis .
qed

lemma all_blocks_covers:
  assumes "block_ok b blk" and "\<forall>x \<in> set ss. unat (sb_Right blk - b) < unat (x - b) \<and> unat (x - b) < 2 ^ 31"
    and "sorted_wrt (\<lambda>x y. unat (x - b) < unat (y - b)) ss"
  shows "(\<forall>x. (\<exists>c \<in> set (all_blocks blk ss). covers b c x) \<longleftrightarrow> covers b blk x \<or> x \<in> set ss)
    \<and> sorted_wrt (\<lambda>c d. unat (sb_Right c - b) < unat (sb_Left d - b)) (all_blocks blk ss)
    \<and> (\<forall>c \<in> set (all_blocks blk ss). block_ok b c \<and> unat (sb_Left blk - b) \<le> unat (sb_Left c - b))"
  using assms
proof (induction blk ss rule: all_blocks.induct)
  case (1 block)
  then show ?case by simp
next
  case (2 block s ss)
  show ?case
  proof (cases "s = sb_Right block + 1")
    case True
    have r: "unat (s - b) = Suc (unat (sb_Right block - b))"
      using 2(3) True by (simp add: dist_succ block_ok_def)
    have "covers b (block\<lparr>sb_Right := s\<rparr>) x \<longleftrightarrow> covers b block x \<or> x = s" for x
      using r 2(3) window_dist_inj [of x b s]
      by (auto simp: covers_def block_ok_def le_Suc_eq)
    moreover have "block_ok b (block\<lparr>sb_Right := s\<rparr>)" using 2(3,4) r by (simp add: block_ok_def)
    ultimately show ?thesis using 2(1) True 2(4,5) by auto
  next
    case False
    let ?n = "\<lparr>sb_Left = s, sb_Right = s\<rparr>"
    have "block_ok b ?n" using 2(4) by (simp add: block_ok_def)
    then have IH: "\<forall>x. (\<exists>c \<in> set (all_blocks ?n ss). covers b c x) \<longleftrightarrow> covers b ?n x \<or> x \<in> set ss"
      "sorted_wrt (\<lambda>c d. unat (sb_Right c - b) < unat (sb_Left d - b)) (all_blocks ?n ss)"
      "\<forall>c \<in> set (all_blocks ?n ss). block_ok b c \<and> unat (s - b) \<le> unat (sb_Left c - b)"
      using 2(2) False 2(4,5) by auto
    have "covers b ?n x \<longleftrightarrow> x = s" for x
      using window_dist_inj [of x b s] by (auto simp: covers_def)
    moreover have "unat (sb_Right block - b) < unat (s - b)" "block_ok b block" using 2(3,4) by auto
    ultimately show ?thesis using IH False by (auto simp: block_ok_def)
  qed
qed


lemma in_sack_covers:
  assumes "x \<in> window b" and "\<forall>c \<in> set blocks. block_ok b c"
  shows "in_sack x blocks \<longleftrightarrow> (\<exists>c \<in> set blocks. covers b c x)"
proof -
  have "\<not> seqLess x (sb_Left c) \<and> seqLessOrEqual x (sb_Right c) \<longleftrightarrow> covers b c x"
    if "c \<in> set blocks" for c
  proof -
    have "sb_Left c \<in> window b" "sb_Right c \<in> window b"
      using assms(2) that by (auto simp: block_ok_def window_def)
    with assms(1) show ?thesis by (simp add: window_compare [of _ b] covers_def not_less)
  qed
  then show ?thesis by (auto simp: in_sack_def list_ex_iff)
qed

lemma last_right:
  assumes "sorted_wrt (\<lambda>c d. unat (sb_Right c - b) < unat (sb_Left d - b)) ts"
    and "\<forall>c \<in> set ts. block_ok b c" and "c \<in> set ts"
  shows "unat (sb_Right c - b) \<le> unat (sb_Right (last ts) - b)"
proof (cases ts rule: rev_cases)
  case Nil
  with assms(3) show ?thesis by simp
next
  case (snoc ys y)
  with assms show ?thesis by (auto simp: sorted_wrt_append block_ok_def dest!: bspec)
qed

lemma take_blocks_covers:
  assumes s: "sorted_wrt (\<lambda>c d. unat (sb_Right c - b) < unat (sb_Left d - b)) blocks"
    and ok: "\<forall>c \<in> set blocks. block_ok b c" and n: "0 < n" "blocks \<noteq> []"
  shows "(\<exists>c \<in> set (take n blocks). covers b c x) \<longleftrightarrow>
    (\<exists>c \<in> set blocks. covers b c x) \<and> unat (x - b) \<le> unat (sb_Right (last (take n blocks)) - b)"
proof -
  define ts ds where "ts = take n blocks" and "ds = drop n blocks"
  have blocks: "blocks = ts @ ds" and ne: "ts \<noteq> []" using n by (simp_all add: ts_def ds_def)
  have right: "unat (sb_Right c - b) \<le> unat (sb_Right (last ts) - b)" if "c \<in> set ts" for c
    using s ok that unfolding blocks by (intro last_right) (auto simp: sorted_wrt_append)
  have left: "unat (sb_Right (last ts) - b) < unat (sb_Left c - b)" if "c \<in> set ds" for c
    using s that ne unfolding blocks sorted_wrt_append by auto
  show ?thesis unfolding ts_def [symmetric]
  proof
    assume "\<exists>c \<in> set ts. covers b c x"
    then show "(\<exists>c \<in> set blocks. covers b c x) \<and> unat (x - b) \<le> unat (sb_Right (last ts) - b)"
      using right blocks by (auto simp: covers_def intro: order_trans)
  next
    assume a: "(\<exists>c \<in> set blocks. covers b c x) \<and> unat (x - b) \<le> unat (sb_Right (last ts) - b)"
    then obtain c where c: "c \<in> set blocks" "covers b c x" by blast
    have "c \<notin> set ds" using left [of c] a c(2) by (auto simp: covers_def)
    with c blocks show "\<exists>c \<in> set ts. covers b c x" by auto
  qed
qed

lemma sorted_seqs:
  assumes inv: "buffer_inv rs" and it: "iter_ok iter"
  defines "ss \<equiv> insertion_sort seqLess (iter (fmdom (outOfOrder rs)))"
  shows "set ss = fset (fmdom (outOfOrder rs))" and "set ss \<subseteq> window (recvNext rs)"
    and "sorted_wrt (\<lambda>x y. unat (x - recvNext rs) < unat (y - recvNext rs)) ss"
    and "iter_ok iter' \<Longrightarrow> insertion_sort seqLess (iter' (fmdom (outOfOrder rs))) = ss"
proof -
  have w: "set (iter (fmdom (outOfOrder rs))) \<subseteq> window (recvNext rs)"
    using inv iter_okD(2) [OF it] by (auto simp: buffer_inv_def dist_ok_def window_def)
  note srt = win.insertion_sort_correct [OF w iter_okD(1) [OF it], folded ss_def]
  show "set ss = fset (fmdom (outOfOrder rs))"
    using mset_eq_setD [OF srt(2)] iter_okD(2) [OF it] by simp
  then show sub: "set ss \<subseteq> window (recvNext rs)" using w iter_okD(2) [OF it] by simp
  show "sorted_wrt (\<lambda>x y. unat (x - recvNext rs) < unat (y - recvNext rs)) ss"
    by (rule sorted_wrt_mono_rel [OF _ srt(1)]) (use sub window_compare(1) in blast)
  show "insertion_sort seqLess (iter' (fmdom (outOfOrder rs))) = ss" if "iter_ok iter'"
    unfolding ss_def using iter_okD [OF it] iter_okD [OF that] w
    by (intro win.insertion_sort_order_free [of _ _ "recvNext rs"]) auto
qed

lemma buildSackBlocks_cases:
  assumes inv: "buffer_inv rs" and it: "iter_ok (e_iter e)"
  obtains "fmdom (outOfOrder rs) = {||}" "buildSackBlocks e rs = []"
  | blocks where "buildSackBlocks e rs = take MaxSackBlocks blocks" "blocks \<noteq> []"
    "\<forall>c \<in> set blocks. block_ok (recvNext rs) c"
    "sorted_wrt (\<lambda>c d. unat (sb_Right c - recvNext rs) < unat (sb_Left d - recvNext rs)) blocks"
    "\<forall>x. (\<exists>c \<in> set blocks. covers (recvNext rs) c x) \<longleftrightarrow> x |\<in>| fmdom (outOfOrder rs)"
proof (cases "insertion_sort seqLess (e_iter e (fmdom (outOfOrder rs)))")
  case Nil
  then have "fmdom (outOfOrder rs) = {||}" using sorted_seqs(1) [OF assms] by auto
  with Nil that(1) show ?thesis by (simp add: buildSackBlocks_def)
next
  case (Cons s ss)
  let ?b = "recvNext rs" and ?blk = "\<lparr>sb_Left = s, sb_Right = s\<rparr>"
  note srt = sorted_seqs [OF assms, unfolded Cons]
  have ok: "block_ok ?b ?blk" using srt(2) by (auto simp: block_ok_def window_def)
  have gt: "\<forall>x \<in> set ss. unat (sb_Right ?blk - ?b) < unat (x - ?b) \<and> unat (x - ?b) < 2 ^ 31"
    using srt(2,3) by (auto simp: window_def)
  have "golen (outOfOrder rs) \<noteq> 0" using srt(1) by (auto simp: golen_zero_iff)
  then have bs: "buildSackBlocks e rs = take MaxSackBlocks (all_blocks ?blk ss)"
    using Cons by (simp add: buildSackBlocks_def build_blocks_take MaxSackBlocks_def)
  have "covers ?b ?blk x \<longleftrightarrow> x = s" for x
    using window_dist_inj [of x ?b s] by (auto simp: covers_def)
  then have "\<forall>x. covers ?b ?blk x \<or> x \<in> set ss \<longleftrightarrow> x |\<in>| fmdom (outOfOrder rs)"
    using srt(1) by auto
  with all_blocks_covers [OF ok gt] srt(3) show ?thesis
    by (intro that(2) [OF bs]) (cases ss, auto)
qed


lemma buildSackBlocks_order_free:
  assumes "buffer_inv rs" and "iter_ok (e_iter e)" and "iter_ok (e_iter e')"
  shows "buildSackBlocks e' rs = buildSackBlocks e rs"
  unfolding buildSackBlocks_def by (simp only: sorted_seqs(4) [OF assms])

lemma in_buildSackBlocks:
  assumes inv: "buffer_inv rs" "iter_ok (e_iter e)" and x: "x \<in> window (recvNext rs)"
  shows "in_sack x (buildSackBlocks e rs) \<longleftrightarrow>
    x |\<in>| fmdom (outOfOrder rs) \<and> seqLessOrEqual x (sb_Right (last (buildSackBlocks e rs)))"
proof (cases rule: buildSackBlocks_cases [OF inv])
  case 1
  then show ?thesis by (simp add: in_sack_def)
next
  case (2 blocks)
  let ?bs = "take MaxSackBlocks blocks" and ?b = "recvNext rs"
  have ok: "\<forall>c \<in> set ?bs. block_ok ?b c" using 2(3) by (meson in_set_takeD)
  have "?bs \<noteq> []" using 2(2) by (simp add: MaxSackBlocks_def)
  then have "sb_Right (last ?bs) \<in> window ?b"
    using bspec [OF ok last_in_set] by (simp add: block_ok_def window_def)
  then have "seqLessOrEqual x (sb_Right (last ?bs)) \<longleftrightarrow>
      unat (x - ?b) \<le> unat (sb_Right (last ?bs) - ?b)"
    using x by (simp add: window_compare [of _ ?b])
  with 2 show ?thesis
    using in_sack_covers [OF x ok] take_blocks_covers [OF 2(4,3)] by (simp add: MaxSackBlocks_def)
qed

lemma few_blocks_complete:
  assumes inv: "buffer_inv rs" "iter_ok (e_iter e)" and n: "length (buildSackBlocks e rs) < MaxSackBlocks"
    and x: "x |\<in>| fmdom (outOfOrder rs)"
  shows "in_sack x (buildSackBlocks e rs)"
proof (cases rule: buildSackBlocks_cases [OF inv])
  case 1
  with x show ?thesis by simp
next
  case (2 blocks)
  then have "buildSackBlocks e rs = blocks" using n by simp
  moreover have "x \<in> window (recvNext rs)"
    using inv(1) x by (auto simp: buffer_inv_def dist_ok_def window_def)
  ultimately show ?thesis using 2(3,5) x by (simp add: in_sack_covers)
qed

section \<open>Properties\<close>

text \<open>
  C16. The out-of-order buffer is bounded. Whatever a peer sends and whatever the stream does, the
  buffer never holds more than 16384 blocks, and they all lie in the half window strictly above the
  next expected sequence number.
\<close>

theorem buffer_bounded:
  "golen (outOfOrder (stream_run sid ops)) \<le> MaxOutOfOrderBuffer
   \<and> (\<forall>k. k |\<in>| fmdom (outOfOrder (stream_run sid ops))
           \<longrightarrow> seqGreater k (recvNext (stream_run sid ops)))"
  using buffer_inv_run [of sid ops] by (simp add: buffer_inv_def dist_ok_def seqGreater_dist)

theorem buffer_bounded_witness:
  "golen (outOfOrder (stream_run 5 [OpReceive (env_at 0) (block_packet 3 [10])])) \<le> MaxOutOfOrderBuffer
   \<and> seqGreater 3 (recvNext (stream_run 5 [OpReceive (env_at 0) (block_packet 3 [10])]))"
proof -
  have "3 |\<in>| fmdom (outOfOrder (stream_run 5 [OpReceive (env_at 0) (block_packet 3 [10])]))"
    by code_simp
  then show ?thesis
    using buffer_bounded [of 5 "[OpReceive (env_at 0) (block_packet 3 [10])]"] by blast
qed

text \<open>
  C10. SACK blocks are exact. In every state a stream reaches, for whatever packets: at most four
  blocks are reported; a sequence number of the window is covered by a block exactly when its
  packet is in the buffer and not beyond the last reported block; with fewer than four blocks
  everything buffered is reported; and the blocks do not depend on the iteration order of the map.
\<close>

theorem sack_blocks_exact:
  assumes "rs = stream_run sid ops" and "iter_ok (e_iter e)"
  shows "length (buildSackBlocks e rs) \<le> MaxSackBlocks
    \<and> (\<forall>x \<in> window (recvNext rs). in_sack x (buildSackBlocks e rs) \<longleftrightarrow>
         x |\<in>| fmdom (outOfOrder rs) \<and> seqLessOrEqual x (sb_Right (last (buildSackBlocks e rs))))
    \<and> (length (buildSackBlocks e rs) < MaxSackBlocks \<longrightarrow>
         (\<forall>x. x |\<in>| fmdom (outOfOrder rs) \<longrightarrow> in_sack x (buildSackBlocks e rs)))
    \<and> (\<forall>e'. iter_ok (e_iter e') \<longrightarrow> buildSackBlocks e' rs = buildSackBlocks e rs)"
proof -
  have "buffer_inv rs" using assms(1) buffer_inv_run by simp
  with assms(2) show ?thesis
    using length_buildSackBlocks in_buildSackBlocks few_blocks_complete buildSackBlocks_order_free
    by blast
qed

theorem sack_blocks_exact_witness:
  "in_sack 3 (buildSackBlocks (env_at 0) (stream_run 5 [OpReceive (env_at 0) (block_packet 3 [10])]))"
proof -
  let ?ops = "[OpReceive (env_at 0) (block_packet 3 [10])]"
  have "length (buildSackBlocks (env_at 0) (stream_run 5 ?ops)) < MaxSackBlocks"
    and "3 |\<in>| fmdom (outOfOrder (stream_run 5 ?ops))" by code_simp+
  then show ?thesis
    using sack_blocks_exact [OF refl env_at_iter] by blast
qed

end
