(* ===== verification/ConnManager.thy ===== *)
theory ConnManager
  imports Frames
begin

text \<open>
  Virtual connections over frames, pkg/tunnel/manager.go: \<open>Connection\<close> (chunked writes, buffered
  reads) and \<open>Manager\<close> (handshake, dispatch of frames, closing). Connections are objects that the
  table, the accept queue and their users share: they live in a store \<open>m_objs\<close> and are referred to by
  their index. A panic is \<open>None\<close>.
\<close>

section \<open>State\<close>

definition MaxPayloadSize :: nat where "MaxPayloadSize = 1400"
definition ReadChannelSize :: nat where "ReadChannelSize = 16384"
definition AcceptChannelSize :: nat where "AcceptChannelSize = 64"

text \<open>
  The channels \<open>established\<close> and \<open>closeCh\<close> are only ever closed: a flag says whether they are. A
  nil slice in \<open>readCh\<close> is \<open>None\<close>.
\<close>

record connection =
  c_ID :: u32
  c_readCh :: "bytes option list"
  c_readBuf :: bytes
  c_established :: bool
  c_closed :: bool
  c_closeCh :: bool
  c_seq :: u32
  c_packetsDropped :: u64

text \<open>
  \<open>m_sent\<close> records the calls of \<open>sendFunc\<close>, \<open>m_started\<close> the connections given to \<open>onConnect\<close>;
  \<open>m_onConnect\<close> says whether that callback is set.
\<close>

record manager =
  m_objs :: "connection list"
  m_connections :: "(u32, nat) fmap"
  m_connIDSeq :: u32
  m_acceptCh :: "nat list"
  m_acceptClosed :: bool
  m_onConnect :: bool
  m_started :: "nat list"
  m_sent :: "bytes list"
  m_framesSent :: u64
  m_framesReceived :: u64
  m_bytesPayloadSent :: u64
  m_bytesPayloadRecv :: u64
  m_packetsDropped :: u64

definition NewConnection :: "u32 \<Rightarrow> connection" where
  "NewConnection cid =
     \<lparr>c_ID = cid, c_readCh = [], c_readBuf = [], c_established = False, c_closed = False,
      c_closeCh = False, c_seq = 0, c_packetsDropped = 0\<rparr>"

definition NewManager :: manager where
  "NewManager =
     \<lparr>m_objs = [], m_connections = fmempty, m_connIDSeq = 0, m_acceptCh = [],
      m_acceptClosed = False, m_onConnect = False, m_started = [], m_sent = [], m_framesSent = 0,
      m_framesReceived = 0, m_bytesPayloadSent = 0, m_bytesPayloadRecv = 0, m_packetsDropped = 0\<rparr>"

definition SetOnConnect :: "bool \<Rightarrow> manager \<Rightarrow> manager" where
  "SetOnConnect fn m = m\<lparr>m_onConnect := fn\<rparr>"

text \<open>The object store.\<close>

definition get_conn :: "nat \<Rightarrow> manager \<Rightarrow> connection" where
  "get_conn a m = m_objs m ! a"

definition set_conn :: "nat \<Rightarrow> connection \<Rightarrow> manager \<Rightarrow> manager" where
  "set_conn a c m = m\<lparr>m_objs := (m_objs m)[a := c]\<rparr>"

definition new_conn :: "u32 \<Rightarrow> manager \<Rightarrow> nat \<times> manager" where
  "new_conn cid m = (length (m_objs m), m\<lparr>m_objs := m_objs m @ [NewConnection cid]\<rparr>)"

section \<open>Connection operations\<close>

definition markEstablished :: "connection \<Rightarrow> connection" where
  "markEstablished c = c\<lparr>c_established := True\<rparr>"

text \<open>
  \<open>waitEstablished\<close>: the case of the \<open>select\<close> that fires; a case that is not ready stands for the
  timeout.
\<close>

datatype dial_wake = DialEstablished | DialTimeout | DialClosed

definition waitEstablished :: "dial_wake \<Rightarrow> connection \<Rightarrow> go_error option" where
  "waitEstablished w c =
     (case w of
        DialEstablished \<Rightarrow> if c_established c then None else Some ErrDialTimeout
      | DialTimeout \<Rightarrow> Some ErrDialTimeout
      | DialClosed \<Rightarrow> if c_closeCh c then Some ErrEOF else Some ErrDialTimeout)"

text \<open>\<open>bytes.Buffer.Read\<close> of the standard library, for a destination of \<open>n\<close> bytes.\<close>

definition buffer_Read :: "nat \<Rightarrow> bytes \<Rightarrow> (bytes \<times> go_error option) \<times> bytes" where
  "buffer_Read n buf =
     (if buf = [] then (([], if n = 0 then None else Some ErrEOF), [])
      else ((take n buf, None), drop n buf))"

text \<open>The drain loop of \<open>Read\<close> for a destination of \<open>n\<close> bytes: queue and buffer afterwards.\<close>

fun drain_loop :: "nat \<Rightarrow> bytes option list \<Rightarrow> bytes \<Rightarrow> bytes option list \<times> bytes" where
  "drain_loop n [] buf = ([], buf)"
| "drain_loop n (None # q) buf = (q, buf)"
| "drain_loop n (Some d # q) buf =
     (let buf = buf @ d in if length buf \<ge> n then (q, buf) else drain_loop n q buf)"

text \<open>
  \<open>Read\<close>: the bytes read with the error, and the connection; the outer \<open>None\<close> means that the call
  blocks. When both channels are ready, \<open>pick_data\<close> says which case the \<open>select\<close> takes.
\<close>

definition conn_Read ::
  "bool \<Rightarrow> nat \<Rightarrow> connection \<Rightarrow> ((bytes \<times> go_error option) \<times> connection) option" where
  "conn_Read pick_data n c =
     (if length (c_readBuf c) > 0 then
        let (res, buf) = buffer_Read n (c_readBuf c) in Some (res, c\<lparr>c_readBuf := buf\<rparr>)
      else if c_closed c then Some (([], Some ErrEOF), c)
      else if c_closeCh c \<and> (c_readCh c = [] \<or> \<not> pick_data) then Some (([], Some ErrEOF), c)
      else case c_readCh c of
        [] \<Rightarrow> None
      | None # q \<Rightarrow> Some (([], Some ErrEOF), c\<lparr>c_readCh := q\<rparr>)
      | Some d # q \<Rightarrow>
          let (q, buf) = drain_loop n q (c_readBuf c @ d);
              (res, buf) = buffer_Read n buf
          in Some (res, c\<lparr>c_readCh := q, c_readBuf := buf\<rparr>))"

text \<open>\<open>deliver\<close>: the non-blocking send into \<open>readCh\<close> drops the data when the queue is full.\<close>

definition conn_deliver :: "bytes \<Rightarrow> connection \<Rightarrow> connection" where
  "conn_deliver data c =
     (if c_closed c then c
      else if length (c_readCh c) < ReadChannelSize then c\<lparr>c_readCh := c_readCh c @ [Some data]\<rparr>
      else if c_closeCh c then c
      else c\<lparr>c_packetsDropped := c_packetsDropped c + 1\<rparr>)"

section \<open>Sending\<close>

text \<open>\<open>sendFrame\<close>; the first argument is what \<open>sendFunc\<close> returns for a buffer.\<close>

definition sendFrame :: "(bytes \<Rightarrow> go_error option) \<Rightarrow> frame \<Rightarrow> manager \<Rightarrow> go_error option \<times> manager" where
  "sendFrame send f m =
     (let data = Frame_Marshal f;
          m = m\<lparr>m_framesSent := m_framesSent m + 1\<rparr>;
          m = (if f_Type f = FrameData
               then m\<lparr>m_bytesPayloadSent := m_bytesPayloadSent m + of_nat (length (f_Payload f))\<rparr>
               else m)
      in (send data, m\<lparr>m_sent := m_sent m @ [data]\<rparr>))"

text \<open>One data frame of a \<open>Write\<close>: the sequence number, then \<open>sendFrame\<close>.\<close>

definition write_frame ::
  "(bytes \<Rightarrow> go_error option) \<Rightarrow> nat \<Rightarrow> bytes \<Rightarrow> manager \<Rightarrow> go_error option \<times> manager" where
  "write_frame send a chunk m =
     (let c = get_conn a m;
          seq = c_seq c + 1;
          m = set_conn a (c\<lparr>c_seq := seq\<rparr>) m
      in sendFrame send (NewDataFrame (c_ID c) seq chunk) m)"

text \<open>The loop of \<open>Write\<close> over the chunks; the result is the number of bytes written.\<close>

function write_loop ::
  "(bytes \<Rightarrow> go_error option) \<Rightarrow> nat \<Rightarrow> bytes \<Rightarrow> nat \<Rightarrow> manager
   \<Rightarrow> (nat \<times> go_error option) \<times> manager" where
  "write_loop send a p written m =
     (if written < length p then
        let end' = (if written + MaxPayloadSize > length p then length p else written + MaxPayloadSize);
            chunk = slice written end' p
        in case write_frame send a chunk m of
             (Some err, m) \<Rightarrow> ((written, Some err), m)
           | (None, m) \<Rightarrow> write_loop send a p end' m
      else ((written, None), m))"
  by pat_completeness auto
termination
  by (relation "measure (\<lambda>(send, a, p, written, m). length p - written)")
    (auto simp: MaxPayloadSize_def split: if_splits)

declare write_loop.simps [simp del]

definition conn_Write ::
  "(bytes \<Rightarrow> go_error option) \<Rightarrow> nat \<Rightarrow> bytes \<Rightarrow> manager \<Rightarrow> (nat \<times> go_error option) \<times> manager" where
  "conn_Write send a p m =
     (if c_closed (get_conn a m) then ((0, Some ErrClosedPipe), m)
      else if length p \<le> MaxPayloadSize then
        case write_frame send a p m of
          (Some err, m) \<Rightarrow> ((0, Some err), m)
        | (None, m) \<Rightarrow> ((length p, None), m)
      else write_loop send a p 0 m)"

section \<open>Closing, dialling, accepting\<close>

definition removeConnection :: "u32 \<Rightarrow> manager \<Rightarrow> manager" where
  "removeConnection cid m = m\<lparr>m_connections := fmdrop cid (m_connections m)\<rparr>"

text \<open>
  \<open>Connection.Close\<close>, one step: the states between the swap of \<open>closed\<close>, the closing of \<open>closeCh\<close>, the FIN and
  the removal from the table, which concurrent calls can see, are not part of the model.
\<close>

definition conn_Close :: "(bytes \<Rightarrow> go_error option) \<Rightarrow> nat \<Rightarrow> manager \<Rightarrow> manager" where
  "conn_Close send a m =
     (let c = get_conn a m
      in if c_closed c then m
      else
        let m = set_conn a (c\<lparr>c_closed := True, c_closeCh := True\<rparr>) m;
            (_, m) = sendFrame send (NewFinFrame (c_ID c)) m
        in removeConnection (c_ID c) m)"

text \<open>
  \<open>Dial\<close>: while it waits for the handshake, \<open>others\<close> is what other goroutines do to the manager; when they panic,
  the program does.
\<close>

definition Dial ::
  "(bytes \<Rightarrow> go_error option) \<Rightarrow> dial_wake \<Rightarrow> (manager \<Rightarrow> manager option) \<Rightarrow> manager
   \<Rightarrow> ((go_error + nat) \<times> manager) option" where
  "Dial send w others m =
     (let connID = m_connIDSeq m + 1;
          m = m\<lparr>m_connIDSeq := connID\<rparr>;
          (a, m) = new_conn connID m;
          m = m\<lparr>m_connections := fmupd connID a (m_connections m)\<rparr>
      in case sendFrame send (NewSynFrame connID) m of
           (Some err, m) \<Rightarrow> Some (Inl err, removeConnection connID m)
         | (None, m) \<Rightarrow>
             (case others m of
                None \<Rightarrow> None
              | Some m \<Rightarrow>
                  Some (case waitEstablished w (get_conn a m) of
                          Some err \<Rightarrow> (Inl err, removeConnection connID m)
                        | None \<Rightarrow> (Inr a, m))))"

text \<open>\<open>Accept\<close>: the outer \<open>None\<close> means that the call blocks.\<close>

definition Accept :: "manager \<Rightarrow> ((go_error + nat) \<times> manager) option" where
  "Accept m =
     (case m_acceptCh m of
        a # q \<Rightarrow> Some (Inr a, m\<lparr>m_acceptCh := q\<rparr>)
      | [] \<Rightarrow> if m_acceptClosed m then Some (Inl ErrEOF, m) else None)"

section \<open>Incoming frames\<close>

definition handle_syn ::
  "(bytes \<Rightarrow> go_error option) \<Rightarrow> u32 \<Rightarrow> manager \<Rightarrow> (go_error option \<times> manager) option" where
  "handle_syn send cid m =
     (let (a, m) = new_conn cid m;
          m = set_conn a (markEstablished (get_conn a m)) m;
          m = m\<lparr>m_connections := fmupd cid a (m_connections m)\<rparr>
      in case sendFrame send (NewSynAckFrame cid) m of
           (Some err, m) \<Rightarrow> Some (Some err, m)
         | (None, m) \<Rightarrow>
             if m_onConnect m then Some (None, m\<lparr>m_started := m_started m @ [a]\<rparr>)
             else if m_acceptClosed m then None
             else if length (m_acceptCh m) < AcceptChannelSize
             then Some (None, m\<lparr>m_acceptCh := m_acceptCh m @ [a]\<rparr>)
             else Some (None, m))"

definition handle_data :: "u32 \<Rightarrow> bytes \<Rightarrow> manager \<Rightarrow> manager" where
  "handle_data cid payload m =
     (case fmlookup (m_connections m) cid of
        None \<Rightarrow> m
      | Some a \<Rightarrow>
          let c = conn_deliver payload (get_conn a m);
              m = set_conn a c m
          in if c_packetsDropped c > 0 then m\<lparr>m_packetsDropped := c_packetsDropped c\<rparr> else m)"

definition handle_fin :: "(bytes \<Rightarrow> go_error option) \<Rightarrow> u32 \<Rightarrow> manager \<Rightarrow> manager" where
  "handle_fin send cid m =
     (case fmlookup (m_connections m) cid of
        None \<Rightarrow> m
      | Some a \<Rightarrow>
          let c = get_conn a m
          in if c_closed c then m
          else
            let m = set_conn a (c\<lparr>c_closed := True, c_closeCh := True\<rparr>) m;
                m = removeConnection cid m
            in snd (sendFrame send (NewFinAckFrame cid) m))"

definition HandleFrame ::
  "(bytes \<Rightarrow> go_error option) \<Rightarrow> bytes \<Rightarrow> manager \<Rightarrow> (go_error option \<times> manager) option" where
  "HandleFrame send data m =
     (case UnmarshalFrame data of
        Inl err \<Rightarrow> Some (Some err, m)
      | Inr f \<Rightarrow>
          let m = m\<lparr>m_framesReceived := m_framesReceived m + 1\<rparr>;
              m = (if f_Type f = FrameData
                   then m\<lparr>m_bytesPayloadRecv := m_bytesPayloadRecv m + of_nat (length (f_Payload f))\<rparr>
                   else m)
          in if f_Type f = FrameSyn then handle_syn send (f_ConnID f) m
          else if f_Type f = FrameSynAck then
            Some (None, case fmlookup (m_connections m) (f_ConnID f) of
                          None \<Rightarrow> m | Some a \<Rightarrow> set_conn a (markEstablished (get_conn a m)) m)
          else if f_Type f = FrameData then Some (None, handle_data (f_ConnID f) (f_Payload f) m)
          else if f_Type f = FrameFin then Some (None, handle_fin send (f_ConnID f) m)
          else if f_Type f = FrameFinAck then Some (None, removeConnection (f_ConnID f) m)
          else if f_Type f = FramePing then Some (None, snd (sendFrame send NewPongFrame m))
          else Some (None, m))"

text \<open>
  \<open>Close\<close>: every connection of the table is closed, in the iteration order \<open>iter\<close>, then the accept
  channel; closing it a second time panics.
\<close>

definition manager_Close ::
  "(bytes \<Rightarrow> go_error option) \<Rightarrow> (u32 fset \<Rightarrow> u32 list) \<Rightarrow> manager \<Rightarrow> manager option" where
  "manager_Close send iter m =
     (let m = fold (\<lambda>cid m. case fmlookup (m_connections m) cid of
                              None \<Rightarrow> m | Some a \<Rightarrow> conn_Close send a m)
                (iter (fmdom (m_connections m))) m
      in if m_acceptClosed m then None else Some (m\<lparr>m_acceptClosed := True\<rparr>))"

definition Stats :: "manager \<Rightarrow> u64 \<times> u64 \<times> u64 \<times> u64 \<times> u64" where
  "Stats m =
     (m_framesSent m, m_framesReceived m, m_bytesPayloadSent m, m_bytesPayloadRecv m,
      m_packetsDropped m)"

section \<open>Chunked writing\<close>

text \<open>The chunks of a write and their frames, written down without the loop.\<close>

function chunks :: "bytes \<Rightarrow> bytes list" where
  "chunks p = (if p = [] then [] else take MaxPayloadSize p # chunks (drop MaxPayloadSize p))"
  by pat_completeness auto
termination
  by (relation "measure length") (auto simp: MaxPayloadSize_def)

declare chunks.simps [simp del]

lemma chunks_Nil [simp]: "chunks [] = []"
  by (simp add: chunks.simps)

lemma chunks_step: "p \<noteq> [] \<Longrightarrow> chunks p = take MaxPayloadSize p # chunks (drop MaxPayloadSize p)"
  by (subst chunks.simps) simp

lemma concat_chunks: "concat (chunks p) = p"
proof (induction p rule: chunks.induct)
  case (1 p)
  then show ?case by (cases "p = []") (simp_all add: chunks_step)
qed

lemma chunks_size: "c \<in> set (chunks p) \<Longrightarrow> c \<noteq> [] \<and> length c \<le> MaxPayloadSize"
proof (induction p rule: chunks.induct)
  case (1 p)
  then show ?case by (cases "p = []") (auto simp: chunks_step MaxPayloadSize_def)
qed

lemma chunks_small: "p \<noteq> [] \<Longrightarrow> length p \<le> MaxPayloadSize \<Longrightarrow> chunks p = [p]"
  by (simp add: chunks_step)

fun data_frames :: "u32 \<Rightarrow> u32 \<Rightarrow> bytes list \<Rightarrow> frame list" where
  "data_frames cid seq [] = []"
| "data_frames cid seq (c # cs) = NewDataFrame cid (seq + 1) c # data_frames cid (seq + 1) cs"

lemma length_data_frames [simp]: "length (data_frames cid seq cs) = length cs"
  by (induction cs arbitrary: seq) simp_all

lemma data_frames_payload: "map f_Payload (data_frames cid seq cs) = cs"
  by (induction cs arbitrary: seq) (simp_all add: NewDataFrame_def)

text \<open>The object store.\<close>

lemma get_set_conn [simp]:
  "a < length (m_objs m) \<Longrightarrow> get_conn a (set_conn a c m) = c"
  "a \<noteq> b \<Longrightarrow> get_conn b (set_conn a c m) = get_conn b m"
  by (simp_all add: get_conn_def set_conn_def)

lemma set_conn_fields [simp]:
  "m_connections (set_conn a c m) = m_connections m" "m_sent (set_conn a c m) = m_sent m"
  "length (m_objs (set_conn a c m)) = length (m_objs m)"
  "m_acceptCh (set_conn a c m) = m_acceptCh m" "m_acceptClosed (set_conn a c m) = m_acceptClosed m"
  "m_onConnect (set_conn a c m) = m_onConnect m" "m_started (set_conn a c m) = m_started m"
  by (simp_all add: set_conn_def)

lemma sendFrame_fields [simp]:
  "m_objs (snd (sendFrame send f m)) = m_objs m"
  "m_connections (snd (sendFrame send f m)) = m_connections m"
  "m_sent (snd (sendFrame send f m)) = m_sent m @ [Frame_Marshal f]"
  "m_acceptCh (snd (sendFrame send f m)) = m_acceptCh m"
  "m_acceptClosed (snd (sendFrame send f m)) = m_acceptClosed m"
  "m_onConnect (snd (sendFrame send f m)) = m_onConnect m"
  "m_started (snd (sendFrame send f m)) = m_started m"
  "fst (sendFrame send f m) = send (Frame_Marshal f)"
  by (simp_all add: sendFrame_def Let_def)

lemma get_conn_sendFrame [simp]: "get_conn a (snd (sendFrame send f m)) = get_conn a m"
  by (simp add: get_conn_def)

definition next_frame :: "nat \<Rightarrow> bytes \<Rightarrow> manager \<Rightarrow> frame" where
  "next_frame a chunk m = NewDataFrame (c_ID (get_conn a m)) (c_seq (get_conn a m) + 1) chunk"

lemma write_frame_fields:
  assumes "a < length (m_objs m)"
  shows "fst (write_frame send a chunk m) = send (Frame_Marshal (next_frame a chunk m))"
    and "m_sent (snd (write_frame send a chunk m)) = m_sent m @ [Frame_Marshal (next_frame a chunk m)]"
    and "get_conn a (snd (write_frame send a chunk m)) = (get_conn a m)\<lparr>c_seq := c_seq (get_conn a m) + 1\<rparr>"
    and "length (m_objs (snd (write_frame send a chunk m))) = length (m_objs m)"
  using assms by (simp_all add: write_frame_def next_frame_def Let_def)

text \<open>How many frames go out before one fails, and what the call reports.\<close>

definition sent_ok :: "(bytes \<Rightarrow> go_error option) \<Rightarrow> bytes list \<Rightarrow> nat" where
  "sent_ok send fs = length (takeWhile (\<lambda>b. send b = None) fs)"

lemma sent_ok_Cons:
  "sent_ok send (b # fs) = (case send b of None \<Rightarrow> Suc (sent_ok send fs) | Some _ \<Rightarrow> 0)"
  by (simp add: sent_ok_def split: option.split)

definition frames_from :: "nat \<Rightarrow> manager \<Rightarrow> bytes list \<Rightarrow> bytes list" where
  "frames_from a m cs = map Frame_Marshal (data_frames (c_ID (get_conn a m)) (c_seq (get_conn a m)) cs)"

lemma frames_from_Nil [simp]: "frames_from a m [] = []"
  by (simp add: frames_from_def)

lemma frames_from_Cons:
  assumes "a < length (m_objs m)"
  shows "frames_from a m (c # cs) =
    Frame_Marshal (next_frame a c m) # frames_from a (snd (write_frame send a c m)) cs"
  using write_frame_fields(3) [OF assms] by (simp add: frames_from_def next_frame_def)

lemma write_loop_done: "write_loop send a p (length p) m = ((length p, None), m)"
  by (subst write_loop.simps) simp

lemma write_loop_step:
  assumes "w < length p"
  shows "write_loop send a p w m =
    (case write_frame send a (take MaxPayloadSize (drop w p)) m of
       (Some err, m) \<Rightarrow> ((w, Some err), m)
     | (None, m) \<Rightarrow> write_loop send a p (min (length p) (w + MaxPayloadSize)) m)"
proof -
  have e: "(if w + MaxPayloadSize > length p then length p else w + MaxPayloadSize)
      = min (length p) (w + MaxPayloadSize)"
    by (simp add: min_def)
  have "slice w (min (length p) (w + MaxPayloadSize)) p = take MaxPayloadSize (drop w p)"
    by (simp add: slice_def min_def)
  with assms show ?thesis by (subst write_loop.simps) (simp only: e Let_def if_True)
qed

text \<open>What a write of the chunks \<open>cs\<close> from offset \<open>w\<close> reports, and what it hands to \<open>sendFunc\<close>.\<close>

definition write_outcome ::
  "(bytes \<Rightarrow> go_error option) \<Rightarrow> nat \<Rightarrow> nat \<Rightarrow> bytes list \<Rightarrow> nat \<times> go_error option" where
  "write_outcome send len w fs =
     (let k = sent_ok send fs
      in if k = length fs then (len, None) else (w + MaxPayloadSize * k, send (fs ! k)))"

lemma write_outcome_Cons:
  "write_outcome send len w (b # fs) =
     (case send b of Some err \<Rightarrow> (w, Some err)
      | None \<Rightarrow> write_outcome send len (w + MaxPayloadSize) fs)"
  by (simp add: write_outcome_def sent_ok_Cons Let_def split: option.split)

lemma write_outcome_Nil: "write_outcome send len w [] = (len, None)"
  by (simp add: write_outcome_def sent_ok_def)

lemma write_loop_exact:
  assumes "a < length (m_objs m)" and "w \<le> length p"
  shows "fst (write_loop send a p w m) =
           write_outcome send (length p) w (frames_from a m (chunks (drop w p)))
    \<and> m_sent (snd (write_loop send a p w m)) =
        m_sent m @ take (Suc (sent_ok send (frames_from a m (chunks (drop w p)))))
                        (frames_from a m (chunks (drop w p)))"
  using assms
proof (induction "length p - w" arbitrary: w m rule: less_induct)
  case less
  show ?case
  proof (cases "w = length p")
    case True
    then show ?thesis by (simp add: write_loop_done write_outcome_Nil)
  next
    case False
    with less.prems have w: "w < length p" by simp
    let ?c = "take MaxPayloadSize (drop w p)"
    let ?b = "Frame_Marshal (next_frame a ?c m)"
    let ?w = "min (length p) (w + MaxPayloadSize)"
    obtain r m' where wf: "write_frame send a ?c m = (r, m')" by fastforce
    note fields = write_frame_fields [OF less.prems(1), of send ?c, unfolded wf fst_conv snd_conv]
    have rest: "drop MaxPayloadSize (drop w p) = drop ?w p" by (simp add: min_def add.commute)
    have fs: "frames_from a m (chunks (drop w p)) = ?b # frames_from a m' (chunks (drop ?w p))"
      using frames_from_Cons [OF less.prems(1), of ?c _ send] chunks_step [of "drop w p"] w
      unfolding rest wf snd_conv by simp
    show ?thesis
    proof (cases "send ?b")
      case (Some err)
      with wf fields fs w show ?thesis
        by (simp add: write_loop_step write_outcome_Cons sent_ok_Cons)
    next
      case None
      have IH: "fst (write_loop send a p ?w m') =
           write_outcome send (length p) ?w (frames_from a m' (chunks (drop ?w p)))
        \<and> m_sent (snd (write_loop send a p ?w m')) =
        m_sent m' @ take (Suc (sent_ok send (frames_from a m' (chunks (drop ?w p)))))
                        (frames_from a m' (chunks (drop ?w p)))"
        using w less.prems fields(4) by (intro less.hyps) (auto simp: MaxPayloadSize_def)
      have last: "write_outcome send (length p) ?w (frames_from a m' (chunks (drop ?w p)))
        = write_outcome send (length p) (w + MaxPayloadSize) (frames_from a m' (chunks (drop ?w p)))"
        by (cases "length p \<le> w + MaxPayloadSize") (simp_all add: write_outcome_Nil min_def)
      have "write_loop send a p w m = write_loop send a p ?w m'"
        using wf fields(1) None by (simp add: write_loop_step [OF w])
      with IH None fields(2) show ?thesis
        by (simp add: fs write_outcome_Cons sent_ok_Cons last)
    qed
  qed
qed

end
