(* ===== verification/ConnStream.thy ===== *)
theory ConnStream
  imports ConnManager
begin

text \<open>
  The byte stream that a virtual connection promises: what \<open>Write\<close> hands to the tunnel and
  reports, what \<open>Read\<close> returns, the round trip of a write through the peer's frame handler, the
  handshake of \<open>Dial\<close>, and the data that a FIN discards. The manager's invariant is kept by every
  operation.
\<close>

section \<open>A source of bytes\<close>

text \<open>
  The interface of an object that gives out a byte stream piece by piece: a step takes a prefix
  of what is pending, and leaves the rest.
\<close>

locale byte_source =
  fixes pending :: "'s \<Rightarrow> bytes"
    and get :: "'a \<Rightarrow> 's \<Rightarrow> (bytes \<times> 's) option"
  assumes get_prefix: "get x s = Some (d, s') \<Longrightarrow> pending s = d @ pending s'"
begin

primrec get_all :: "'a list \<Rightarrow> 's \<Rightarrow> (bytes \<times> 's) option" where
  "get_all [] s = Some ([], s)"
| "get_all (x # xs) s =
     do { (d, s) \<leftarrow> get x s; (ds, s) \<leftarrow> get_all xs s; Some (d @ ds, s) }"

lemma get_all_prefix: "get_all xs s = Some (d, s') \<Longrightarrow> pending s = d @ pending s'"
  by (induction xs arbitrary: s d) (auto simp: bind_eq_Some_conv dest!: get_prefix)

end

section \<open>Reading\<close>

text \<open>The bytes a connection still has for its reader.\<close>

definition queue_bytes :: "bytes option list \<Rightarrow> bytes" where
  "queue_bytes q = concat (map (case_option [] (\<lambda>d. d)) q)"

definition unread :: "connection \<Rightarrow> bytes" where
  "unread c = c_readBuf c @ queue_bytes (c_readCh c)"

lemma queue_bytes_simps [simp]:
  "queue_bytes [] = []" "queue_bytes (None # q) = queue_bytes q"
  "queue_bytes (Some d # q) = d @ queue_bytes q"
  "queue_bytes (q @ q') = queue_bytes q @ queue_bytes q'"
  by (simp_all add: queue_bytes_def)

lemma drain_loop_bytes:
  "drain_loop n q buf = (q', buf') \<Longrightarrow> buf' @ queue_bytes q' = buf @ queue_bytes q"
  by (induction n q buf arbitrary: q' buf' rule: drain_loop.induct)
    (auto simp: Let_def split: if_splits)

lemma drain_loop_keeps:
  "drain_loop n q buf = (q', buf') \<Longrightarrow> \<exists>more. buf' = buf @ more"
  by (induction n q buf arbitrary: q' buf' rule: drain_loop.induct)
    (fastforce simp: Let_def split: if_splits)+

lemma drain_loop_empty:
  "drain_loop n q buf = (q', []) \<Longrightarrow> None \<notin> set q \<Longrightarrow> 0 < n \<Longrightarrow> queue_bytes q = []"
proof (induction n q buf arbitrary: q' rule: drain_loop.induct)
  case (3 n d q buf)
  then show ?case using drain_loop_keeps [of n q "buf @ d" q' "[]"]
    by (fastforce simp: Let_def split: if_splits)
qed auto

lemma buffer_Read_bytes:
  "buffer_Read n buf = ((d, e), buf') \<Longrightarrow> buf = d @ buf' \<and> length d \<le> n"
  by (auto simp: buffer_Read_def split: if_splits)

lemma conn_Read_bytes:
  assumes "conn_Read pick n c = Some ((d, e), c')"
  shows "unread c = d @ unread c' \<and> length d \<le> n \<and> c_closed c' = c_closed c \<and> c_ID c' = c_ID c"
  using assms
  by (auto simp: conn_Read_def unread_def split: if_splits prod.splits list.splits option.splits
      dest!: buffer_Read_bytes drain_loop_bytes)

interpretation reader: byte_source unread
  "\<lambda>(pick, n) c. map_option (\<lambda>((d, e), c). (d, c)) (conn_Read pick n c)"
  by unfold_locales (auto split: prod.splits dest!: conn_Read_bytes)

lemma conn_Read_result:
  assumes "conn_Read pick n c = Some ((d, e), c')" and "0 < n" and "None \<notin> set (c_readCh c)"
    and "c_closeCh c = c_closed c"
  shows "if c_readBuf c \<noteq> [] \<or> (\<not> c_closed c \<and> unread c \<noteq> []) then d \<noteq> [] \<and> e = None
         else d = [] \<and> e = Some ErrEOF \<and> (c_closed c \<or> c_readCh c \<noteq> [])"
proof (cases "c_readBuf c \<noteq> [] \<or> c_closed c \<or> c_readCh c = []")
  case True
  with assms show ?thesis
    by (auto simp: conn_Read_def buffer_Read_def unread_def split: if_splits)
next
  case False
  then obtain x q where q: "c_readCh c = Some x # q" and buf: "c_readBuf c = []"
    using assms(3) by (cases "c_readCh c"; cases "hd (c_readCh c)") auto
  obtain q' buf' where dr: "drain_loop n q x = (q', buf')" by fastforce
  have res: "buffer_Read n buf' = ((d, e), c_readBuf c')"
    using assms(1,4) False q buf dr by (auto simp: conn_Read_def split: prod.splits if_splits)
  have empty: "buf' = [] \<longleftrightarrow> unread c = []"
    using drain_loop_empty [of n q x q'] drain_loop_keeps [OF dr] drain_loop_bytes [OF dr] assms(2,3) q buf dr
    by (auto simp: unread_def)
  show ?thesis
    using res empty False assms(2) buf q by (auto simp: buffer_Read_def split: if_splits)
qed

lemma conn_Read_blocks:
  "conn_Read pick n c = None \<longleftrightarrow>
     c_readBuf c = [] \<and> \<not> c_closed c \<and> \<not> c_closeCh c \<and> c_readCh c = []"
  by (cases "c_readCh c"; cases "hd (c_readCh c)") (auto simp: conn_Read_def Let_def split_beta)

section \<open>The manager's invariant\<close>

definition wf_conn :: "connection \<Rightarrow> bool" where
  "wf_conn c \<longleftrightarrow> c_closeCh c = c_closed c \<and> None \<notin> set (c_readCh c)
     \<and> length (c_readCh c) \<le> ReadChannelSize"

text \<open>
  The table refers to open connections of the store under their own identifiers; the accept queue
  respects its capacity and holds established connections.
\<close>

definition wf_manager :: "manager \<Rightarrow> bool" where
  "wf_manager m \<longleftrightarrow>
     (\<forall>c \<in> set (m_objs m). wf_conn c)
     \<and> (\<forall>cid a. fmlookup (m_connections m) cid = Some a \<longrightarrow>
          a < length (m_objs m) \<and> c_ID (m_objs m ! a) = cid \<and> \<not> c_closed (m_objs m ! a))
     \<and> length (m_acceptCh m) \<le> AcceptChannelSize
     \<and> (\<forall>a \<in> set (m_acceptCh m). a < length (m_objs m) \<and> c_established (m_objs m ! a))"

lemma wf_manager_init: "wf_manager NewManager"
  by (simp add: wf_manager_def NewManager_def)

lemma wf_managerD:
  assumes "wf_manager m" and "fmlookup (m_connections m) cid = Some a"
  shows "a < length (m_objs m)" "c_ID (get_conn a m) = cid" "\<not> c_closed (get_conn a m)"
  using assms by (auto simp: wf_manager_def get_conn_def)

lemma wf_connD: "wf_manager m \<Longrightarrow> a < length (m_objs m) \<Longrightarrow> wf_conn (get_conn a m)"
  by (simp add: wf_manager_def get_conn_def)

text \<open>Only the store, the table and the accept queue matter.\<close>

lemma wf_manager_view:
  assumes "wf_manager m" and "m_objs m' = m_objs m" and "m_connections m' = m_connections m"
    and "m_acceptCh m' = m_acceptCh m"
  shows "wf_manager m'"
  using assms by (simp add: wf_manager_def)

lemma wf_sendFrame: "wf_manager m \<Longrightarrow> wf_manager (snd (sendFrame send f m))"
  by (erule wf_manager_view) simp_all

lemma wf_removeConnection: "wf_manager m \<Longrightarrow> wf_manager (removeConnection cid m)"
  by (auto simp: wf_manager_def removeConnection_def split: if_splits)

lemma wf_set_conn:
  assumes "wf_manager m" and "a < length (m_objs m)" and "wf_conn c" and "c_ID c = c_ID (get_conn a m)"
    and "c_closed c \<longrightarrow> c_closed (get_conn a m)" and "c_established (get_conn a m) \<longrightarrow> c_established c"
  shows "wf_manager (set_conn a c m)"
  using assms
  by (auto simp: wf_manager_def set_conn_def get_conn_def nth_list_update dest!: set_update_subset_insert [THEN subsetD])

text \<open>Closing a connection takes it out of the table.\<close>

lemma wf_close_conn:
  assumes "wf_manager m" and "a < length (m_objs m)"
  shows "wf_manager (removeConnection (c_ID (get_conn a m))
           (set_conn a ((get_conn a m)\<lparr>c_closed := True, c_closeCh := True\<rparr>) m))"
  using assms wf_connD [OF assms]
  by (auto simp: wf_manager_def removeConnection_def set_conn_def get_conn_def nth_list_update wf_conn_def
      split: if_splits dest!: set_update_subset_insert [THEN subsetD])

lemma wf_new_conn:
  assumes "wf_manager m" and "c = NewConnection cid \<or> c = markEstablished (NewConnection cid)"
  shows "wf_manager (m\<lparr>m_objs := m_objs m @ [c],
           m_connections := fmupd cid (length (m_objs m)) (m_connections m)\<rparr>)"
  using assms
  by (fastforce simp: wf_manager_def wf_conn_def NewConnection_def markEstablished_def nth_append
      split: if_splits)

lemma wf_write_frame:
  assumes "wf_manager m" and "a < length (m_objs m)"
  shows "wf_manager (snd (write_frame send a chunk m))"
  using assms wf_connD [OF assms]
  by (auto simp: write_frame_def Let_def wf_conn_def intro!: wf_sendFrame wf_set_conn)

lemma write_loop_keeps:
  assumes "P m" and step: "\<And>m chunk. P m \<Longrightarrow> P (snd (write_frame send a chunk m))" and "w \<le> length p"
  shows "P (snd (write_loop send a p w m))"
  using assms(1,3)
proof (induction "length p - w" arbitrary: w m rule: less_induct)
  case less
  show ?case
  proof (cases "w = length p")
    case False
    with less.prems have w: "w < length p" by simp
    obtain r m' where wf: "write_frame send a (take MaxPayloadSize (drop w p)) m = (r, m')" by fastforce
    have "P m'" using step [OF less.prems(1), of "take MaxPayloadSize (drop w p)"] wf by simp
    moreover have "P (snd (write_loop send a p (min (length p) (w + MaxPayloadSize)) m'))"
      using w \<open>P m'\<close> by (intro less.hyps) (auto simp: MaxPayloadSize_def)
    ultimately show ?thesis using wf by (simp add: write_loop_step [OF w] split: option.split)
  qed (use less.prems in \<open>simp add: write_loop_done\<close>)
qed

lemma wf_write_loop:
  assumes "wf_manager m" and "a < length (m_objs m)"
  shows "wf_manager (snd (write_loop send a p 0 m))"
  using write_loop_keeps [where P = "\<lambda>m. wf_manager m \<and> a < length (m_objs m)" and m = m and w = 0]
    wf_write_frame write_frame_fields(4) assms by simp

lemma wf_conn_Write:
  assumes "wf_manager m" and "a < length (m_objs m)"
  shows "wf_manager (snd (conn_Write send a p m))"
  using assms wf_write_loop [OF assms] wf_write_frame [OF assms, of send p]
  by (auto simp: conn_Write_def split: prod.splits option.splits)

lemma wf_conn_Close:
  assumes "wf_manager m" and "a < length (m_objs m)"
  shows "wf_manager (conn_Close send a m)"
proof (cases "c_closed (get_conn a m)")
  case False
  let ?m = "set_conn a ((get_conn a m)\<lparr>c_closed := True, c_closeCh := True\<rparr>) m"
  have "wf_manager (removeConnection cid (snd (sendFrame send f ?m)))"
    if "cid = c_ID (get_conn a m)" for cid f
    using wf_close_conn [OF assms] unfolding that
    by (rule wf_manager_view) (simp_all add: removeConnection_def)
  with False show ?thesis by (simp add: conn_Close_def Let_def split_beta)
qed (use assms in \<open>simp add: conn_Close_def\<close>)

lemma drain_loop_suffix: "drain_loop n q buf = (q', buf') \<Longrightarrow> \<exists>l. q = l @ q'"
proof (induction n q buf arbitrary: q' buf' rule: drain_loop.induct)
  case (3 n d q buf)
  then show ?case by (auto simp: Let_def split: if_splits) (metis append_Cons)
qed (auto intro: exI [of _ "[None]"])

lemma conn_Read_keeps:
  assumes "conn_Read pick n c = Some (r, c')"
  shows "\<exists>l. c_readCh c = l @ c_readCh c'" "c_closed c' = c_closed c" "c_closeCh c' = c_closeCh c"
    "c_ID c' = c_ID c" "c_established c' = c_established c"
  using assms
  by (auto simp: conn_Read_def split: if_splits prod.splits list.splits option.splits
      dest!: drain_loop_suffix intro: exI [of _ "[None]"])

lemma wf_conn_Read:
  assumes "wf_manager m" and "a < length (m_objs m)" and "conn_Read pick n (get_conn a m) = Some (r, c)"
  shows "wf_manager (set_conn a c m)"
proof (rule wf_set_conn [OF assms(1,2)])
  show "wf_conn c"
    using conn_Read_keeps [OF assms(3)] wf_connD [OF assms(1,2)] by (auto simp: wf_conn_def)
qed (use conn_Read_keeps [OF assms(3)] in auto)

lemma wf_handle_syn:
  assumes "wf_manager m" and "handle_syn send cid m = Some (e, m')"
  shows "wf_manager m'"
proof -
  let ?a = "length (m_objs m)"
  let ?n = "m\<lparr>m_objs := m_objs m @ [markEstablished (NewConnection cid)],
             m_connections := fmupd cid ?a (m_connections m)\<rparr>"
  let ?m = "snd (sendFrame send (NewSynAckFrame cid) ?n)"
  have wf: "wf_manager ?m" by (intro wf_sendFrame wf_new_conn) (use assms in auto)
  have "handle_syn send cid m =
    (case send (Frame_Marshal (NewSynAckFrame cid)) of
       Some err \<Rightarrow> Some (Some err, ?m)
     | None \<Rightarrow> if m_onConnect m then Some (None, ?m\<lparr>m_started := m_started ?m @ [?a]\<rparr>)
               else if m_acceptClosed m then None
               else if length (m_acceptCh m) < AcceptChannelSize
               then Some (None, ?m\<lparr>m_acceptCh := m_acceptCh m @ [?a]\<rparr>) else Some (None, ?m))"
    by (simp add: handle_syn_def new_conn_def get_conn_def set_conn_def Let_def split_beta
        split: option.split)
  with assms(2) consider "m' = ?m" | "m' = ?m\<lparr>m_started := m_started ?m @ [?a]\<rparr>"
    | "m' = ?m\<lparr>m_acceptCh := m_acceptCh m @ [?a]\<rparr>" "length (m_acceptCh m) < AcceptChannelSize"
    by (auto split: option.splits if_splits)
  then show ?thesis
  proof cases
    case 3
    with wf show ?thesis by (auto simp: wf_manager_def markEstablished_def)
  qed (use wf in \<open>auto elim: wf_manager_view\<close>)
qed

lemma wf_conn_deliver: "wf_conn c \<Longrightarrow> wf_conn (conn_deliver data c)"
  by (simp add: wf_conn_def conn_deliver_def)

lemma conn_deliver_fields [simp]:
  "c_ID (conn_deliver data c) = c_ID c" "c_closed (conn_deliver data c) = c_closed c"
  "c_closeCh (conn_deliver data c) = c_closeCh c"
  "c_established (conn_deliver data c) = c_established c" "c_seq (conn_deliver data c) = c_seq c"
  by (simp_all add: conn_deliver_def)

lemma wf_handle_data:
  assumes "wf_manager m"
  shows "wf_manager (handle_data cid payload m)"
proof (cases "fmlookup (m_connections m) cid")
  case (Some a)
  note a = wf_managerD [OF assms Some]
  have "wf_manager (set_conn a (conn_deliver payload (get_conn a m)) m)"
    using a wf_connD [OF assms] by (intro wf_set_conn) (auto simp: assms wf_conn_deliver)
  with Some show ?thesis by (auto simp: handle_data_def Let_def elim!: wf_manager_view)
qed (use assms in \<open>simp add: handle_data_def\<close>)

lemma wf_handle_fin:
  assumes "wf_manager m"
  shows "wf_manager (handle_fin send cid m)"
proof (cases "fmlookup (m_connections m) cid")
  case (Some a)
  note a = wf_managerD [OF assms Some]
  show ?thesis
    using Some a wf_close_conn [OF assms a(1)]
    by (auto simp: handle_fin_def Let_def intro!: wf_sendFrame)
qed (use assms in \<open>simp add: handle_fin_def\<close>)

lemma wf_markEstablished:
  assumes "wf_manager m" and "fmlookup (m_connections m) cid = Some a"
  shows "wf_manager (set_conn a (markEstablished (get_conn a m)) m)"
  using wf_managerD [OF assms] wf_connD [OF assms(1)]
  by (intro wf_set_conn) (auto simp: assms(1) markEstablished_def wf_conn_def)

lemma wf_HandleFrame:
  assumes "wf_manager m" and "HandleFrame send data m = Some (e, m')"
  shows "wf_manager m'"
proof (cases "UnmarshalFrame data")
  case (Inr f)
  let ?m = "m\<lparr>m_framesReceived := m_framesReceived m + 1\<rparr>"
  let ?n = "if f_Type f = FrameData
            then ?m\<lparr>m_bytesPayloadRecv := m_bytesPayloadRecv m + of_nat (length (f_Payload f))\<rparr> else ?m"
  have n: "wf_manager ?n" using assms(1) by (auto elim!: wf_manager_view)
  note ops = wf_handle_syn [OF n] wf_markEstablished [OF n] wf_handle_data [OF n] wf_handle_fin [OF n]
    wf_removeConnection [OF n] wf_sendFrame [OF n]
  from assms(2) show ?thesis
    unfolding HandleFrame_def Inr sum.case Let_def
    using n ops by (simp split: if_split_asm option.split_asm) blast+
qed (use assms in \<open>simp add: HandleFrame_def\<close>)

text \<open>Frames that arrive one after the other; \<open>None\<close> is a panic.\<close>

fun handle_frames ::
  "(bytes \<Rightarrow> go_error option) \<Rightarrow> bytes list \<Rightarrow> manager \<Rightarrow> manager option" where
  "handle_frames send [] m = Some m"
| "handle_frames send (b # bs) m =
     (case HandleFrame send b m of None \<Rightarrow> None | Some (_, m) \<Rightarrow> handle_frames send bs m)"

lemma wf_Dial:
  assumes "wf_manager m" and "\<And>n n'. others n = Some n' \<Longrightarrow> wf_manager n \<Longrightarrow> wf_manager n'"
    and "Dial send w others m = Some (r, m')"
  shows "wf_manager m'"
proof -
  let ?cid = "m_connIDSeq m + 1"
  let ?n = "m\<lparr>m_connIDSeq := ?cid, m_objs := m_objs m @ [NewConnection ?cid],
             m_connections := fmupd ?cid (length (m_objs m)) (m_connections m)\<rparr>"
  have "wf_manager ?n"
    by (rule wf_manager_view [OF wf_new_conn [OF assms(1), of "NewConnection ?cid" ?cid]]) simp_all
  then have n: "wf_manager (snd (sendFrame send (NewSynFrame ?cid) ?n))" by (rule wf_sendFrame)
  show ?thesis
    using assms(3) wf_removeConnection [OF n] assms(2) [OF _ n] wf_removeConnection
    by (fastforce simp: Dial_def new_conn_def Let_def split_beta split: option.splits)
qed

lemma wf_Accept: "wf_manager m \<Longrightarrow> Accept m = Some (r, m') \<Longrightarrow> wf_manager m'"
  by (auto simp: Accept_def wf_manager_def split: list.splits if_splits)

lemma wf_manager_Close:
  assumes "wf_manager m" and "manager_Close send iter m = Some m'"
  shows "wf_manager m'"
proof -
  let ?close = "\<lambda>cid m. case fmlookup (m_connections m) cid of None \<Rightarrow> m | Some a \<Rightarrow> conn_Close send a m"
  have "wf_manager (fold ?close cids m)" for cids
    by (rule fold_invariant)
      (auto simp: assms(1) split: option.split dest: wf_managerD intro: wf_conn_Close)
  with assms(2) show ?thesis
    by (auto simp: manager_Close_def Let_def wf_manager_def split: if_splits)
qed

text \<open>
  The operations of the manager and of its connections as steps; \<open>None\<close> is a panic. While a \<open>Dial\<close> waits, any
  other operations run, among them the frame handler and further calls of \<open>Dial\<close>.
\<close>

datatype manager_op =
    OpFrame bytes
  | OpDial dial_wake "manager_op list"
  | OpAccept
  | OpRead nat bool nat
  | OpWrite nat bytes
  | OpClose nat
  | OpManagerClose

fun manager_step ::
  "(bytes \<Rightarrow> go_error option) \<Rightarrow> (u32 fset \<Rightarrow> u32 list) \<Rightarrow> manager_op \<Rightarrow> manager \<Rightarrow> manager option"
and manager_run ::
  "(bytes \<Rightarrow> go_error option) \<Rightarrow> (u32 fset \<Rightarrow> u32 list) \<Rightarrow> manager_op list \<Rightarrow> manager \<Rightarrow> manager option" where
  "manager_step send iter (OpFrame data) m = map_option snd (HandleFrame send data m)"
| "manager_step send iter (OpDial w ops) m =
     map_option snd (Dial send w (\<lambda>m. manager_run send iter ops m) m)"
| "manager_step send iter OpAccept m = (case Accept m of None \<Rightarrow> Some m | Some (_, m) \<Rightarrow> Some m)"
| "manager_step send iter (OpRead a pick n) m =
     (if a < length (m_objs m)
      then case conn_Read pick n (get_conn a m) of
             None \<Rightarrow> Some m | Some (_, c) \<Rightarrow> Some (set_conn a c m)
      else Some m)"
| "manager_step send iter (OpWrite a p) m =
     (if a < length (m_objs m) then Some (snd (conn_Write send a p m)) else Some m)"
| "manager_step send iter (OpClose a) m =
     (if a < length (m_objs m) then Some (conn_Close send a m) else Some m)"
| "manager_step send iter OpManagerClose m = manager_Close send iter m"
| "manager_run send iter [] m = Some m"
| "manager_run send iter (op # ops) m =
     (case manager_step send iter op m of None \<Rightarrow> None | Some m \<Rightarrow> manager_run send iter ops m)"

lemma wf_manager_steps:
  "manager_step send iter op m = Some m' \<Longrightarrow> wf_manager m \<Longrightarrow> wf_manager m'"
  "manager_run send iter ops m = Some m' \<Longrightarrow> wf_manager m \<Longrightarrow> wf_manager m'"
proof (induction send iter op m and send iter ops m arbitrary: m' and m'
    rule: manager_step_manager_run.induct)
  case (1 send iter data m)
  then show ?case using wf_HandleFrame by fastforce
next
  case (2 send iter w ops m)
  then obtain r where r: "Dial send w (manager_run send iter ops) m = Some (r, m')" by auto
  show ?case by (rule wf_Dial [OF 2(3) _ r]) (rule 2(1))
next
  case (3 send iter m)
  then show ?case by (auto split: option.splits dest: wf_Accept)
next
  case (4 send iter a pick n m)
  then show ?case by (auto split: if_splits option.splits dest: wf_conn_Read)
next
  case (7 send iter m)
  then show ?case using wf_manager_Close by simp
next
  case (9 send iter op ops m)
  then show ?case by (auto split: option.splits)
qed (auto split: if_splits simp: wf_conn_Write wf_conn_Close)

section \<open>The stream through the peer\<close>

lemma HandleFrame_Marshal:
  assumes "length (f_Payload f) < 2 ^ 16"
  shows "UnmarshalFrame (Frame_Marshal f) = Inr f"
  using frame.decode_encode assms by (simp add: wf_frame_def)

text \<open>The connection \<open>b\<close> of the peer can take \<open>k\<close> more messages for \<open>cid\<close>.\<close>

definition receives :: "u32 \<Rightarrow> nat \<Rightarrow> nat \<Rightarrow> manager \<Rightarrow> bool" where
  "receives cid b k m \<longleftrightarrow> fmlookup (m_connections m) cid = Some b \<and> b < length (m_objs m)
     \<and> \<not> c_closed (get_conn b m) \<and> length (c_readCh (get_conn b m)) + k \<le> ReadChannelSize"

lemma handle_data_frame:
  assumes "receives cid b (Suc k) m" and "length d < 2 ^ 16"
  shows "\<exists>m'. HandleFrame send (Frame_Marshal (NewDataFrame cid seq d)) m = Some (None, m')
    \<and> receives cid b k m' \<and> unread (get_conn b m') = unread (get_conn b m) @ d
    \<and> (\<forall>a. a \<noteq> b \<longrightarrow> get_conn a m' = get_conn a m)"
proof -
  let ?c = "get_conn b m"
  have c: "conn_deliver d ?c = ?c\<lparr>c_readCh := c_readCh ?c @ [Some d]\<rparr>"
    using assms(1) by (simp add: conn_deliver_def receives_def)
  have f: "f_Payload (NewDataFrame cid seq d) = d" "f_Type (NewDataFrame cid seq d) = FrameData"
    "f_ConnID (NewDataFrame cid seq d) = cid" by (simp_all add: NewDataFrame_def)
  show ?thesis
    using assms f
    by (simp add: HandleFrame_def HandleFrame_Marshal f handle_data_def receives_def Let_def
        FrameSyn_def FrameSynAck_def FrameData_def unread_def)
       (simp add: get_conn_def set_conn_def c [unfolded get_conn_def])
qed

lemma handle_data_frames:
  assumes "receives cid b (length ds) m" and "\<forall>d \<in> set ds. length d < 2 ^ 16"
  shows "\<exists>m'. handle_frames send (map Frame_Marshal (data_frames cid seq ds)) m = Some m'
    \<and> receives cid b 0 m' \<and> unread (get_conn b m') = unread (get_conn b m) @ concat ds
    \<and> (\<forall>a. a \<noteq> b \<longrightarrow> get_conn a m' = get_conn a m)"
  using assms
proof (induction ds arbitrary: seq m)
  case (Cons d ds)
  from handle_data_frame [of cid b "length ds" m d send "seq + 1"] Cons.prems
  obtain m1 where m1: "HandleFrame send (Frame_Marshal (NewDataFrame cid (seq + 1) d)) m = Some (None, m1)"
    "receives cid b (length ds) m1" "unread (get_conn b m1) = unread (get_conn b m) @ d"
    "\<forall>a. a \<noteq> b \<longrightarrow> get_conn a m1 = get_conn a m" by auto
  with Cons.IH [OF m1(2), of "seq + 1"] Cons.prems(2) show ?case by auto
qed simp

text \<open>The messages of a \<open>Write\<close>: a small write is one message, even when it is empty.\<close>

definition write_chunks :: "bytes \<Rightarrow> bytes list" where
  "write_chunks p = (if length p \<le> MaxPayloadSize then [p] else chunks p)"

lemma concat_write_chunks: "concat (write_chunks p) = p"
  by (simp add: write_chunks_def concat_chunks)

lemma write_chunks_size: "d \<in> set (write_chunks p) \<Longrightarrow> length d \<le> MaxPayloadSize"
  using chunks_size by (auto simp: write_chunks_def split: if_splits)

lemma write_exact:
  assumes "a < length (m_objs m)" and "\<not> c_closed (get_conn a m)"
  shows "fst (conn_Write send a p m) =
      write_outcome send (length p) 0 (frames_from a m (write_chunks p))"
    and "m_sent (snd (conn_Write send a p m)) = m_sent m @
      take (Suc (sent_ok send (frames_from a m (write_chunks p)))) (frames_from a m (write_chunks p))"
proof -
  obtain r m' where wf: "write_frame send a p m = (r, m')" by fastforce
  note fields = write_frame_fields [OF assms(1), of send p, unfolded wf fst_conv snd_conv]
  have one: "frames_from a m [p] = [Frame_Marshal (next_frame a p m)]"
    by (simp add: frames_from_def next_frame_def)
  show "fst (conn_Write send a p m) =
      write_outcome send (length p) 0 (frames_from a m (write_chunks p))"
    using assms fields(1) write_loop_exact [OF assms(1), of 0 p send, THEN conjunct1]
    by (auto simp: conn_Write_def write_chunks_def one wf write_outcome_Cons write_outcome_Nil
        split: option.split)
  show "m_sent (snd (conn_Write send a p m)) = m_sent m @
      take (Suc (sent_ok send (frames_from a m (write_chunks p)))) (frames_from a m (write_chunks p))"
    using assms fields(2) write_loop_exact [OF assms(1), of 0 p send, THEN conjunct2]
    by (auto simp: conn_Write_def write_chunks_def one wf split: option.split)
qed

lemma sent_ok_all: "sent_ok (\<lambda>_. None) fs = length fs"
  by (simp add: sent_ok_def takeWhile_eq_all_conv [THEN iffD2])

section \<open>The handshake\<close>

lemma syn_accepted:
  assumes "m_onConnect m \<or> \<not> m_acceptClosed m \<and> length (m_acceptCh m) < AcceptChannelSize"
  shows "\<exists>m'. HandleFrame (\<lambda>_. None) (Frame_Marshal (NewSynFrame cid)) m = Some (None, m')
    \<and> m_sent m' = m_sent m @ [Frame_Marshal (NewSynAckFrame cid)]
    \<and> fmlookup (m_connections m') cid = Some (length (m_objs m))
    \<and> get_conn (length (m_objs m)) m' = markEstablished (NewConnection cid)
    \<and> length (m_objs m) \<in> set (m_started m') \<union> set (m_acceptCh m')"
  using assms
  by (auto simp: HandleFrame_def HandleFrame_Marshal NewSynFrame_def frame_types handle_syn_def new_conn_def
      get_conn_def set_conn_def sendFrame_def Let_def)

lemma Dial_answered:
  assumes "cid = m_connIDSeq m + 1"
  shows "\<exists>m'. Dial (\<lambda>_. None) DialEstablished
        (handle_frames (\<lambda>_. None) [Frame_Marshal (NewSynAckFrame cid)]) m
      = Some (Inr (length (m_objs m)), m')
    \<and> m_sent m' = m_sent m @ [Frame_Marshal (NewSynFrame cid)]
    \<and> fmlookup (m_connections m') cid = Some (length (m_objs m))
    \<and> get_conn (length (m_objs m)) m' = markEstablished (NewConnection cid)"
  using assms
  by (auto simp: Dial_def HandleFrame_def HandleFrame_Marshal NewSynAckFrame_def NewSynFrame_def frame_types
      new_conn_def get_conn_def set_conn_def sendFrame_def waitEstablished_def markEstablished_def Let_def)

lemma Dial_unanswered:
  assumes "cid = m_connIDSeq m + 1"
  shows "\<exists>m'. Dial (\<lambda>_. None) w Some m = Some (Inl ErrDialTimeout, m')
    \<and> fmlookup (m_connections m') cid = None"
  using assms
  by (cases w) (auto simp: Dial_def new_conn_def get_conn_def sendFrame_def waitEstablished_def
      NewConnection_def removeConnection_def Let_def)

section \<open>Properties\<close>

text \<open>A manager with one established connection, 7, for the concrete instances below.\<close>

abbreviation one_conn :: "bytes option list \<Rightarrow> manager" where
  "one_conn q \<equiv> NewManager\<lparr>m_objs := [markEstablished (NewConnection 7)\<lparr>c_readCh := q\<rparr>],
                             m_connections := fmupd 7 0 fmempty\<rparr>"

text \<open>
  C28. \<open>Manager\<close> and its connections, whatever frames arrive and in whatever order the operations
  are called, also while calls of \<open>Dial\<close> wait, up to a panic: the table only refers to open connections, each under its own identifier, the read
  queues and the accept queue stay within their capacities, every queued connection is
  established, and a connection is marked closed exactly when its close channel is closed (which
  is what keeps the channel from being closed twice).
\<close>

theorem manager_invariant:
  assumes "manager_run send iter ops NewManager = Some m"
  shows "wf_manager m"
  using assms wf_manager_init by (rule wf_manager_steps(2))

theorem manager_invariant_witness:
  "wf_manager (the (manager_run (\<lambda>_. None) (\<lambda>_. [7])
     [OpFrame (Frame_Marshal (NewSynFrame 7)), OpAccept,
      OpFrame (Frame_Marshal (NewDataFrame 7 1 [1, 2, 3])), OpRead 0 True 2,
      OpDial DialEstablished [OpWrite 0 [4], OpFrame (Frame_Marshal (NewSynAckFrame 1))],
      OpManagerClose] NewManager))"
proof (rule manager_invariant)
  show "manager_run (\<lambda>_. None) (\<lambda>_. [7])
     [OpFrame (Frame_Marshal (NewSynFrame 7)), OpAccept,
      OpFrame (Frame_Marshal (NewDataFrame 7 1 [1, 2, 3])), OpRead 0 True 2,
      OpDial DialEstablished [OpWrite 0 [4], OpFrame (Frame_Marshal (NewSynAckFrame 1))],
      OpManagerClose] NewManager = Some (the (manager_run (\<lambda>_. None) (\<lambda>_. [7])
     [OpFrame (Frame_Marshal (NewSynFrame 7)), OpAccept,
      OpFrame (Frame_Marshal (NewDataFrame 7 1 [1, 2, 3])), OpRead 0 True 2,
      OpDial DialEstablished [OpWrite 0 [4], OpFrame (Frame_Marshal (NewSynAckFrame 1))],
      OpManagerClose] NewManager))"
    by (rule option.collapse [symmetric]) code_simp
qed

text \<open>
  C29. \<open>Connection.Write\<close> on an open connection. The data is cut into messages of at most 1400
  bytes whose concatenation is the data; they are handed to the tunnel as data frames with
  consecutive sequence numbers, in order, up to and including the first one that the tunnel
  refuses; the call reports the whole length without an error when none is refused, and otherwise
  1400 bytes for each accepted frame together with the tunnel's error.
\<close>

theorem Write_exact:
  assumes "a < length (m_objs m)" and "\<not> c_closed (get_conn a m)"
    and "fs = map Frame_Marshal
                (data_frames (c_ID (get_conn a m)) (c_seq (get_conn a m)) (write_chunks p))"
    and "k = length (takeWhile (\<lambda>b. send b = None) fs)"
    and "conn_Write send a p m = ((n, err), m')"
  shows "concat (write_chunks p) = p \<and> (\<forall>d \<in> set (write_chunks p). length d \<le> 1400)
    \<and> m_sent m' = m_sent m @ take (Suc k) fs
    \<and> (if k = length fs then n = length p \<and> err = None else n = 1400 * k \<and> err = send (fs ! k))"
proof -
  have fs: "frames_from a m (write_chunks p) = fs" "sent_ok send fs = k"
    using assms(3,4) by (simp_all add: frames_from_def sent_ok_def)
  show ?thesis
    using write_exact [OF assms(1,2), of send p] assms(5) write_chunks_size concat_write_chunks
    by (auto simp: fs write_outcome_def MaxPayloadSize_def split: if_splits)
qed

theorem Write_exact_witness:
  "m_sent (snd (conn_Write (\<lambda>_. Some ErrTransportClosed) 0 [9] (one_conn [])))
     = [Frame_Marshal (NewDataFrame 7 1 [9])]"
proof -
  have open_conn: "\<not> c_closed (get_conn 0 (one_conn []))"
    by (simp add: get_conn_def markEstablished_def NewConnection_def NewManager_def)
  have "conn_Write send a p m = ((fst (fst (conn_Write send a p m)), snd (fst (conn_Write send a p m))),
      snd (conn_Write send a p m))" for send a p m by simp
  from Write_exact [OF _ open_conn refl refl this, of "[9]" "\<lambda>_. Some ErrTransportClosed"]
  show ?thesis
    by (simp add: get_conn_def markEstablished_def NewConnection_def NewManager_def write_chunks_def
        MaxPayloadSize_def)
qed

text \<open>
  C30. \<open>Connection.Read\<close> with room for at least one byte, on a connection whose queue holds data
  only. What it returns is a prefix of the unread bytes, at most as long as the destination, and the rest
  stays unread; it is not empty, and comes without an error, when bytes are buffered or the
  connection is open and bytes are queued. Otherwise the call reports the end of the stream, or
  blocks exactly when the connection is open and nothing at all is buffered or queued.
\<close>

theorem Read_exact:
  assumes "0 < n" and "wf_conn c"
  shows "case conn_Read pick n c of
      None \<Rightarrow> \<not> c_closed c \<and> c_readBuf c = [] \<and> c_readCh c = []
    | Some ((d, e), c') \<Rightarrow>
        unread c = d @ unread c' \<and> length d \<le> n
        \<and> (if c_readBuf c \<noteq> [] \<or> (\<not> c_closed c \<and> unread c \<noteq> []) then d \<noteq> [] \<and> e = None
           else d = [] \<and> e = Some ErrEOF \<and> (c_closed c \<or> c_readCh c \<noteq> []))"
proof (cases "conn_Read pick n c")
  case None
  from None [unfolded conn_Read_blocks] show ?thesis unfolding None option.case by simp
next
  case (Some r)
  then obtain d e c' where r: "conn_Read pick n c = Some ((d, e), c')" by (cases r) auto
  from assms(2) have "None \<notin> set (c_readCh c)" "c_closeCh c = c_closed c" by (simp_all add: wf_conn_def)
  note res = conn_Read_result [OF r assms(1) this] conn_Read_bytes [OF r]
  show ?thesis unfolding r option.case prod.case by (intro conjI res res(2) [THEN conjunct1]
      res(2) [THEN conjunct2, THEN conjunct1])
qed

theorem Read_exact_witness:
  "\<exists>c. conn_Read True 2 (NewConnection 7\<lparr>c_readCh := [Some [1], Some [2, 3]]\<rparr>) = Some (([1, 2], None), c)
     \<and> [1, 2, 3] = [1, 2] @ unread c"
proof -
  let ?c = "NewConnection 7\<lparr>c_readCh := [Some [1], Some [2, 3]]\<rparr>"
  have wf: "wf_conn ?c" by (simp add: wf_conn_def NewConnection_def ReadChannelSize_def)
  have unread: "unread ?c = [1, 2, 3]" by (simp add: unread_def NewConnection_def)
  have r: "conn_Read True 2 ?c = Some (([1, 2], None), ?c\<lparr>c_readCh := [], c_readBuf := [3]\<rparr>)"
    by (simp add: conn_Read_def NewConnection_def buffer_Read_def)
  have "unread ?c = [1, 2] @ unread (?c\<lparr>c_readCh := [], c_readBuf := [3]\<rparr>)"
    using Read_exact [OF _ wf, of 2 True] unfolding r by simp
  then show ?thesis unfolding unread r by blast
qed

text \<open>
  C31. A write travels to the peer's reader: when the tunnel accepts every frame of a \<open>Write\<close> and the
  peer's manager handles them in order, with room in its read queue, the bytes unread at the peer
  are extended by exactly the bytes written, no other connection changes, and any sequence of reads
  then returns those bytes in order, without a byte lost or repeated.
\<close>

theorem write_reaches_reader:
  assumes "a < length (m_objs m)" and "\<not> c_closed (get_conn a m)"
    and "receives (c_ID (get_conn a m)) b (length (write_chunks p)) m2"
  shows "\<exists>m2'. handle_frames send2
             (drop (length (m_sent m)) (m_sent (snd (conn_Write (\<lambda>_. None) a p m)))) m2 = Some m2'
      \<and> unread (get_conn b m2') = unread (get_conn b m2) @ p
      \<and> (\<forall>a. a \<noteq> b \<longrightarrow> get_conn a m2' = get_conn a m2)
      \<and> (\<forall>args d c. reader.get_all args (get_conn b m2') = Some (d, c) \<longrightarrow>
           unread (get_conn b m2) @ p = d @ unread c)"
proof -
  have "\<forall>d \<in> set (write_chunks p). length d < 2 ^ 16"
    using write_chunks_size by (fastforce simp: MaxPayloadSize_def)
  from handle_data_frames [OF assms(3) this, of send2 "c_seq (get_conn a m)"]
  show ?thesis
    using write_exact(2) [OF assms(1,2), of "\<lambda>_. None" p] concat_write_chunks [of p]
    by (fastforce simp: sent_ok_all frames_from_def dest: reader.get_all_prefix)
qed

theorem write_reaches_reader_witness:
  "\<exists>m. handle_frames (\<lambda>_. None)
       (m_sent (snd (conn_Write (\<lambda>_. None) 0 [9, 8] (one_conn [])))) (one_conn [Some [1]]) = Some m
     \<and> unread (get_conn 0 m) = [1, 9, 8]"
proof -
  have "0 < length (m_objs (one_conn []))" "\<not> c_closed (get_conn 0 (one_conn []))"
    and "receives (c_ID (get_conn 0 (one_conn []))) 0 (length (write_chunks [9, 8])) (one_conn [Some [1]])"
    by (simp_all add: receives_def write_chunks_def get_conn_def NewManager_def MaxPayloadSize_def
        markEstablished_def NewConnection_def ReadChannelSize_def)
  from write_reaches_reader [OF this, of "\<lambda>_. None"] show ?thesis
    by (auto simp: get_conn_def unread_def NewManager_def markEstablished_def NewConnection_def)
qed

text \<open>
  C32. The SYN handshake. A SYN makes the peer's manager store a fresh established connection under
  the dialled identifier, hand it to its user, and answer with one frame; when that answer reaches
  the dialling manager, \<open>Dial\<close> succeeds with an established connection stored under the same
  identifier. When no answer arrives, \<open>Dial\<close> reports the timeout and the identifier is not in the table.
\<close>

theorem handshake:
  assumes "cid = m_connIDSeq mA + 1" and "syn = Frame_Marshal (NewSynFrame cid)"
    and "m_onConnect mB \<or> \<not> m_acceptClosed mB \<and> length (m_acceptCh mB) < AcceptChannelSize"
  shows "\<exists>mB' reply b mA' a.
      HandleFrame (\<lambda>_. None) syn mB = Some (None, mB') \<and> m_sent mB' = m_sent mB @ [reply]
      \<and> fmlookup (m_connections mB') cid = Some b
      \<and> get_conn b mB' = markEstablished (NewConnection cid)
      \<and> b \<in> set (m_started mB') \<union> set (m_acceptCh mB')
      \<and> Dial (\<lambda>_. None) DialEstablished (handle_frames (\<lambda>_. None) [reply]) mA = Some (Inr a, mA')
      \<and> m_sent mA' = m_sent mA @ [syn] \<and> fmlookup (m_connections mA') cid = Some a
      \<and> get_conn a mA' = markEstablished (NewConnection cid)
      \<and> (\<exists>mT. Dial (\<lambda>_. None) w Some mA = Some (Inl ErrDialTimeout, mT)
          \<and> fmlookup (m_connections mT) cid = None)"
proof -
  let ?reply = "Frame_Marshal (NewSynAckFrame cid)"
  obtain mB' where B: "HandleFrame (\<lambda>_. None) syn mB = Some (None, mB')" "m_sent mB' = m_sent mB @ [?reply]"
    "fmlookup (m_connections mB') cid = Some (length (m_objs mB))"
    "get_conn (length (m_objs mB)) mB' = markEstablished (NewConnection cid)"
    "length (m_objs mB) \<in> set (m_started mB') \<union> set (m_acceptCh mB')"
    using syn_accepted [OF assms(3), of cid] unfolding assms(2) by blast
  obtain mA' where A: "Dial (\<lambda>_. None) DialEstablished (handle_frames (\<lambda>_. None) [?reply]) mA
      = Some (Inr (length (m_objs mA)), mA')" "m_sent mA' = m_sent mA @ [syn]"
    "fmlookup (m_connections mA') cid = Some (length (m_objs mA))"
    "get_conn (length (m_objs mA)) mA' = markEstablished (NewConnection cid)"
    using Dial_answered [OF assms(1)] unfolding assms(2) by blast
  from A B Dial_unanswered [OF assms(1), of w] show ?thesis by blast
qed

theorem handshake_witness:
  "\<exists>m reply. HandleFrame (\<lambda>_. None) (Frame_Marshal (NewSynFrame 1)) NewManager = Some (None, m)
     \<and> m_sent m = [reply]
     \<and> map_option (isl \<circ> fst) (Dial (\<lambda>_. None) DialTimeout Some NewManager) = Some True
     \<and> map_option (isl \<circ> fst) (Dial (\<lambda>_. None) DialEstablished (handle_frames (\<lambda>_. None) [reply]) NewManager)
         = Some False"
proof -
  have "1 = m_connIDSeq NewManager + 1"
    and "m_onConnect NewManager \<or> \<not> m_acceptClosed NewManager
         \<and> length (m_acceptCh NewManager) < AcceptChannelSize"
    by (simp_all add: NewManager_def AcceptChannelSize_def)
  from handshake [OF this(1) refl this(2), of DialTimeout] show ?thesis
    by (fastforce simp: NewManager_def)
qed

text \<open>
  A FIN discards what the reader has not taken from the queue yet: after it every read on the
  connection reports the end of the stream at once, whatever bytes were received before the FIN and
  are still queued.
\<close>

theorem fin_discards_unread:
  assumes "wf_manager m" and "fmlookup (m_connections m) cid = Some a" and "c_readBuf (get_conn a m) = []"
  shows "\<exists>m'. HandleFrame send (Frame_Marshal (NewFinFrame cid)) m = Some (None, m')
    \<and> unread (get_conn a m') = unread (get_conn a m)
    \<and> (\<forall>pick n. conn_Read pick n (get_conn a m') = Some (([], Some ErrEOF), get_conn a m'))"
  using assms wf_managerD [OF assms(1,2)]
  by (simp add: HandleFrame_def HandleFrame_Marshal NewFinFrame_def frame_types handle_fin_def Let_def
      conn_Read_def unread_def get_conn_def set_conn_def removeConnection_def)

theorem fin_discards_unread_witness:
  "\<exists>m. HandleFrame (\<lambda>_. None) (Frame_Marshal (NewFinFrame 7)) (one_conn [Some [1, 2]]) = Some (None, m)
     \<and> unread (get_conn 0 m) = [1, 2]
     \<and> conn_Read True 10 (get_conn 0 m) = Some (([], Some ErrEOF), get_conn 0 m)"
proof -
  have "wf_manager (one_conn [Some [1, 2]])" "fmlookup (m_connections (one_conn [Some [1, 2]])) 7 = Some 0"
    and "c_readBuf (get_conn 0 (one_conn [Some [1, 2]])) = []"
    by (auto simp: wf_manager_def wf_conn_def get_conn_def NewManager_def NewConnection_def
        markEstablished_def ReadChannelSize_def split: if_splits)
  from fin_discards_unread [OF this, of "\<lambda>_. None"] show ?thesis
    by (auto simp: unread_def get_conn_def markEstablished_def NewConnection_def NewManager_def)
qed

end
