(* ===== verification/Pipe.thy ===== *)
theory Pipe
  imports Prelude "HOL-Library.Sublist"
begin

text \<open>
  What client and server share when they forward a stream to a TCP connection: the outcome of
  \<open>net.Conn\<close> writes, and the contract of an ordered pipe, in which the bytes written are at any time
  a prefix of the bytes accepted and the difference is queued as long as the connection works.
\<close>

section \<open>TCP connections\<close>

text \<open>
  A \<open>net.Conn\<close> as its writer sees it: the bytes it took over so far, whether it was closed, and
  whether its write side was shut down. The outcome of a write is the environment's: all bytes, or
  an error after some of them. On a closed connection a write is an error and takes no byte.
\<close>

record tcpconn =
  t_out :: bytes
  t_closed :: bool
  t_shut :: bool

datatype write_result = Written | WriteFailed nat

definition tcp_new :: tcpconn where
  "tcp_new = \<lparr>t_out = [], t_closed = False, t_shut = False\<rparr>"

definition tcp_Write :: "write_result \<Rightarrow> bytes \<Rightarrow> tcpconn \<Rightarrow> bool \<times> tcpconn" where
  "tcp_Write r data c =
     (if t_closed c \<or> t_shut c then (True, c)
      else case r of
        Written \<Rightarrow> (False, c\<lparr>t_out := t_out c @ data\<rparr>)
      | WriteFailed n \<Rightarrow> (True, c\<lparr>t_out := t_out c @ take n data\<rparr>))"

definition tcp_Close :: "tcpconn \<Rightarrow> tcpconn" where
  "tcp_Close c = c\<lparr>t_closed := True\<rparr>"

definition tcp_CloseWrite :: "tcpconn \<Rightarrow> tcpconn" where
  "tcp_CloseWrite c = c\<lparr>t_shut := True\<rparr>"

text \<open>The outcomes of the writes of a loop, in order; a write beyond them succeeds.\<close>

fun next_result :: "write_result list \<Rightarrow> write_result \<times> write_result list" where
  "next_result [] = (Written, [])"
| "next_result (r # rs) = (r, rs)"

lemma next_result_Written:
  "list_all (\<lambda>r. r = Written) rs \<Longrightarrow> next_result rs = (r, rs') \<Longrightarrow>
     r = Written \<and> list_all (\<lambda>r. r = Written) rs'"
  by (cases rs) auto

lemma tcp_Write_ok:
  "\<not> t_closed c \<Longrightarrow> \<not> t_shut c \<Longrightarrow> tcp_Write Written data c = (False, c\<lparr>t_out := t_out c @ data\<rparr>)"
  by (simp add: tcp_Write_def)

lemma tcp_Write_no_error:
  "tcp_Write r data c = (False, c') \<Longrightarrow> t_out c' = t_out c @ data \<and> t_closed c' = t_closed c \<and> t_shut c' = t_shut c"
  by (auto simp: tcp_Write_def split: if_splits write_result.splits)

lemma tcp_Write_prefix:
  "tcp_Write r data c = (err, c') \<Longrightarrow> \<exists>d. t_out c' = t_out c @ d \<and> prefix d data"
  by (auto simp: tcp_Write_def take_is_prefix split: if_splits write_result.splits)

lemma tcp_Write_keeps:
  "tcp_Write r data c = (err, c') \<Longrightarrow> t_closed c' = t_closed c \<and> t_shut c' = t_shut c"
  by (auto simp: tcp_Write_def split: if_splits write_result.splits)

lemma tcp_Write_closed: "t_closed c \<Longrightarrow> tcp_Write r data c = (True, c)"
  by (simp add: tcp_Write_def)

lemma tcp_Close_fields [simp]:
  "t_out (tcp_Close c) = t_out c" "t_closed (tcp_Close c)" "t_shut (tcp_Close c) = t_shut c"
  "t_out (tcp_CloseWrite c) = t_out c" "t_closed (tcp_CloseWrite c) = t_closed c" "t_shut (tcp_CloseWrite c)"
  by (simp_all add: tcp_Close_def tcp_CloseWrite_def)

section \<open>The ordered pipe\<close>

text \<open>
  \<open>flow out queued accepted broken\<close>: nothing is lost, repeated or reordered between acceptance and
  the output, except that a broken pipe forwards nothing more.
\<close>

definition flow :: "bytes \<Rightarrow> bytes \<Rightarrow> bytes \<Rightarrow> bool \<Rightarrow> bool" where
  "flow out queued accepted broken \<longleftrightarrow>
     out @ queued = accepted \<or> (broken \<and> prefix out accepted)"

lemma flow_prefix: "flow out queued accepted broken \<Longrightarrow> prefix out accepted"
  by (auto simp: flow_def)

lemma flow_broken: "flow out queued accepted b \<Longrightarrow> broken \<Longrightarrow> flow out queued' accepted broken"
  by (auto simp: flow_def)

lemma flow_accept:
  "flow out queued accepted b \<Longrightarrow> flow out (queued @ d) (accepted @ d) b"
  by (auto simp: flow_def prefix_def)

text \<open>A write that moves queued bytes to the output; one that fails must break the pipe.\<close>

lemma flow_moved: "flow out (d @ queued) accepted b \<Longrightarrow> \<not> b \<Longrightarrow> flow (out @ d) queued accepted b"
  by (simp add: flow_def)

lemma flow_failed:
  assumes "flow out (d @ queued) accepted b" and "prefix d' d" and "b \<Longrightarrow> d' = []"
  shows "flow (out @ d') queued' accepted True"
  using assms by (cases b) (auto simp: flow_def prefix_def)

text \<open>
  The interface of an object that forwards a stream: an invariant, which gives the flow, kept by
  every step that the environment allows.
\<close>

locale ordered_pipe =
  fixes inv :: "'s \<Rightarrow> bool" and step :: "'o \<Rightarrow> 's \<Rightarrow> 's" and allowed :: "'o \<Rightarrow> bool"
    and out queued accepted :: "'s \<Rightarrow> bytes" and broken :: "'s \<Rightarrow> bool"
  assumes inv_step: "inv s \<Longrightarrow> allowed op \<Longrightarrow> inv (step op s)"
    and inv_flow: "inv s \<Longrightarrow> flow (out s) (queued s) (accepted s) (broken s)"
begin

lemma run_inv: "inv s \<Longrightarrow> list_all allowed ops \<Longrightarrow> inv (fold step ops s)"
  by (induction ops arbitrary: s) (auto intro: inv_step)

lemma run_prefix:
  assumes "inv s" and "list_all allowed ops"
  shows "prefix (out (fold step ops s)) (accepted (fold step ops s))"
  using inv_flow [OF run_inv [OF assms]] by (rule flow_prefix)

lemma run_complete:
  assumes "inv s" and "list_all allowed ops" and "queued (fold step ops s) = []"
    and "\<not> broken (fold step ops s)"
  shows "out (fold step ops s) = accepted (fold step ops s)"
  using inv_flow [OF run_inv [OF assms(1,2)]] assms(3,4) by (auto simp: flow_def)

end

end
