(* ===== verification/ServerStream.thy ===== *)
theory ServerStream
  imports Pipe
begin

text \<open>
  \<open>serverStream\<close>, pkg/shadowgre/server.go: one backend connection of the server. The receive
  goroutine (\<open>handleReliableData\<close>, \<open>handleReliableClose\<close>) and the stream's own goroutines
  (\<open>connectAndRun\<close>, \<open>writeToBackend\<close>, \<open>readFromBackend\<close>) share its state; their steps interleave.
\<close>

section \<open>State\<close>

datatype streamState = StreamConnecting | StreamConnected | StreamClosed

text \<open>
  Where \<open>connectAndRun\<close> is: dialling, after a failed dial, past the assignment of \<open>backendConn\<close>,
  writing the pending data it took, running its reader and writer (with the flags of the \<open>WaitGroup\<close>:
  writer done, reader done), or returned.
\<close>

datatype run_phase = Dialing | DialFailed | Dialed | Flushing "bytes list" | Running bool bool | Returned

text \<open>
  \<open>ss_accepted\<close> records what the handler took over (pending data or channel), for the statements;
  the code never reads it.
\<close>

record serverStream =
  ss_id :: u32
  ss_backendConn :: "tcpconn option"
  ss_writeCh :: "bytes list"
  ss_writeCloseCh :: bool
  ss_closeCh :: bool
  ss_state :: streamState
  ss_clientCloseRecv :: bool
  ss_bytesIn :: int
  ss_bytesOut :: int
  ss_pendingData :: "bytes list"
  ss_phase :: run_phase
  ss_accepted :: bytes

definition writeChCap :: nat where "writeChCap = 4096"

definition new_stream :: "u32 \<Rightarrow> serverStream" where
  "new_stream sid =
     \<lparr>ss_id = sid, ss_backendConn = None, ss_writeCh = [], ss_writeCloseCh = False,
      ss_closeCh = False, ss_state = StreamConnecting, ss_clientCloseRecv = False, ss_bytesIn = 0,
      ss_bytesOut = 0, ss_pendingData = [], ss_phase = Dialing, ss_accepted = []\<rparr>"

section \<open>Closing\<close>

definition ss_closeWrite :: "serverStream \<Rightarrow> serverStream" where
  "ss_closeWrite ss = ss\<lparr>ss_writeCloseCh := True\<rparr>"

definition ss_close :: "serverStream \<Rightarrow> serverStream" where
  "ss_close ss =
     (if ss_state ss = StreamClosed then ss
      else
        let ss = ss\<lparr>ss_state := StreamClosed\<rparr>;
            ss = ss_closeWrite ss;
            ss = ss\<lparr>ss_closeCh := True\<rparr>
        in ss\<lparr>ss_backendConn := map_option tcp_Close (ss_backendConn ss)\<rparr>)"

section \<open>The stream's goroutines\<close>

text \<open>A write to the backend connection; the first component says whether it failed.\<close>

definition backend_Write :: "write_result \<Rightarrow> bytes \<Rightarrow> serverStream \<Rightarrow> bool \<times> serverStream" where
  "backend_Write r data ss =
     (case ss_backendConn ss of
        None \<Rightarrow> (True, ss)
      | Some c \<Rightarrow> let (err, c) = tcp_Write r data c in (err, ss\<lparr>ss_backendConn := Some c\<rparr>))"

definition add_bytesOut :: "bytes \<Rightarrow> serverStream \<Rightarrow> serverStream" where
  "add_bytesOut data ss = ss\<lparr>ss_bytesOut := wrap64 (ss_bytesOut ss + int (length data))\<rparr>"

text \<open>
  \<open>connectAndRun\<close>: the dial fails, or succeeds; then, under the lock, the pending data is taken and the
  state stored. Between the two a \<open>close()\<close> of another goroutine already finds the backend connection.
\<close>

definition connect_failed :: "serverStream \<Rightarrow> serverStream" where
  "connect_failed ss = ss\<lparr>ss_state := StreamClosed, ss_phase := DialFailed\<rparr>"

definition connect_ok :: "serverStream \<Rightarrow> serverStream" where
  "connect_ok ss = ss\<lparr>ss_backendConn := Some tcp_new, ss_phase := Dialed\<rparr>"

definition take_pending :: "serverStream \<Rightarrow> serverStream" where
  "take_pending ss =
     (let pendingData = ss_pendingData ss
      in ss\<lparr>ss_pendingData := [], ss_state := StreamConnected, ss_phase := Flushing pendingData\<rparr>)"

text \<open>One iteration of its loop over the pending data; after the last one reader and writer start.\<close>

definition flush_step :: "write_result \<Rightarrow> serverStream \<Rightarrow> serverStream" where
  "flush_step r ss =
     (case ss_phase ss of
        Flushing (data # rest) \<Rightarrow>
          let (err, ss) = backend_Write r data ss
          in if err then (ss_close ss)\<lparr>ss_phase := Returned\<rparr>
             else (add_bytesOut data ss)\<lparr>ss_phase := Flushing rest\<rparr>
      | Flushing [] \<Rightarrow> ss\<lparr>ss_phase := Running False False\<rparr>
      | _ \<Rightarrow> ss)"

text \<open>\<open>drainWriteCh\<close>: write errors are ignored.\<close>

fun drain_list :: "write_result list \<Rightarrow> bytes list \<Rightarrow> serverStream \<Rightarrow> serverStream" where
  "drain_list rs [] ss = ss"
| "drain_list rs (data # q) ss =
     (let (r, rs) = next_result rs;
          (_, ss) = backend_Write r data ss
      in drain_list rs q (add_bytesOut data ss))"

definition ss_drainWriteCh :: "write_result list \<Rightarrow> serverStream \<Rightarrow> serverStream" where
  "ss_drainWriteCh rs ss = (drain_list rs (ss_writeCh ss) ss)\<lparr>ss_writeCh := []\<rparr>"

definition ss_drainAndShutdownWrite :: "write_result list \<Rightarrow> serverStream \<Rightarrow> serverStream" where
  "ss_drainAndShutdownWrite rs ss =
     (let ss = ss_drainWriteCh rs ss
      in ss\<lparr>ss_backendConn := map_option tcp_CloseWrite (ss_backendConn ss)\<rparr>)"

text \<open>
  One iteration of \<open>writeToBackend\<close>: the case of its \<open>select\<close> that fires. A case that is not ready
  cannot fire: the state stays as it is.
\<close>

datatype writer_case = CaseData | CaseWriteClose | CaseClose

definition writer_done :: "serverStream \<Rightarrow> serverStream" where
  "writer_done ss =
     ss\<lparr>ss_phase := (case ss_phase ss of Running _ rd \<Rightarrow> Running True rd | p \<Rightarrow> p)\<rparr>"

definition writeToBackend_step :: "writer_case \<Rightarrow> write_result list \<Rightarrow> serverStream \<Rightarrow> serverStream" where
  "writeToBackend_step w rs ss =
     (case ss_phase ss of
        Running False _ \<Rightarrow>
          (case w of
             CaseData \<Rightarrow>
               (case ss_writeCh ss of
                  [] \<Rightarrow> ss
                | data # q \<Rightarrow>
                    let (err, ss) = backend_Write (fst (next_result rs)) data (ss\<lparr>ss_writeCh := q\<rparr>)
                    in if err then writer_done (ss_close ss) else add_bytesOut data ss)
           | CaseWriteClose \<Rightarrow>
               if ss_writeCloseCh ss then writer_done (ss_drainAndShutdownWrite rs ss) else ss
           | CaseClose \<Rightarrow> if ss_closeCh ss then writer_done (ss_drainWriteCh rs ss) else ss)
      | _ \<Rightarrow> ss)"

text \<open>
  \<open>readFromBackend\<close>, as far as the stream's own state goes: a successful read counts its bytes; when
  the loop is left the stream is closed.
\<close>

definition reader_active :: "serverStream \<Rightarrow> bool" where
  "reader_active ss = (case ss_phase ss of Running _ False \<Rightarrow> True | _ \<Rightarrow> False)"

definition count_read :: "bytes \<Rightarrow> serverStream \<Rightarrow> serverStream" where
  "count_read data ss = ss\<lparr>ss_bytesIn := wrap64 (ss_bytesIn ss + int (length data))\<rparr>"

definition reader_exit :: "serverStream \<Rightarrow> serverStream" where
  "reader_exit ss =
     (let ss = ss_close ss
      in ss\<lparr>ss_phase := (case ss_phase ss of Running wd _ \<Rightarrow> Running wd True | p \<Rightarrow> p)\<rparr>)"

datatype go_step =
    GoConnected
  | GoTakePending
  | GoConnectFailed
  | GoFlush write_result
  | GoWriter writer_case "write_result list"
  | GoRead bytes
  | GoReadEnd
  | GoClose

fun go_run1 :: "go_step \<Rightarrow> serverStream \<Rightarrow> serverStream" where
  "go_run1 GoConnected ss = (if ss_phase ss = Dialing then connect_ok ss else ss)"
| "go_run1 GoTakePending ss = (if ss_phase ss = Dialed then take_pending ss else ss)"
| "go_run1 GoConnectFailed ss = (if ss_phase ss = Dialing then connect_failed ss else ss)"
| "go_run1 (GoFlush r) ss = flush_step r ss"
| "go_run1 (GoWriter w rs) ss = writeToBackend_step w rs ss"
| "go_run1 (GoRead data) ss = (if reader_active ss then count_read data ss else ss)"
| "go_run1 GoReadEnd ss = (if reader_active ss then reader_exit ss else ss)"
| "go_run1 GoClose ss = ss_close ss"

section \<open>The receive goroutine\<close>

text \<open>
  \<open>handleReliableData\<close> on a stream that exists. Between the first look at the state and the rest of
  the handler the stream's goroutines may take the steps \<open>race\<close>; between its look at \<open>writeCloseCh\<close> and
  the send on the channel, and while that waits for room, they take the steps \<open>wait\<close>; the timeout fires when there is
  still no room.
\<close>

definition accept_data :: "bytes \<Rightarrow> serverStream \<Rightarrow> serverStream" where
  "accept_data data ss = ss\<lparr>ss_writeCh := ss_writeCh ss @ [data], ss_accepted := ss_accepted ss @ data\<rparr>"

definition ss_handleData :: "go_step list \<Rightarrow> go_step list \<Rightarrow> bytes \<Rightarrow> serverStream \<Rightarrow> serverStream" where
  "ss_handleData race wait data ss =
     (let state = ss_state ss;
          ss = fold go_run1 race ss
      in if state = StreamClosed then ss
      else if length data = 0 then ss
      else if state = StreamConnecting \<and> ss_state ss = StreamConnecting then
        ss\<lparr>ss_pendingData := ss_pendingData ss @ [data], ss_accepted := ss_accepted ss @ data\<rparr>
      else if ss_writeCloseCh ss then ss
      else
        let ss = fold go_run1 wait ss
        in if length (ss_writeCh ss) < writeChCap then accept_data data ss else ss_close ss)"

definition ss_handleClose :: "serverStream \<Rightarrow> serverStream" where
  "ss_handleClose ss = ss_closeWrite (ss\<lparr>ss_clientCloseRecv := True\<rparr>)"

datatype ss_op =
    SsData "go_step list" "go_step list" bytes
  | SsClientClose
  | SsGo go_step

fun ss_step :: "ss_op \<Rightarrow> serverStream \<Rightarrow> serverStream" where
  "ss_step (SsData race wait data) ss = ss_handleData race wait data ss"
| "ss_step SsClientClose ss = ss_handleClose ss"
| "ss_step (SsGo g) ss = go_run1 g ss"

definition ss_run :: "u32 \<Rightarrow> ss_op list \<Rightarrow> serverStream" where
  "ss_run sid ops = fold ss_step ops (new_stream sid)"

section \<open>The flow of a stream\<close>

definition ss_out :: "serverStream \<Rightarrow> bytes" where
  "ss_out ss = (case ss_backendConn ss of None \<Rightarrow> [] | Some c \<Rightarrow> t_out c)"

definition ss_broken :: "serverStream \<Rightarrow> bool" where
  "ss_broken ss = (case ss_backendConn ss of None \<Rightarrow> False | Some c \<Rightarrow> t_closed c)"

definition ss_shut :: "serverStream \<Rightarrow> bool" where
  "ss_shut ss = (case ss_backendConn ss of None \<Rightarrow> False | Some c \<Rightarrow> t_shut c)"

definition flushing :: "run_phase \<Rightarrow> bytes list" where
  "flushing p = (case p of Flushing ds \<Rightarrow> ds | _ \<Rightarrow> [])"

definition ss_queued :: "serverStream \<Rightarrow> bytes" where
  "ss_queued ss = concat (flushing (ss_phase ss)) @ concat (ss_pendingData ss) @ concat (ss_writeCh ss)"

text \<open>The control state of \<open>connectAndRun\<close> determines which of the queues can hold data.\<close>

definition ss_control :: "serverStream \<Rightarrow> bool" where
  "ss_control ss \<longleftrightarrow>
     (case ss_phase ss of
        Dialing \<Rightarrow> ss_writeCh ss = [] \<and> ss_backendConn ss = None \<and> ss_state ss \<noteq> StreamConnected
          \<and> (ss_state ss = StreamClosed \<longrightarrow> ss_writeCloseCh ss)
      | Dialed \<Rightarrow> ss_writeCh ss = [] \<and> ss_backendConn ss \<noteq> None \<and> \<not> ss_shut ss
          \<and> ss_state ss \<noteq> StreamConnected \<and> (ss_state ss = StreamClosed \<longrightarrow> ss_writeCloseCh ss)
      | DialFailed \<Rightarrow> ss_state ss \<noteq> StreamConnecting
      | Returned \<Rightarrow> ss_state ss \<noteq> StreamConnecting
      | p \<Rightarrow> ss_state ss \<noteq> StreamConnecting \<and> ss_pendingData ss = [] \<and> ss_backendConn ss \<noteq> None
          \<and> (ss_state ss = StreamClosed \<longrightarrow> ss_broken ss)
          \<and> (ss_shut ss \<longrightarrow> (\<exists>rd. p = Running True rd)))"

definition ss_inv :: "serverStream \<Rightarrow> bool" where
  "ss_inv ss \<longleftrightarrow> ss_control ss \<and> flow (ss_out ss) (ss_queued ss) (ss_accepted ss) (ss_broken ss)"

text \<open>The steps after which nothing may be missing: writes that fail while a queue is drained are excluded.\<close>

fun clean :: "go_step \<Rightarrow> bool" where
  "clean (GoWriter CaseWriteClose rs) = list_all (\<lambda>r. r = Written) rs"
| "clean (GoWriter CaseClose rs) = list_all (\<lambda>r. r = Written) rs"
| "clean _ = True"

fun clean_op :: "ss_op \<Rightarrow> bool" where
  "clean_op (SsData race wait data) = (list_all clean race \<and> list_all clean wait)"
| "clean_op SsClientClose = True"
| "clean_op (SsGo g) = clean g"

lemmas ss_views = ss_out_def ss_broken_def ss_shut_def ss_queued_def flushing_def ss_control_def

lemma ss_inv_new: "ss_inv (new_stream sid)"
  by (simp add: ss_inv_def ss_views new_stream_def flow_def)

lemma ss_close_fields [simp]:
  "ss_out (ss_close ss) = ss_out ss" "ss_queued (ss_close ss) = ss_queued ss"
  "ss_accepted (ss_close ss) = ss_accepted ss" "ss_phase (ss_close ss) = ss_phase ss"
  "ss_state (ss_close ss) = StreamClosed" "ss_shut (ss_close ss) = ss_shut ss"
  "ss_writeCh (ss_close ss) = ss_writeCh ss" "ss_pendingData (ss_close ss) = ss_pendingData ss"
  "ss_backendConn (ss_close ss) = None \<longleftrightarrow> ss_backendConn ss = None"
  by (auto simp: ss_close_def ss_views ss_closeWrite_def Let_def split: option.split)

lemma ss_close_broken:
  "ss_state ss \<noteq> StreamClosed \<Longrightarrow> ss_backendConn ss \<noteq> None \<Longrightarrow> ss_broken (ss_close ss)"
  "ss_broken ss \<Longrightarrow> ss_broken (ss_close ss)"
  by (auto simp: ss_close_def ss_broken_def ss_closeWrite_def Let_def split: option.splits)

lemma ss_close_writeCloseCh:
  "ss_writeCloseCh ss \<or> ss_state ss \<noteq> StreamClosed \<Longrightarrow> ss_writeCloseCh (ss_close ss)"
  by (auto simp: ss_close_def ss_closeWrite_def Let_def)

lemma inv_ss_close: "ss_inv ss \<Longrightarrow> ss_inv (ss_close ss)"
  using ss_close_broken [of ss] ss_close_writeCloseCh [of ss]
  by (cases "ss_state ss = StreamClosed"; cases "ss_phase ss")
    (auto simp: ss_inv_def ss_control_def flow_def)

lemma inv_connect_ok: "ss_inv ss \<Longrightarrow> ss_phase ss = Dialing \<Longrightarrow> ss_inv (connect_ok ss)"
  by (auto simp: ss_inv_def ss_views connect_ok_def tcp_new_def flow_def)

lemma inv_take_pending: "ss_inv ss \<Longrightarrow> ss_phase ss = Dialed \<Longrightarrow> ss_inv (take_pending ss)"
  by (auto simp: ss_inv_def ss_views take_pending_def flow_def Let_def)

lemma inv_connect_failed: "ss_inv ss \<Longrightarrow> ss_phase ss = Dialing \<Longrightarrow> ss_inv (connect_failed ss)"
  by (auto simp: ss_inv_def ss_views connect_failed_def flow_def)

text \<open>A write on the backend connection: what it does to the views of the state.\<close>

lemma backend_Write_fields:
  assumes "backend_Write r data ss = (err, ss')"
  shows "ss_queued ss' = ss_queued ss" "ss_accepted ss' = ss_accepted ss" "ss_phase ss' = ss_phase ss"
    "ss_state ss' = ss_state ss" "ss_writeCh ss' = ss_writeCh ss" "ss_pendingData ss' = ss_pendingData ss"
    "ss_broken ss' = ss_broken ss" "ss_shut ss' = ss_shut ss" "ss_writeCloseCh ss' = ss_writeCloseCh ss"
    "ss_backendConn ss' = None \<longleftrightarrow> ss_backendConn ss = None"
    "\<exists>d. ss_out ss' = ss_out ss @ d \<and> prefix d data"
    "\<not> err \<Longrightarrow> ss_out ss' = ss_out ss @ data" "ss_broken ss \<Longrightarrow> err \<and> ss_out ss' = ss_out ss"
    "ss_backendConn ss \<noteq> None \<Longrightarrow> \<not> ss_broken ss \<Longrightarrow> \<not> ss_shut ss \<Longrightarrow> r = Written \<Longrightarrow> \<not> err"
  using assms
  by (auto simp: backend_Write_def ss_views tcp_Write_closed Let_def split: option.splits prod.splits
      dest: tcp_Write_prefix tcp_Write_no_error tcp_Write_keeps)
     (auto simp: tcp_Write_def)

lemma add_bytesOut_fields [simp]:
  "ss_out (add_bytesOut d ss) = ss_out ss" "ss_queued (add_bytesOut d ss) = ss_queued ss"
  "ss_accepted (add_bytesOut d ss) = ss_accepted ss" "ss_broken (add_bytesOut d ss) = ss_broken ss"
  "ss_shut (add_bytesOut d ss) = ss_shut ss" "ss_phase (add_bytesOut d ss) = ss_phase ss"
  "ss_state (add_bytesOut d ss) = ss_state ss" "ss_writeCh (add_bytesOut d ss) = ss_writeCh ss"
  "ss_pendingData (add_bytesOut d ss) = ss_pendingData ss"
  "ss_backendConn (add_bytesOut d ss) = ss_backendConn ss"
  "ss_writeCloseCh (add_bytesOut d ss) = ss_writeCloseCh ss"
  "ss_closeCh (add_bytesOut d ss) = ss_closeCh ss"
  by (simp_all add: add_bytesOut_def ss_views)

lemma ss_phase_upd [simp]:
  "ss_out (ss\<lparr>ss_phase := p\<rparr>) = ss_out ss" "ss_broken (ss\<lparr>ss_phase := p\<rparr>) = ss_broken ss"
  "ss_shut (ss\<lparr>ss_phase := p\<rparr>) = ss_shut ss"
  "ss_queued (ss\<lparr>ss_phase := p\<rparr>) = concat (flushing p) @ concat (ss_pendingData ss) @ concat (ss_writeCh ss)"
  by (simp_all add: ss_views)

text \<open>A write that fails on a live stream closes it, which breaks the pipe.\<close>

lemma failed_write_breaks:
  assumes "backend_Write r data ss = (True, ss')" and "ss_backendConn ss \<noteq> None"
    and "ss_state ss = StreamClosed \<longrightarrow> ss_broken ss"
    and "flow (ss_out ss) (data @ queued) (ss_accepted ss) (ss_broken ss)"
  shows "ss_broken (ss_close ss') \<and> flow (ss_out ss') queued' (ss_accepted ss) True"
proof -
  note w = backend_Write_fields [OF assms(1)]
  obtain d where "ss_out ss' = ss_out ss @ d" "prefix d data" using w(11) by blast
  then have "flow (ss_out ss') queued' (ss_accepted ss) True"
    using flow_failed [OF assms(4), of d queued'] w(13) by auto
  moreover have "ss_broken (ss_close ss')"
    using assms(2,3) w(4,7,10) ss_close_broken [of ss'] by auto
  ultimately show ?thesis by simp
qed

lemma inv_flush_step:
  assumes "ss_inv ss"
  shows "ss_inv (flush_step r ss)"
proof (cases "ss_phase ss")
  case (Flushing ds)
  show ?thesis
  proof (cases ds)
    case Nil
    with assms Flushing show ?thesis by (auto simp: flush_step_def ss_inv_def ss_control_def ss_queued_def flushing_def)
  next
    case (Cons data rest)
    obtain err ss' where w: "backend_Write r data ss = (err, ss')" by fastforce
    note f = backend_Write_fields [OF w]
    have c: "ss_state ss \<noteq> StreamConnecting" "ss_pendingData ss = []" "ss_backendConn ss \<noteq> None"
      "ss_state ss = StreamClosed \<longrightarrow> ss_broken ss" "\<not> ss_shut ss"
      "flow (ss_out ss) (data @ concat rest @ concat (ss_writeCh ss)) (ss_accepted ss) (ss_broken ss)"
      using assms Flushing Cons by (auto simp: ss_inv_def ss_control_def ss_queued_def flushing_def)
    show ?thesis
    proof (cases err)
      case True
      with w have "backend_Write r data ss = (True, ss')" by simp
      from failed_write_breaks [OF this c(3,4,6)] True f Flushing Cons c w show ?thesis
        by (simp add: flush_step_def ss_inv_def ss_control_def)
    next
      case False
      then have "flow (ss_out ss') (concat rest @ concat (ss_writeCh ss)) (ss_accepted ss) (ss_broken ss)"
        using flow_moved [OF c(6)] f(12,13) by (cases "ss_broken ss") auto
      with False f Flushing Cons c w show ?thesis
        by (simp add: flush_step_def ss_inv_def ss_control_def flushing_def)
    qed
  qed
qed (use assms in \<open>simp_all add: flush_step_def\<close>)

text \<open>Draining moves everything, unless the pipe is broken.\<close>

lemma drain_list_fields:
  "ss_accepted (drain_list rs q ss) = ss_accepted ss \<and> ss_phase (drain_list rs q ss) = ss_phase ss
   \<and> ss_state (drain_list rs q ss) = ss_state ss \<and> ss_pendingData (drain_list rs q ss) = ss_pendingData ss
   \<and> ss_broken (drain_list rs q ss) = ss_broken ss \<and> ss_shut (drain_list rs q ss) = ss_shut ss
   \<and> ss_writeCloseCh (drain_list rs q ss) = ss_writeCloseCh ss
   \<and> (ss_backendConn (drain_list rs q ss) = None \<longleftrightarrow> ss_backendConn ss = None)
   \<and> (ss_broken ss \<longrightarrow> ss_out (drain_list rs q ss) = ss_out ss)"
proof (induction rs q ss rule: drain_list.induct)
  case (2 rs data q ss)
  obtain r rs' where n: "next_result rs = (r, rs')" by fastforce
  obtain err ss' where w: "backend_Write r data ss = (err, ss')" by fastforce
  note f = backend_Write_fields [OF w]
  from 2 [OF n [symmetric] refl w [symmetric] refl] f(13) show ?case
    by (simp add: n w f(1-10))
qed simp

lemma drain_list_all:
  "list_all (\<lambda>r. r = Written) rs \<Longrightarrow> ss_backendConn ss \<noteq> None \<Longrightarrow> \<not> ss_broken ss \<Longrightarrow> \<not> ss_shut ss \<Longrightarrow>
     ss_out (drain_list rs q ss) = ss_out ss @ concat q"
proof (induction rs q ss rule: drain_list.induct)
  case (2 rs data q ss)
  obtain r rs' where n: "next_result rs = (r, rs')" by fastforce
  obtain err ss' where w: "backend_Write r data ss = (err, ss')" by fastforce
  note f = backend_Write_fields [OF w]
  note r = next_result_Written [OF 2(2) n]
  have "\<not> err" using f(14) 2(3-5) r by simp
  then have "ss_out ss' = ss_out ss @ data" by (rule f(12))
  with 2(1) [OF n [symmetric] refl w [symmetric] refl] f 2(3-5) r show ?case by (simp add: n w [simplified r])
qed simp

text \<open>The writer drains the queue, without shutting the connection down or with it.\<close>

lemma ss_writeCh_upd [simp]:
  "ss_out (ss\<lparr>ss_writeCh := q\<rparr>) = ss_out ss" "ss_broken (ss\<lparr>ss_writeCh := q\<rparr>) = ss_broken ss"
  "ss_shut (ss\<lparr>ss_writeCh := q\<rparr>) = ss_shut ss"
  by (simp_all add: ss_views)

lemma drainWriteCh_flow:
  assumes "list_all (\<lambda>r. r = Written) rs" and "ss_backendConn ss \<noteq> None" and "\<not> ss_shut ss"
    and "flow (ss_out ss) (concat (ss_writeCh ss)) (ss_accepted ss) (ss_broken ss)"
  shows "flow (ss_out (ss_drainWriteCh rs ss)) [] (ss_accepted ss) (ss_broken ss)"
proof (cases "ss_broken ss")
  case True
  with assms(4) drain_list_fields [of rs "ss_writeCh ss" ss] show ?thesis
    by (auto simp: ss_drainWriteCh_def intro: flow_broken)
next
  case False
  with assms drain_list_all [OF assms(1,2) False assms(3), of "ss_writeCh ss"] show ?thesis
    by (auto simp: ss_drainWriteCh_def flow_def)
qed

lemma drainWriteCh_fields:
  "ss_accepted (ss_drainWriteCh rs ss) = ss_accepted ss" "ss_phase (ss_drainWriteCh rs ss) = ss_phase ss"
  "ss_state (ss_drainWriteCh rs ss) = ss_state ss" "ss_broken (ss_drainWriteCh rs ss) = ss_broken ss"
  "ss_pendingData (ss_drainWriteCh rs ss) = ss_pendingData ss"
  "ss_backendConn (ss_drainWriteCh rs ss) = None \<longleftrightarrow> ss_backendConn ss = None"
  "ss_writeCh (ss_drainWriteCh rs ss) = []"
  "ss_writeCloseCh (ss_drainWriteCh rs ss) = ss_writeCloseCh ss"
  using drain_list_fields [of rs "ss_writeCh ss" ss] by (simp_all add: ss_drainWriteCh_def)

lemma shutdown_fields:
  "ss_out (ss_drainAndShutdownWrite rs ss) = ss_out (ss_drainWriteCh rs ss)"
  "ss_broken (ss_drainAndShutdownWrite rs ss) = ss_broken ss"
  "ss_accepted (ss_drainAndShutdownWrite rs ss) = ss_accepted ss"
  "ss_phase (ss_drainAndShutdownWrite rs ss) = ss_phase ss"
  "ss_state (ss_drainAndShutdownWrite rs ss) = ss_state ss"
  "ss_pendingData (ss_drainAndShutdownWrite rs ss) = ss_pendingData ss"
  "ss_backendConn (ss_drainAndShutdownWrite rs ss) = None \<longleftrightarrow> ss_backendConn ss = None"
  "ss_writeCh (ss_drainAndShutdownWrite rs ss) = []"
  "ss_writeCloseCh (ss_drainAndShutdownWrite rs ss) = ss_writeCloseCh ss"
  using drainWriteCh_fields [of rs ss]
  by (auto simp: ss_drainAndShutdownWrite_def ss_out_def ss_broken_def Let_def split: option.splits)

lemma writer_done_fields:
  "ss_phase ss = Running wd rd \<Longrightarrow> writer_done ss = ss\<lparr>ss_phase := Running True rd\<rparr>"
  by (simp add: writer_done_def)

lemma inv_writer_step:
  assumes "ss_inv ss" and "clean (GoWriter w rs)"
  shows "ss_inv (writeToBackend_step w rs ss)"
proof (cases "\<exists>rd. ss_phase ss = Running False rd")
  case True
  then obtain rd where p: "ss_phase ss = Running False rd" by blast
  have c: "ss_state ss \<noteq> StreamConnecting" "ss_pendingData ss = []" "ss_backendConn ss \<noteq> None"
    "ss_state ss = StreamClosed \<longrightarrow> ss_broken ss" "\<not> ss_shut ss"
    "flow (ss_out ss) (concat (ss_writeCh ss)) (ss_accepted ss) (ss_broken ss)"
    using assms(1) p by (auto simp: ss_inv_def ss_control_def ss_queued_def flushing_def)
  show ?thesis
  proof (cases w)
    case CaseData
    show ?thesis
    proof (cases "ss_writeCh ss")
      case Nil
      with assms(1) CaseData p show ?thesis by (simp add: writeToBackend_step_def)
    next
      case (Cons data q)
      let ?s = "ss\<lparr>ss_writeCh := q\<rparr>"
      obtain err ss' where wr: "backend_Write (fst (next_result rs)) data ?s = (err, ss')" by fastforce
      note f = backend_Write_fields [OF wr, simplified]
      have fl: "flow (ss_out ?s) (data @ concat q) (ss_accepted ?s) (ss_broken ?s)"
        using c(6) Cons by simp
      show ?thesis
      proof (cases err)
        case True
        with wr have "backend_Write (fst (next_result rs)) data ?s = (True, ss')" by simp
        from failed_write_breaks [OF this _ _ fl] True f CaseData Cons c(1-5) p wr show ?thesis
          by (simp add: writeToBackend_step_def ss_inv_def ss_control_def writer_done_fields)
      next
        case False
        then have "flow (ss_out ss') (concat q) (ss_accepted ss) (ss_broken ss)"
          using flow_moved [OF fl] f(12,13) by (cases "ss_broken ss") auto
        with False f CaseData Cons c(1-5) p wr show ?thesis
          by (simp add: writeToBackend_step_def ss_inv_def ss_control_def ss_queued_def flushing_def)
      qed
    qed
  next
    case CaseWriteClose
    with assms(2) have rs: "list_all (\<lambda>r. r = Written) rs" by simp
    from drainWriteCh_flow [OF rs c(3,5,6)] assms(1) CaseWriteClose p c(1-4) show ?thesis
      by (auto simp: writeToBackend_step_def ss_inv_def ss_control_def writer_done_fields
          shutdown_fields flushing_def)
  next
    case CaseClose
    with assms(2) have rs: "list_all (\<lambda>r. r = Written) rs" by simp
    from drainWriteCh_flow [OF rs c(3,5,6)] assms(1) CaseClose p c(1-4) show ?thesis
      by (auto simp: writeToBackend_step_def ss_inv_def ss_control_def writer_done_fields
          drainWriteCh_fields flushing_def)
  qed
qed (use assms(1) in \<open>auto simp: writeToBackend_step_def split: run_phase.split bool.split\<close>)

lemma inv_count_read: "ss_inv ss \<Longrightarrow> ss_inv (count_read data ss)"
  by (cases "ss_phase ss") (auto simp: ss_inv_def ss_views count_read_def)

lemma inv_reader_exit:
  assumes "ss_inv ss" and "reader_active ss"
  shows "ss_inv (reader_exit ss)"
proof -
  obtain wd where p: "ss_phase ss = Running wd False"
    using assms(2) by (auto simp: reader_active_def split: run_phase.splits bool.splits)
  with inv_ss_close [OF assms(1)] show ?thesis
    by (auto simp: reader_exit_def ss_inv_def ss_control_def ss_queued_def flushing_def Let_def)
qed

lemma inv_go_run1: "ss_inv ss \<Longrightarrow> clean g \<Longrightarrow> ss_inv (go_run1 g ss)"
  by (cases g) (simp_all add: inv_connect_ok inv_take_pending inv_connect_failed inv_flush_step inv_writer_step
      inv_count_read inv_reader_exit inv_ss_close)

interpretation backend: ordered_pipe ss_inv go_run1 clean ss_out ss_queued ss_accepted ss_broken
  by unfold_locales (auto simp: inv_go_run1, simp add: ss_inv_def)

lemma accepted_fields [simp]:
  "ss_out (ss\<lparr>ss_accepted := a\<rparr>) = ss_out ss" "ss_broken (ss\<lparr>ss_accepted := a\<rparr>) = ss_broken ss"
  "ss_shut (ss\<lparr>ss_accepted := a\<rparr>) = ss_shut ss"
  "ss_out (ss\<lparr>ss_pendingData := p\<rparr>) = ss_out ss" "ss_broken (ss\<lparr>ss_pendingData := p\<rparr>) = ss_broken ss"
  "ss_shut (ss\<lparr>ss_pendingData := p\<rparr>) = ss_shut ss"
  by (simp_all add: ss_views)

definition dialling :: "serverStream \<Rightarrow> bool" where
  "dialling ss \<longleftrightarrow> ss_phase ss = Dialing \<or> ss_phase ss = Dialed"

lemma inv_accept_data:
  assumes "ss_inv ss" and "\<not> dialling ss"
  shows "ss_inv (accept_data data ss)"
  using assms flow_accept [of "ss_out ss" "ss_queued ss" "ss_accepted ss" "ss_broken ss" data]
  by (cases "ss_phase ss") (auto simp: dialling_def ss_inv_def accept_data_def ss_control_def ss_queued_def)

lemma inv_accept_pending:
  assumes "ss_inv ss" and "ss_state ss = StreamConnecting"
  shows "ss_inv (ss\<lparr>ss_pendingData := ss_pendingData ss @ [data], ss_accepted := ss_accepted ss @ data\<rparr>)"
  using assms flow_accept [of "ss_out ss" "ss_queued ss" "ss_accepted ss" "ss_broken ss" data]
  by (cases "ss_phase ss") (auto simp: ss_inv_def ss_control_def ss_queued_def)

text \<open>A stream that is neither connecting nor told to stop writing has left the dialling phases.\<close>

lemma ss_inv_dialling:
  "ss_inv ss \<Longrightarrow> dialling ss \<Longrightarrow> ss_state ss = StreamConnecting \<or> ss_state ss = StreamClosed \<and> ss_writeCloseCh ss"
  by (cases "ss_state ss") (auto simp: ss_inv_def ss_control_def dialling_def)

text \<open>The dialling phases are not entered again.\<close>

lemma phase_go_run1: "\<not> dialling ss \<Longrightarrow> \<not> dialling (go_run1 g ss)"
proof (cases g)
  case (GoFlush r)
  assume "\<not> dialling ss"
  then show ?thesis
    using GoFlush backend_Write_fields(3)
    by (auto simp: flush_step_def dialling_def split: run_phase.splits list.splits prod.splits)
next
  case (GoWriter w rs)
  assume "\<not> dialling ss"
  then show ?thesis
    unfolding GoWriter go_run1.simps writeToBackend_step_def writer_done_def dialling_def
    by (auto simp: shutdown_fields drainWriteCh_fields dest!: backend_Write_fields(3)
        split: run_phase.splits list.splits prod.splits bool.splits writer_case.splits)
qed (auto simp: dialling_def connect_ok_def take_pending_def connect_failed_def count_read_def reader_exit_def Let_def split: run_phase.split)

lemma phase_go_run: "\<not> dialling ss \<Longrightarrow> \<not> dialling (fold go_run1 gs ss)"
  by (induction gs arbitrary: ss) (auto simp: phase_go_run1)

lemma inv_handleData:
  assumes "ss_inv ss" and "list_all clean race" and "list_all clean wait"
  shows "ss_inv (ss_handleData race wait data ss)"
proof -
  let ?s = "fold go_run1 race ss"
  let ?t = "fold go_run1 wait ?s"
  have s: "ss_inv ?s" using assms(1,2) by (rule backend.run_inv)
  have t: "ss_inv ?t" using s assms(3) by (rule backend.run_inv)
  show ?thesis
  proof (cases "dialling ?s")
    case True
    then have "dialling ss" using phase_go_run by blast
    then show ?thesis
      using s ss_inv_dialling [OF s True] ss_inv_dialling [OF assms(1)] inv_accept_pending [OF s]
      by (auto simp: ss_handleData_def Let_def)
  next
    case False
    then show ?thesis
      using s t inv_accept_pending [OF s] inv_accept_data [OF s False]
        inv_accept_data [OF t phase_go_run [OF False]] inv_ss_close [OF t]
      by (auto simp: ss_handleData_def Let_def)
  qed
qed

section \<open>Refusal is final\<close>

text \<open>A stream in this state takes no more data, and never leaves it.\<close>

definition refused :: "serverStream \<Rightarrow> bool" where
  "refused ss \<longleftrightarrow> ss_state ss = StreamClosed \<or> ss_state ss = StreamConnected \<and> ss_writeCloseCh ss"

text \<open>The part of the state that decides about refusal; most steps keep it or close the stream.\<close>

definition gate :: "serverStream \<Rightarrow> streamState \<times> bool \<times> bytes" where
  "gate ss = (ss_state ss, ss_writeCloseCh ss, ss_accepted ss)"

lemma gate_fields [simp]:
  "gate (ss\<lparr>ss_phase := p\<rparr>) = gate ss" "gate (ss\<lparr>ss_writeCh := q\<rparr>) = gate ss"
  "gate (add_bytesOut d ss) = gate ss" "gate (count_read d ss) = gate ss"
  "gate (writer_done ss) = gate ss" "gate (ss_drainWriteCh rs ss) = gate ss"
  "gate (ss_drainAndShutdownWrite rs ss) = gate ss"
  by (simp_all add: gate_def count_read_def writer_done_def drainWriteCh_fields shutdown_fields)

lemma gate_backend_Write: "backend_Write r data ss = (err, ss') \<Longrightarrow> gate ss' = gate ss"
  by (simp add: gate_def backend_Write_fields)

definition keeps :: "serverStream \<Rightarrow> serverStream \<Rightarrow> bool" where
  "keeps ss ss' \<longleftrightarrow> ss_accepted ss' = ss_accepted ss \<and> (refused ss \<longrightarrow> refused ss')
     \<and> (ss_writeCloseCh ss \<longrightarrow> ss_writeCloseCh ss')"

lemma keeps_gate: "gate ss' = gate ss \<Longrightarrow> keeps ss ss'"
  by (simp add: keeps_def gate_def refused_def)

lemma keeps_close: "gate ss' = gate ss \<Longrightarrow> gate ss'' = gate (ss_close ss') \<Longrightarrow> keeps ss ss''"
  using ss_close_writeCloseCh [of ss'] by (simp add: keeps_def gate_def refused_def)

lemma keeps_trans: "keeps ss ss' \<Longrightarrow> keeps ss' ss'' \<Longrightarrow> keeps ss ss''"
  by (simp add: keeps_def)

lemma keeps_closed:
  assumes "gate ss' = gate ss"
  shows "keeps ss (ss_close ss')" "keeps ss ((ss_close ss')\<lparr>ss_phase := p\<rparr>)"
    "keeps ss (writer_done (ss_close ss'))"
  using assms keeps_close by simp_all

lemma keeps_flush: "keeps ss (flush_step r ss)"
proof (cases "\<exists>data rest. ss_phase ss = Flushing (data # rest)")
  case True
  then obtain data rest where p: "ss_phase ss = Flushing (data # rest)" by blast
  obtain err ss' where w: "backend_Write r data ss = (err, ss')" by fastforce
  from gate_backend_Write [OF w] p w show ?thesis
    by (cases err) (simp_all add: flush_step_def keeps_closed keeps_gate)
qed (auto simp: flush_step_def keeps_gate split: run_phase.split list.split)

lemma keeps_writer: "keeps ss (writeToBackend_step w rs ss)"
proof (cases "\<exists>rd data q. ss_phase ss = Running False rd \<and> w = CaseData \<and> ss_writeCh ss = data # q")
  case True
  then obtain rd data q where p: "ss_phase ss = Running False rd" "w = CaseData" "ss_writeCh ss = data # q"
    by blast
  obtain err ss' where wr: "backend_Write (fst (next_result rs)) data (ss\<lparr>ss_writeCh := q\<rparr>) = (err, ss')"
    by fastforce
  from gate_backend_Write [OF wr] p wr show ?thesis
    by (cases err) (simp_all add: writeToBackend_step_def keeps_closed keeps_gate)
qed (auto simp: writeToBackend_step_def keeps_gate
      split: run_phase.split list.split bool.split writer_case.split)

lemma keeps_go_run1:
  assumes "ss_inv ss"
  shows "keeps ss (go_run1 g ss)"
proof (cases g)
  case GoTakePending
  with ss_inv_dialling [OF assms] show ?thesis
    by (auto simp: take_pending_def dialling_def keeps_def refused_def Let_def)
next
  case GoConnected
  then show ?thesis by (simp add: connect_ok_def keeps_def refused_def)
next
  case GoConnectFailed
  then show ?thesis by (simp add: connect_failed_def keeps_def refused_def)
qed (simp_all add: keeps_flush keeps_writer keeps_closed keeps_gate reader_exit_def Let_def)

lemma keeps_go_run:
  assumes "ss_inv ss" and "list_all clean gs"
  shows "keeps ss (fold go_run1 gs ss)"
  using assms
proof (induction gs arbitrary: ss)
  case (Cons g gs)
  have "keeps (go_run1 g ss) (fold go_run1 gs (go_run1 g ss))"
    using Cons.prems by (intro Cons.IH inv_go_run1) simp_all
  with keeps_go_run1 [OF Cons.prems(1)] show ?case by (auto intro: keeps_trans)
qed (simp add: keeps_gate)

text \<open>The handler takes the data over, or the stream refuses data from then on.\<close>

lemma handleData_accepts:
  assumes "ss_inv ss" and "list_all clean race" and "list_all clean wait"
    and "ss' = ss_handleData race wait data ss"
  shows "(refused ss \<longrightarrow> refused ss' \<and> ss_accepted ss' = ss_accepted ss)
    \<and> (ss_accepted ss' = ss_accepted ss @ data \<or> refused ss' \<and> ss_accepted ss' = ss_accepted ss)"
proof -
  let ?s = "fold go_run1 race ss"
  let ?t = "fold go_run1 wait ?s"
  have s: "ss_inv ?s" using assms(1,2) by (rule backend.run_inv)
  note k = keeps_go_run [OF assms(1,2)] keeps_go_run [OF s assms(3)]
  have past: "ss_state ?s \<noteq> StreamConnecting" if "ss_state ss = StreamConnected"
  proof -
    have "\<not> dialling ss" using ss_inv_dialling [OF assms(1)] that by auto
    then have "\<not> dialling ?s" by (rule phase_go_run)
    with s show ?thesis by (cases "ss_phase ?s") (simp_all add: dialling_def ss_inv_def ss_control_def)
  qed
  have stopped: "refused ?s" if "ss_writeCloseCh ?s" "ss_state ?s \<noteq> StreamConnecting"
    using that by (cases "ss_state ?s") (simp_all add: refused_def)
  show ?thesis
  proof (cases "ss_state ss")
    case StreamConnecting
    then show ?thesis
      using k stopped unfolding assms(4) ss_handleData_def Let_def
      by (auto simp: keeps_def accept_data_def refused_def)
  next
    case StreamConnected
    then show ?thesis
      using k stopped past unfolding assms(4) ss_handleData_def Let_def
      by (auto simp: keeps_def accept_data_def refused_def)
  next
    case StreamClosed
    with k(1) show ?thesis by (simp add: assms(4) ss_handleData_def Let_def keeps_def refused_def)
  qed
qed

lemma inv_handleClose: "ss_inv ss \<Longrightarrow> ss_inv (ss_handleClose ss)"
  by (cases "ss_phase ss") (auto simp: ss_inv_def ss_views ss_handleClose_def ss_closeWrite_def)

lemma inv_ss_step: "ss_inv ss \<Longrightarrow> clean_op op \<Longrightarrow> ss_inv (ss_step op ss)"
  by (cases op) (simp_all add: inv_handleData inv_handleClose inv_go_run1)

interpretation stream: ordered_pipe ss_inv ss_step clean_op ss_out ss_queued ss_accepted ss_broken
  by unfold_locales (auto simp: inv_ss_step, simp add: ss_inv_def)

text \<open>The data that a run gives to the handler.\<close>

fun ss_data :: "ss_op \<Rightarrow> bytes" where
  "ss_data (SsData race wait data) = data"
| "ss_data _ = []"

lemma ss_step_accepts:
  assumes "ss_inv ss" and "clean_op op" and "ss' = ss_step op ss"
  shows "(refused ss \<longrightarrow> refused ss' \<and> ss_accepted ss' = ss_accepted ss)
    \<and> (ss_accepted ss' = ss_accepted ss @ ss_data op \<or> refused ss' \<and> ss_accepted ss' = ss_accepted ss)"
proof (cases op)
  case (SsData race wait data)
  with assms handleData_accepts [OF assms(1), of race wait ss' data] show ?thesis by simp
next
  case SsClientClose
  with assms(3) show ?thesis by (auto simp: ss_handleClose_def ss_closeWrite_def refused_def)
next
  case (SsGo g)
  with assms(3) keeps_go_run1 [OF assms(1), of g] show ?thesis by (simp add: keeps_def)
qed

lemma accepted_prefix:
  assumes "list_all clean_op ops"
  shows "prefix (ss_accepted (ss_run sid ops)) (concat (map ss_data ops))
    \<and> (ss_accepted (ss_run sid ops) = concat (map ss_data ops) \<or> refused (ss_run sid ops))"
  using assms
proof (induction ops rule: rev_induct)
  case Nil
  then show ?case by (simp add: ss_run_def new_stream_def)
next
  case (snoc op ops)
  then have "ss_inv (ss_run sid ops)"
    unfolding ss_run_def by (intro stream.run_inv ss_inv_new) simp
  from ss_step_accepts [OF this _ refl, of op] snoc show ?case
    by (auto simp: ss_run_def prefix_def)
qed

lemma ss_out_prefix:
  assumes "list_all clean_op ops"
  shows "prefix (ss_out (ss_run sid ops)) (concat (map ss_data ops))"
proof -
  have "prefix (ss_out (ss_run sid ops)) (ss_accepted (ss_run sid ops))"
    unfolding ss_run_def using ss_inv_new assms by (rule stream.run_prefix)
  with accepted_prefix [OF assms] show ?thesis by (metis prefix_order.trans)
qed

section \<open>Progress\<close>

text \<open>While the dial is under way, data is pending.\<close>

lemma ss_handleData_pending:
  "ss_state ss = StreamConnecting \<Longrightarrow> data \<noteq> [] \<Longrightarrow>
   ss_handleData [] wait data ss =
     ss\<lparr>ss_pendingData := ss_pendingData ss @ [data], ss_accepted := ss_accepted ss @ data\<rparr>"
  by (simp add: ss_handleData_def)

text \<open>With a working backend the flush takes one step for each pending block and one more.\<close>

lemma flush_all:
  assumes "ss_phase ss = Flushing ds" and "ss_backendConn ss = Some c" and "\<not> t_closed c" and "\<not> t_shut c"
  shows "\<exists>ss' c'. fold go_run1 (replicate (Suc (length ds)) (GoFlush Written)) ss = ss'
    \<and> ss_phase ss' = Running False False \<and> ss_backendConn ss' = Some c' \<and> \<not> t_closed c' \<and> \<not> t_shut c'
    \<and> ss_accepted ss' = ss_accepted ss \<and> ss_pendingData ss' = ss_pendingData ss
    \<and> ss_writeCloseCh ss' = ss_writeCloseCh ss"
  using assms
proof (induction ds arbitrary: ss c)
  case Nil
  then show ?case by (simp add: flush_step_def)
next
  case (Cons d ds)
  let ?s = "go_run1 (GoFlush Written) ss"
  have s: "ss_phase ?s = Flushing ds" "ss_backendConn ?s = Some (c\<lparr>t_out := t_out c @ d\<rparr>)"
    "ss_accepted ?s = ss_accepted ss" "ss_pendingData ?s = ss_pendingData ss"
    "ss_writeCloseCh ?s = ss_writeCloseCh ss"
    using Cons.prems
    by (simp_all add: flush_step_def backend_Write_def tcp_Write_ok add_bytesOut_def)
  have "fold go_run1 (replicate (Suc (length (d # ds))) (GoFlush Written)) ss =
      fold go_run1 (replicate (Suc (length ds)) (GoFlush Written)) ?s"
    by simp
  with Cons.IH [OF s(1,2)] Cons.prems(3,4) s(3-5) show ?case by (simp del: replicate_Suc)
qed

lemma shutdown_delivers:
  assumes "ss_inv ss" and "ss_phase ss = Running False rd" and "\<not> ss_broken ss" and "ss_writeCloseCh ss"
    and "ss' = go_run1 (GoWriter CaseWriteClose []) ss"
  shows "ss_out ss' = ss_accepted ss \<and> ss_shut ss' \<and> ss_phase ss' = Running True rd"
proof -
  have s': "ss' = writer_done (ss_drainAndShutdownWrite [] ss)"
    using assms(2,4,5) by (simp add: writeToBackend_step_def)
  have c: "ss_pendingData ss = []" "ss_backendConn ss \<noteq> None" "\<not> ss_shut ss"
    "ss_out ss @ concat (ss_writeCh ss) = ss_accepted ss"
    using assms(1-3) by (auto simp: ss_inv_def ss_control_def ss_queued_def flushing_def flow_def)
  have "ss_out (ss_drainAndShutdownWrite [] ss) = ss_accepted ss"
    using drain_list_all [OF _ c(2) assms(3) c(3), of "[]" "ss_writeCh ss"] c(4)
    by (simp add: shutdown_fields ss_drainWriteCh_def)
  moreover have "ss_shut (ss_drainAndShutdownWrite [] ss)"
    using drainWriteCh_fields(6) [of "[]" ss] c(2)
    by (auto simp: ss_drainAndShutdownWrite_def ss_shut_def Let_def split: option.split)
  ultimately show ?thesis
    unfolding s' writer_done_fields [OF trans [OF shutdown_fields(4) assms(2)]] by simp
qed

section \<open>Properties\<close>

text \<open>
  C3. The server forwards a stream in order. Whatever the interleaving of the receive goroutine with
  the goroutines of the stream, whenever the backend connection is established, and however the
  writes of flush and writer fail: the bytes that the backend received are a prefix of the bytes given to
  \<open>handleReliableData\<close>, in order, with no byte lost, repeated or reordered in between; only writes that
  fail while the queue is drained at the end are excluded.
\<close>

theorem server_forwards_in_order:
  assumes "list_all clean_op ops"
  shows "prefix (ss_out (ss_run sid ops)) (concat (map ss_data ops))"
  using assms by (rule ss_out_prefix)

theorem server_forwards_in_order_witness:
  "ss_out (ss_run 2 [SsData [] [] [1, 2], SsGo GoConnected, SsGo GoTakePending, SsData [] [] [3], SsGo (GoFlush Written)]) = [1, 2]
   \<and> prefix (ss_out (ss_run 2 [SsData [] [] [1, 2], SsGo GoConnected, SsGo GoTakePending, SsData [] [] [3], SsGo (GoFlush Written)]))
       [1, 2, 3]"
proof -
  let ?ops = "[SsData [] [] [1, 2], SsGo GoConnected, SsGo GoTakePending, SsData [] [] [3], SsGo (GoFlush Written)]"
  have "list_all clean_op ?ops" by simp
  from server_forwards_in_order [OF this, of 2] have "prefix (ss_out (ss_run 2 ?ops)) [1, 2, 3]" by simp
  moreover have "ss_out (ss_run 2 ?ops) = [1, 2]" by code_simp
  ultimately show ?thesis by blast
qed

text \<open>
  C7. Nothing is left behind on the server. When the client has closed its side while the server is
  still dialling, a successful dial, the flush of the pending blocks and the drain give the backend every
  byte accepted and then the end of the stream; and at any later moment, with the backend connection open, the
  writer's reaction to the close does.
\<close>

theorem server_delivers_all:
  assumes "list_all clean_op ops" and "ss = ss_run sid ops" and "ss_writeCloseCh ss"
  shows "(ss_phase ss = Dialing \<and> ss_state ss = StreamConnecting \<longrightarrow>
      (let ss' = fold go_run1 (GoConnected # GoTakePending # replicate (Suc (length (ss_pendingData ss))) (GoFlush Written)
                    @ [GoWriter CaseWriteClose []]) ss
       in ss_out ss' = concat (map ss_data ops) \<and> ss_shut ss'))
    \<and> (\<forall>rd. ss_phase ss = Running False rd \<and> \<not> ss_broken ss \<longrightarrow>
      (let ss' = go_run1 (GoWriter CaseWriteClose []) ss in ss_out ss' = ss_accepted ss \<and> ss_shut ss'))"
proof -
  have inv: "ss_inv ss" unfolding assms(2) ss_run_def using ss_inv_new assms(1) by (rule stream.run_inv)
  have "ss_out ss' = concat (map ss_data ops) \<and> ss_shut ss'"
    if d: "ss_phase ss = Dialing" "ss_state ss = StreamConnecting"
      and ss': "ss' = fold go_run1 (GoConnected # GoTakePending # replicate (Suc (length (ss_pendingData ss))) (GoFlush Written)
                    @ [GoWriter CaseWriteClose []]) ss" for ss'
  proof -
    let ?n = "replicate (Suc (length (ss_pendingData ss))) (GoFlush Written)"
    have connected: "ss_phase (connect_ok ss) = Dialed" by (simp add: connect_ok_def)
    let ?c = "take_pending (connect_ok ss)"
    let ?s = "fold go_run1 ?n ?c"
    have "ss_phase ?c = Flushing (ss_pendingData ss)" "ss_backendConn ?c = Some tcp_new"
      "\<not> t_closed tcp_new" "\<not> t_shut tcp_new"
      by (simp_all add: connect_ok_def take_pending_def tcp_new_def Let_def)
    from flush_all [OF this] obtain c where
      s: "ss_phase ?s = Running False False" "ss_backendConn ?s = Some c" "\<not> t_closed c"
      "ss_accepted ?s = ss_accepted ss" "ss_writeCloseCh ?s"
      using assms(3) by (auto simp: connect_ok_def take_pending_def Let_def simp del: replicate_Suc)
    have "ss_inv ?s"
      using inv_take_pending [OF inv_connect_ok [OF inv d(1)]]
      by (rule backend.run_inv) (simp_all add: list_all_iff connect_ok_def)
    moreover have "ss_accepted ss = concat (map ss_data ops)"
      using accepted_prefix [OF assms(1), of sid] d(2) by (simp add: assms(2) refused_def)
    ultimately show ?thesis
      using shutdown_delivers [OF _ s(1) _ s(5) refl] s(2-4) d(1) unfolding ss'
      by (simp add: connected ss_broken_def del: replicate_Suc)
  qed
  then show ?thesis
    using shutdown_delivers [OF inv _ _ assms(3) refl] by (simp add: Let_def del: replicate_Suc)
qed

theorem server_delivers_all_witness:
  "ss_out (fold go_run1 [GoConnected, GoTakePending, GoFlush Written, GoFlush Written, GoWriter CaseWriteClose []]
      (ss_run 2 [SsData [] [] [1, 2], SsClientClose])) = [1, 2]"
proof -
  let ?ops = "[SsData [] [] [1, 2], SsClientClose]"
  have "ss_pendingData (ss_run 2 ?ops) = [[1, 2]]" "ss_phase (ss_run 2 ?ops) = Dialing"
    "ss_state (ss_run 2 ?ops) = StreamConnecting" "ss_writeCloseCh (ss_run 2 ?ops)" by code_simp+
  with server_delivers_all [of ?ops, OF _ refl, of 2] show ?thesis by (simp add: Let_def)
qed

text \<open>
  A gap in the backend's data. \<open>drainWriteCh\<close> goes on after a failed write: when the write of the
  first queued block fails after \<open>n\<close> bytes and the next one succeeds, the backend receives the second
  block right after the first \<open>n\<close> bytes of the first one.
\<close>

theorem drain_leaves_gap:
  assumes "ss_backendConn ss = Some c" and "\<not> t_closed c" and "\<not> t_shut c" and "ss_writeCh ss = [d1, d2]"
  shows "ss_out (ss_drainWriteCh [WriteFailed n, Written] ss) = ss_out ss @ take n d1 @ d2"
  using assms by (simp add: ss_drainWriteCh_def backend_Write_def tcp_Write_def add_bytesOut_def ss_out_def)

theorem drain_leaves_gap_witness:
  "ss_out (ss_drainWriteCh [WriteFailed 1, Written]
     (fold ss_step [SsGo GoConnected, SsGo GoTakePending, SsGo (GoFlush Written), SsData [] [] [1, 2], SsData [] [] [3]]
        (new_stream 2))) = [1, 3]"
proof -
  let ?ss = "fold ss_step [SsGo GoConnected, SsGo GoTakePending, SsGo (GoFlush Written), SsData [] [] [1, 2], SsData [] [] [3]]
        (new_stream 2)"
  have "ss_backendConn ?ss = Some tcp_new" "ss_writeCh ?ss = [[1, 2], [3]]" "ss_out ?ss = []" by code_simp+
  with drain_leaves_gap [of ?ss tcp_new "[1, 2]" "[3]" 1] show ?thesis by (simp add: tcp_new_def)
qed

text \<open>
  Closing a stream that is still dialling is undone by the dial: \<open>connectAndRun\<close> stores the
  connected state without looking at the current one, so the closed stream is connected again, with a
  backend connection that nothing has closed.
\<close>

theorem dial_undoes_close:
  assumes "ss_phase ss = Dialing"
  shows "ss_state (ss_close ss) = StreamClosed
    \<and> (let ss' = fold go_run1 [GoConnected, GoTakePending] (ss_close ss)
       in ss_state ss' = StreamConnected \<and> ss_backendConn ss' = Some tcp_new \<and> \<not> t_closed tcp_new)"
  using assms by (simp add: connect_ok_def take_pending_def tcp_new_def Let_def)

theorem dial_undoes_close_witness:
  "ss_state (fold go_run1 [GoConnected, GoTakePending] (ss_close (ss_run 2 [SsData [] [] [1]]))) = StreamConnected"
proof -
  have "ss_phase (ss_run 2 [SsData [] [] [1]]) = Dialing" by code_simp
  from dial_undoes_close [OF this] show ?thesis by (simp add: Let_def)
qed

end
