(* ===== verification/RelSystem.thy ===== *)
theory RelSystem
  imports RelReceiver RelSender
begin

text \<open>
  Two ends of a reliable stream over a network that loses, duplicates and reorders packets: what one
  end delivers is a prefix of what the other end was given to send.
\<close>

section \<open>Everything a stream can put on the wire\<close>

text \<open>All bytes that a stream has sent or keeps for retransmission satisfy \<open>P\<close>.\<close>

definition all_out :: "(bytes \<Rightarrow> bool) \<Rightarrow> rstream \<Rightarrow> bool" where
  "all_out P rs \<longleftrightarrow>
     (\<forall>b \<in> set (sentLog rs). P b) \<and> (\<forall>k b. stored (unacked rs) k = Some b \<longrightarrow> P b)"

lemma all_out_cong:
  "sentLog rs = sentLog rs' \<Longrightarrow> unacked rs = unacked rs' \<Longrightarrow> all_out P rs = all_out P rs'"
  by (simp add: all_out_def)

lemma all_out_upd [simp]:
  "all_out P (rs\<lparr>sendSeq := a\<rparr>) = all_out P rs"
  "all_out P (rs\<lparr>sendBase := a\<rparr>) = all_out P rs"
  "all_out P (rs\<lparr>dupAckCount := c\<rparr>) = all_out P rs"
  "all_out P (rs\<lparr>lastSackTime := t\<rparr>) = all_out P rs"
  "all_out P (rs\<lparr>windowAvail := b\<rparr>) = all_out P rs"
  "all_out P (rs\<lparr>recvNext := a\<rparr>) = all_out P rs"
  "all_out P (rs\<lparr>outOfOrder := buf\<rparr>) = all_out P rs"
  "all_out P (rs\<lparr>rttEstimator := r\<rparr>) = all_out P rs"
  "all_out P (rs\<lparr>pendingAck := b\<rparr>) = all_out P rs"
  "all_out P (rs\<lparr>ackTimer := tm\<rparr>) = all_out P rs"
  "all_out P (rs\<lparr>recvCounter := a\<rparr>) = all_out P rs"
  "all_out P (rs\<lparr>packetsIn := x\<rparr>) = all_out P rs"
  by (simp_all add: all_out_def)

lemma all_out_ops [simp]:
  "all_out P (deliver data rs) = all_out P rs"
  "all_out P (signalWindowAvail rs) = all_out P rs"
  "all_out P (cancelAckTimer rs) = all_out P rs"
  "all_out P (pace e rs) = all_out P rs"
  "all_out P (onAckAdvance k rs) = all_out P rs"
  "all_out P (onLossFast e rs) = all_out P rs"
  "all_out P (Close rs) = all_out P rs"
  by (simp_all add: all_out_def deliver_def signalWindowAvail_def cancelAckTimer_def pace_def
      onAckAdvance_def onLossFast_def Close_def Let_def)

lemma all_out_deliverOutOfOrder [simp]: "all_out P (deliverOutOfOrder rs) = all_out P rs"
proof (induction rs rule: deliverOutOfOrder.induct)
  case (1 rs)
  then show ?case
    by (cases "fmlookup (outOfOrder rs) (recvNext rs)") (simp_all add: deliverOutOfOrder.simps [of rs])
qed

lemma all_out_sendAll: "all_out P (sendAll bufs rs) \<longleftrightarrow> all_out P rs \<and> list_all P bufs"
  by (auto simp: all_out_def sendAll_def list_all_iff)

lemma all_out_store:
  "all_out P rs \<Longrightarrow> P (Marshal pkt) \<Longrightarrow> all_out P (store_unacked e pkt rs)"
  by (auto simp: all_out_def store_unacked_def stored_def split: if_splits)

text \<open>The loops: the state and the list of queued buffers.\<close>

definition all_queued :: "(bytes \<Rightarrow> bool) \<Rightarrow> rstream \<times> bytes list \<Rightarrow> bool" where
  "all_queued P st \<longleftrightarrow> all_out P (fst st) \<and> list_all P (snd st)"

lemma all_queued_retransmit_one: "all_queued P st \<Longrightarrow> all_queued P (retransmit_one now seq st)"
proof (cases "fmlookup (unacked (fst st)) seq")
  case None
  then show "all_queued P st \<Longrightarrow> ?thesis" by (cases st) (simp add: retransmit_one_def)
next
  case (Some up)
  assume q: "all_queued P st"
  then have "P (up_data up)" using Some by (auto simp: all_queued_def all_out_def stored_def)
  with q Some show ?thesis
    by (cases st) (auto simp: retransmit_one_def all_queued_def all_out_def stored_def split: if_splits)
qed

lemma all_queued_check_one: "all_queued P st \<Longrightarrow> all_queued P (check_one now rtoNs seq st)"
proof -
  assume q: "all_queued P st"
  obtain rs out where st: "st = (rs, out)" by (cases st)
  have "all_queued P (rs\<lparr>unacked := fmdrop seq (unacked rs)\<rparr>, out)"
    using q st by (auto simp: all_queued_def all_out_def stored_def split: if_splits)
  with q st all_queued_retransmit_one [OF q] show ?thesis
    by (simp add: check_one_def split: option.split)
qed

lemma all_queued_folds:
  "all_queued P st \<Longrightarrow> all_queued P (fold (retransmit_one now) seqs st)"
  "all_queued P st \<Longrightarrow> all_queued P (fold (check_one now rtoNs) seqs st)"
  by (rule fold_invariant, erule all_queued_retransmit_one, assumption)
    (rule fold_invariant, erule all_queued_check_one, assumption)

lemma all_out_queued: "all_queued P st \<Longrightarrow> all_out P (sendAll (snd st) (fst st))"
  by (simp add: all_queued_def all_out_sendAll)

lemma all_out_ack_fold: "all_out P rs \<Longrightarrow> all_out P (fst (fold (ack_one e) seqs (rs, k)))"
proof -
  assume "all_out P rs"
  moreover have "sentLog (fst (fold (ack_one e) seqs (rs, k))) = sentLog (fst (rs, k))"
    by (rule fold_keeps_pair) (simp add: ack_one_def Let_def split: prod.split option.split)
  ultimately show ?thesis by (auto simp: all_out_def stored_ack_fold split: if_splits)
qed

lemma all_out_marked [simp]:
  "stored un = stored (unacked rs) \<Longrightarrow> all_out P (rs\<lparr>unacked := un\<rparr>) = all_out P rs"
  by (simp add: all_out_def)

lemma all_out_retransmits [simp]:
  assumes "all_out P rs"
  shows "all_out P (fst (fold (retransmit_one now) seqs (rs, [])))"
    and "list_all P (snd (fold (retransmit_one now) seqs (rs, [])))"
    and "all_out P (fst (retransmit_one now seq (rs, [])))"
    and "list_all P (snd (retransmit_one now seq (rs, [])))"
  using all_queued_folds(1) [of P "(rs, [])" now seqs] all_queued_retransmit_one [of P "(rs, [])" now seq]
    assms by (simp_all add: all_queued_def)

lemma all_out_ack_duplicate: "all_out P rs \<Longrightarrow> all_out P (ack_duplicate e ack blocks rs)"
  by (simp add: ack_duplicate_def Let_def split_beta all_out_sendAll split: option.split)

lemma all_out_ack_new: "all_out P rs \<Longrightarrow> all_out P (ack_new e ack blocks rs)"
  by (simp add: ack_new_def Let_def split_beta all_out_sendAll all_out_ack_fold)

lemma all_out_processAck: "all_out P rs \<Longrightarrow> all_out P (processAck e ack blocks rs)"
  by (simp add: processAck_def all_out_ack_duplicate all_out_ack_new)

lemma all_out_checkRetransmit:
  assumes "all_out P rs"
  shows "all_out P (checkRetransmit e rs)"
  using assms all_queued_folds(2) [of P "(rs, [])"]
  by (simp add: checkRetransmit_def Let_def split_beta all_out_sendAll all_queued_def onLossRTO_eq)

text \<open>Packets without data satisfy \<open>P\<close>: acknowledgements and the close packet.\<close>

definition control_ok :: "(bytes \<Rightarrow> bool) \<Rightarrow> u32 \<Rightarrow> bool" where
  "control_ok P sid \<longleftrightarrow>
     (\<forall>pkt. wf_rpacket pkt \<and> rp_StreamID pkt = sid \<and> rp_Data pkt = [] \<longrightarrow> P (Marshal pkt))"

lemma control_okD:
  "control_ok P sid \<Longrightarrow> wf_rpacket pkt \<Longrightarrow> rp_StreamID pkt = sid \<Longrightarrow> rp_Data pkt = [] \<Longrightarrow> P (Marshal pkt)"
  by (simp add: control_ok_def)

lemma all_out_acks:
  assumes "control_ok P (streamID rs)" and "all_out P rs"
  shows "all_out P (sendAckNow rs)" and "all_out P (sendAckWithSack e rs)"
proof -
  have "P (Marshal \<lparr>rp_StreamID = streamID rs, rp_Flags = FlagAck, rp_Seq = 0,
                 rp_Ack = recvNext rs, rp_SackBlocks = [], rp_Data = []\<rparr>)"
    by (rule control_okD [OF assms(1)]) (simp_all add: wf_rpacket_def flag_defs)
  moreover have "P (Marshal \<lparr>rp_StreamID = streamID rs, rp_Flags = FlagAck OR FlagSack, rp_Seq = 0,
                 rp_Ack = recvNext rs, rp_SackBlocks = buildSackBlocks e r, rp_Data = []\<rparr>)" for r
    by (rule control_okD [OF assms(1)])
      (simp_all add: wf_rpacket_def flag_defs length_buildSackBlocks)
  ultimately show "all_out P (sendAckNow rs)" "all_out P (sendAckWithSack e rs)"
    using assms(2)
    by (simp_all add: sendAckNow_def sendAckWithSack_def Let_def all_out_sendAll cancelAckTimer_def)
qed

lemma all_out_scheduleAck:
  "control_ok P (streamID rs) \<Longrightarrow> all_out P rs \<Longrightarrow> all_out P (scheduleAck e rs)"
  by (simp add: scheduleAck_def Let_def all_out_acks)

lemma streamID_deliverOutOfOrder [simp]: "streamID (deliverOutOfOrder rs) = streamID rs"
  using id_view_deliverOutOfOrder [of rs] by (simp add: id_view_def)

lemma streamID_processAck [simp]: "streamID (processAck e ack blocks rs) = streamID rs"
  using id_view_processAck [of e ack blocks rs] by (simp add: id_view_def)

lemma streamID_deliver [simp]: "streamID (deliver data rs) = streamID rs"
  by (simp add: deliver_def)

lemma all_out_processData:
  assumes "control_ok P (streamID rs)" and "all_out P rs"
  shows "all_out P (processData e seq data rs)"
  using assms by (simp add: processData_def Let_def all_out_acks all_out_scheduleAck)

lemma all_out_Receive:
  assumes "control_ok P (streamID rs)" and "all_out P rs"
  shows "all_out P (snd (Receive e pkt rs))"
  using assms by (simp add: Receive_def Let_def all_out_processAck all_out_processData)

lemma all_out_SendClose:
  assumes "control_ok P (streamID rs)" and "all_out P rs"
  shows "all_out P (snd (SendClose e rs))"
proof -
  have "P (Marshal \<lparr>rp_StreamID = streamID rs, rp_Flags = FlagClose OR FlagAck, rp_Seq = sendSeq rs,
                 rp_Ack = recvNext rs, rp_SackBlocks = [], rp_Data = []\<rparr>)"
    by (rule control_okD [OF assms(1)]) (simp_all add: wf_rpacket_def flag_defs)
  with assms(2) show ?thesis by (simp add: SendClose_def Let_def all_out_sendAll all_out_store)
qed

lemma all_out_Send_commit:
  assumes "P (Marshal (data_packet e seq data rs))" and "all_out P rs"
  shows "all_out P (snd (Send_commit e seq data rs))"
  using assms by (simp add: Send_commit_def Let_def all_out_sendAll all_out_store cancelAckTimer_def)

lemma all_out_loopDone: "all_out P (rs\<lparr>loopDone := b\<rparr>) = all_out P rs"
  by (simp add: all_out_def)

lemma all_out_step:
  assumes "control_ok P (streamID rs)" and "all_out P rs"
    and "\<And>e seq data. op = OpSendCommit e seq data \<Longrightarrow> P (Marshal (data_packet e seq data rs))"
  shows "all_out P (stream_step op rs)"
  using assms
  by (cases op)
    (auto simp: Send_alloc_def all_out_Send_commit all_out_SendClose all_out_Receive
      ackTimerFunc_def all_out_acks retransmitLoop_tick_def all_out_checkRetransmit all_out_loopDone)

section \<open>Endpoints and network\<close>

text \<open>
  An endpoint: its stream, the blocks given to \<open>Send\<close> in the order in which their sequence numbers
  were taken (an empty block stands at the position of the close packet), and the positions whose
  \<open>Send\<close> still waits for the window. A waiting \<open>Send\<close> may go on at any later moment, since other
  goroutines run between its check of the window and its transmission.
\<close>

record endpoint =
  ep_stream :: rstream
  ep_items :: "bytes list"
  ep_waiting :: "nat list"

definition new_endpoint :: "u32 \<Rightarrow> endpoint" where
  "new_endpoint sid = \<lparr>ep_stream = NewReliableStream sid, ep_items = [], ep_waiting = []\<rparr>"

inductive ep_step :: "endpoint \<Rightarrow> endpoint \<Rightarrow> bool" where
  alloc: "Send_alloc (ep_stream ep) = Inr (seq, rs') \<Longrightarrow>
    ep_step ep (ep\<lparr>ep_stream := rs', ep_items := ep_items ep @ [data],
                   ep_waiting := ep_waiting ep @ [length (ep_items ep)]\<rparr>)"
| commit: "i \<in> set (ep_waiting ep) \<Longrightarrow>
    ep_step ep (ep\<lparr>ep_stream := snd (Send_commit e (of_nat i) (ep_items ep ! i) (ep_stream ep)),
                   ep_waiting := remove1 i (ep_waiting ep)\<rparr>)"
| give_up: "i \<in> set (ep_waiting ep) \<Longrightarrow> rs_closed (ep_stream ep) \<Longrightarrow>
    ep_step ep (ep\<lparr>ep_waiting := remove1 i (ep_waiting ep)\<rparr>)"
| send_close: "\<not> rs_closed (ep_stream ep) \<Longrightarrow>
    ep_step ep (ep\<lparr>ep_stream := snd (SendClose e (ep_stream ep)), ep_items := ep_items ep @ [[]]\<rparr>)"
| internal: "op \<in> {OpSendWake, OpAckTimer, OpTick e, OpClose} \<Longrightarrow>
    ep_step ep (ep\<lparr>ep_stream := stream_step op (ep_stream ep)\<rparr>)"

text \<open>
  Two endpoints of the stream \<open>sid\<close>. Any buffer that one end has ever sent may arrive at the other
  end, at any time, any number of times, or never. Both stream objects live through the whole exchange: the
  removal of a stream from the manager's table on a close packet, and its creation anew by a later packet, belong to
  RelManager and are not part of this system.
\<close>

inductive network :: "u32 \<Rightarrow> endpoint \<Rightarrow> endpoint \<Rightarrow> bool" for sid where
  start: "network sid (new_endpoint sid) (new_endpoint sid)"
| left: "network sid A B \<Longrightarrow> ep_step A A' \<Longrightarrow> network sid A' B"
| right: "network sid A B \<Longrightarrow> ep_step B B' \<Longrightarrow> network sid A B'"
| to_right: "network sid A B \<Longrightarrow> b \<in> set (sentLog (ep_stream A)) \<Longrightarrow> UnmarshalReliable b = Inr pkt \<Longrightarrow>
    network sid A (B\<lparr>ep_stream := snd (Receive e pkt (ep_stream B))\<rparr>)"
| to_left: "network sid A B \<Longrightarrow> b \<in> set (sentLog (ep_stream B)) \<Longrightarrow> UnmarshalReliable b = Inr pkt \<Longrightarrow>
    network sid (A\<lparr>ep_stream := snd (Receive e pkt (ep_stream A))\<rparr>) B"

section \<open>Invariants\<close>

definition bytes_from :: "u32 \<Rightarrow> bytes list \<Rightarrow> bytes \<Rightarrow> bool" where
  "bytes_from sid items b \<longleftrightarrow>
     (\<exists>p. b = Marshal p \<and> wf_rpacket p \<and> rp_StreamID p = sid
        \<and> (carries_data p \<longrightarrow> (\<exists>i. genuine_at items i p)))"

definition sender_inv :: "u32 \<Rightarrow> endpoint \<Rightarrow> bool" where
  "sender_inv sid ep \<longleftrightarrow>
     streamID (ep_stream ep) = sid \<and> sendSeq (ep_stream ep) = of_nat (length (ep_items ep))
     \<and> all_out (bytes_from sid (ep_items ep)) (ep_stream ep)
     \<and> (\<forall>i \<in> set (ep_waiting ep). i < length (ep_items ep))"

lemma control_ok_bytes_from [simp]: "control_ok (bytes_from sid items) sid"
  by (auto simp: control_ok_def bytes_from_def carries_data_def)

lemma genuine_at_append: "genuine_at items i p \<Longrightarrow> genuine_at (items @ xs) i p"
  by (simp add: genuine_at_def nth_append)

lemma bytes_from_append: "bytes_from sid items b \<Longrightarrow> bytes_from sid (items @ xs) b"
  unfolding bytes_from_def using genuine_at_append by blast

lemma all_out_mono: "all_out P rs \<Longrightarrow> (\<And>b. P b \<Longrightarrow> Q b) \<Longrightarrow> all_out Q rs"
  by (simp add: all_out_def)

lemma all_out_append:
  "all_out (bytes_from sid items) rs \<Longrightarrow> all_out (bytes_from sid (items @ xs)) rs"
  using all_out_mono bytes_from_append by blast

lemma bytes_from_data_packet:
  "i < length items \<Longrightarrow> bytes_from (streamID rs) items (Marshal (data_packet e (of_nat i) (items ! i) rs))"
  unfolding bytes_from_def
  by (intro exI [of _ "data_packet e (of_nat i) (items ! i) rs"])
    (auto simp: wf_data_packet genuine_at_def)

lemma sender_inv_new: "sender_inv sid (new_endpoint sid)"
  by (simp add: sender_inv_def new_endpoint_def NewReliableStream_def all_out_def stored_def)


lemma ids_step:
  assumes "op \<noteq> OpSendAlloc" and "\<And>e. op \<noteq> OpSendClose e"
  shows "streamID (stream_step op rs) = streamID rs" and "sendSeq (stream_step op rs) = sendSeq rs"
proof -
  have "streamID (Close rs) = streamID rs \<and> sendSeq (Close rs) = sendSeq rs"
    by (simp add: Close_def signalWindowAvail_def cancelAckTimer_def)
  then show "streamID (stream_step op rs) = streamID rs" "sendSeq (stream_step op rs) = sendSeq rs"
    using id_view_step [of op rs] assms by (cases "op = OpClose", auto simp: id_view_def)+
qed

lemma sender_inv_stream:
  assumes "sender_inv sid ep" and "streamID rs = sid" and "sendSeq rs = sendSeq (ep_stream ep)"
    and "all_out (bytes_from sid (ep_items ep)) rs"
  shows "sender_inv sid (ep\<lparr>ep_stream := rs\<rparr>)"
  using assms by (simp add: sender_inv_def)

lemma sender_inv_op:
  assumes inv: "sender_inv sid ep" and op: "op \<noteq> OpSendAlloc" "\<And>e. op \<noteq> OpSendClose e"
    and data: "\<And>e seq data. op = OpSendCommit e seq data \<Longrightarrow>
      bytes_from sid (ep_items ep) (Marshal (data_packet e seq data (ep_stream ep)))"
  shows "sender_inv sid (ep\<lparr>ep_stream := stream_step op (ep_stream ep)\<rparr>)"
proof (rule sender_inv_stream [OF inv])
  show "all_out (bytes_from sid (ep_items ep)) (stream_step op (ep_stream ep))"
    using inv data by (intro all_out_step) (simp_all add: sender_inv_def)
qed (use inv op in \<open>simp_all add: ids_step sender_inv_def\<close>)

lemma sender_inv_waiting:
  "sender_inv sid ep \<Longrightarrow> sender_inv sid (ep\<lparr>ep_waiting := remove1 i (ep_waiting ep)\<rparr>)"
  using set_remove1_subset [of i "ep_waiting ep"] by (auto simp: sender_inv_def)

lemma sender_inv_step: "ep_step ep ep' \<Longrightarrow> sender_inv sid ep \<Longrightarrow> sender_inv sid ep'"
proof (induction rule: ep_step.induct)
  case (alloc ep seq rs' data)
  then have "rs' = (ep_stream ep)\<lparr>sendSeq := sendSeq (ep_stream ep) + 1\<rparr>"
    by (auto simp: Send_alloc_def split: if_splits)
  with alloc show ?case by (auto simp: sender_inv_def all_out_append add.commute)
next
  case (commit i ep e)
  have "bytes_from sid (ep_items ep)
      (Marshal (data_packet e (of_nat i) (ep_items ep ! i) (ep_stream ep)))"
    using commit bytes_from_data_packet by (auto simp: sender_inv_def)
  then have "sender_inv sid (ep\<lparr>ep_stream := stream_step
      (OpSendCommit e (of_nat i) (ep_items ep ! i)) (ep_stream ep)\<rparr>)"
    by (intro sender_inv_op [OF commit(2)]) simp_all
  then show ?case using sender_inv_waiting [of sid _ i] by fastforce
next
  case (give_up i ep)
  then show ?case by (simp add: sender_inv_waiting)
next
  case (send_close ep e)
  have "all_out (bytes_from sid (ep_items ep)) (snd (SendClose e (ep_stream ep)))"
    using send_close(2) by (intro all_out_SendClose) (simp_all add: sender_inv_def)
  moreover have "streamID (snd (SendClose e (ep_stream ep))) = sid"
    "sendSeq (snd (SendClose e (ep_stream ep))) = sendSeq (ep_stream ep) + 1"
    using id_view_SendClose [of e "ep_stream ep"] send_close
    by (simp_all add: id_view_def sender_inv_def)
  ultimately show ?case
    using send_close(2) by (auto simp: sender_inv_def all_out_append add.commute)
next
  case (internal op e ep)
  then show ?case by (intro sender_inv_op) auto
qed

lemma sender_inv_Receive:
  assumes "sender_inv sid ep"
  shows "sender_inv sid (ep\<lparr>ep_stream := snd (Receive e pkt (ep_stream ep))\<rparr>)"
  using sender_inv_op [OF assms, of "OpReceive e pkt"] by simp

lemma ep_step_items: "ep_step ep ep' \<Longrightarrow> \<exists>xs. ep_items ep' = ep_items ep @ xs"
  by (induction rule: ep_step.induct) auto

lemma ep_step_recv: "ep_step ep ep' \<Longrightarrow> recv_view (ep_stream ep') = recv_view (ep_stream ep)"
proof (induction rule: ep_step.induct)
  case (alloc ep seq rs' data)
  then show ?case by (auto simp: Send_alloc_def split: if_splits)
next
  case (internal op e ep)
  then show ?case by (auto intro!: recv_view_step)
qed simp_all

text \<open>One direction: what \<open>A\<close> sends reaches \<open>B\<close> as blocks of \<open>A\<close>.\<close>

lemma arrival_genuine:
  assumes "sender_inv sid A" and "b \<in> set (sentLog (ep_stream A))" and "UnmarshalReliable b = Inr pkt"
    and "carries_data pkt"
  shows "\<exists>i. genuine_at (ep_items A) i pkt"
proof -
  have "bytes_from sid (ep_items A) b" using assms(1,2) by (auto simp: sender_inv_def all_out_def)
  then obtain p where p: "b = Marshal p" "wf_rpacket p"
    "carries_data p \<longrightarrow> (\<exists>i. genuine_at (ep_items A) i p)" by (auto simp: bytes_from_def)
  then have "pkt = p" using assms(3) rpkt.decode_encode by (metis sum.inject(2))
  with p assms(4) show ?thesis by simp
qed

lemma arrival_inv:
  assumes "sender_inv sid A" and "recv_inv (ep_items A) rs" and "length (ep_items A) < 2 ^ 31"
    and "b \<in> set (sentLog (ep_stream A))" and "UnmarshalReliable b = Inr pkt"
  shows "recv_inv (ep_items A) (snd (Receive e pkt rs))"
proof -
  have "\<exists>i. genuine_at (ep_items A) i pkt \<and> fresh i rs" if data: "carries_data pkt"
  proof -
    obtain i where i: "genuine_at (ep_items A) i pkt"
      using arrival_genuine [OF assms(1,4,5) data] by blast
    then have "i < length (ep_items A)" by (simp add: genuine_at_def)
    moreover have "length (deliveredLog rs) \<le> length (ep_items A)"
      using assms(2) by (simp add: recv_inv_def Let_def)
    ultimately have "fresh i rs" using assms(3) by (auto simp: fresh_def)
    with i show ?thesis by blast
  qed
  then have "recv_inv (ep_items A) (after_data e pkt rs)"
    by (rule recv_inv_after_data [OF assms(2)])
  then show ?thesis by (simp add: Receive_idle)
qed


definition sys_inv :: "u32 \<Rightarrow> endpoint \<Rightarrow> endpoint \<Rightarrow> bool" where
  "sys_inv sid A B \<longleftrightarrow> sender_inv sid A \<and> sender_inv sid B
     \<and> recv_inv (ep_items A) (ep_stream B) \<and> recv_inv (ep_items B) (ep_stream A)"

lemma sys_inv_sym: "sys_inv sid A B \<Longrightarrow> sys_inv sid B A"
  by (simp add: sys_inv_def)

lemma sys_inv_local:
  assumes "sys_inv sid A B" and "ep_step A A'"
  shows "sys_inv sid A' B"
proof -
  obtain xs where xs: "ep_items A' = ep_items A @ xs" using ep_step_items [OF assms(2)] by blast
  have "recv_inv (ep_items B) (ep_stream A')"
    using assms(1) recv_inv_view [OF ep_step_recv [OF assms(2)]] by (simp add: sys_inv_def)
  with assms sender_inv_step show ?thesis by (auto simp: sys_inv_def xs recv_inv_append)
qed

lemma sys_inv_arrival:
  assumes "sys_inv sid A B" and "length (ep_items A) < 2 ^ 31"
    and "b \<in> set (sentLog (ep_stream A))" and "UnmarshalReliable b = Inr pkt"
  shows "sys_inv sid A (B\<lparr>ep_stream := snd (Receive e pkt (ep_stream B))\<rparr>)"
  using assms sender_inv_Receive arrival_inv by (auto simp: sys_inv_def)

lemma network_inv:
  "network sid A B \<Longrightarrow> length (ep_items A) < 2 ^ 31 \<Longrightarrow> length (ep_items B) < 2 ^ 31 \<Longrightarrow> sys_inv sid A B"
proof (induction rule: network.induct)
  case start
  show ?case
    using sender_inv_new recv_inv_New by (simp add: sys_inv_def new_endpoint_def)
next
  case (left A B A')
  then have "length (ep_items A) < 2 ^ 31" using ep_step_items [OF left(2)] by auto
  with left sys_inv_local show ?case by blast
next
  case (right A B B')
  then have "length (ep_items B) < 2 ^ 31" using ep_step_items [OF right(2)] by auto
  with right sys_inv_local sys_inv_sym show ?case by blast
next
  case (to_right A B b pkt e)
  then show ?case using sys_inv_arrival by simp
next
  case (to_left A B b pkt e)
  then have "sys_inv sid B (A\<lparr>ep_stream := snd (Receive e pkt (ep_stream A))\<rparr>)"
    using sys_inv_arrival [OF sys_inv_sym] by simp
  then show ?case by (rule sys_inv_sym)
qed

lemma network_prefix:
  assumes "network sid A B" and "length (ep_items A) < 2 ^ 31" and "length (ep_items B) < 2 ^ 31"
  shows "prefix (deliveredLog (ep_stream B)) (ep_items A)
    \<and> prefix (deliveredLog (ep_stream A)) (ep_items B)"
proof -
  have "recv_inv (ep_items A) (ep_stream B)" "recv_inv (ep_items B) (ep_stream A)"
    using network_inv [OF assms] by (simp_all add: sys_inv_def)
  then show ?thesis unfolding recv_inv_def Let_def using take_is_prefix by metis
qed

section \<open>Property\<close>

text \<open>
  C2. End-to-end integrity and order. Two ends of a stream exchange packets over a network that may
  lose, duplicate and reorder them, while application calls, timers, waiting senders and closing
  interleave in any way. As long as fewer than 2^31 blocks are sent in each direction, the blocks
  that each end delivers are a prefix of the blocks given to \<open>Send\<close> at the other end: no block is
  altered, repeated, reordered, invented or skipped.
\<close>

theorem end_to_end_prefix:
  assumes "network sid A B" and "length (ep_items A) < 2 ^ 31" and "length (ep_items B) < 2 ^ 31"
  shows "prefix (deliveredLog (ep_stream B)) (ep_items A)
    \<and> prefix (deliveredLog (ep_stream A)) (ep_items B)"
  using assms by (rule network_prefix)

definition sample_A :: endpoint where
  "sample_A = \<lparr>ep_stream = snd (Send_commit (env_at 0) 0 [10] ((NewReliableStream 5)\<lparr>sendSeq := 1\<rparr>)),
               ep_items = [[10]], ep_waiting = []\<rparr>"

definition sample_B :: endpoint where
  "sample_B = (new_endpoint 5)\<lparr>ep_stream :=
                 snd (Receive (env_at 0) (block_packet 0 [10]) (NewReliableStream 5))\<rparr>"

lemma sample_network: "network 5 sample_A sample_B"
proof -
  let ?A = "\<lparr>ep_stream = (NewReliableStream 5)\<lparr>sendSeq := 1\<rparr>, ep_items = [[10]], ep_waiting = [0]\<rparr>"
  have "Send_alloc (ep_stream (new_endpoint 5)) = Inr (0, (NewReliableStream 5)\<lparr>sendSeq := 1\<rparr>)"
    by (simp add: Send_alloc_def new_endpoint_def NewReliableStream_def)
  from ep_step.alloc [OF this, of "[10]"] have "ep_step (new_endpoint 5) ?A"
    by (simp add: new_endpoint_def)
  then have 1: "network 5 ?A (new_endpoint 5)" by (rule network.left [OF network.start])
  have "ep_step ?A sample_A"
    using ep_step.commit [of 0 ?A "env_at 0"] by (simp add: sample_A_def)
  with 1 have 2: "network 5 sample_A (new_endpoint 5)" by (rule network.left)
  have log: "sentLog (ep_stream sample_A) = [Marshal (block_packet 0 [10])]" by code_simp
  have "UnmarshalReliable (Marshal (block_packet 0 [10])) = Inr (block_packet 0 [10])"
    by (rule rpkt.decode_encode) (simp add: wf_rpacket_def block_packet_def)
  with 2 log have "network 5 sample_A ((new_endpoint 5)\<lparr>ep_stream :=
      snd (Receive (env_at 0) (block_packet 0 [10]) (ep_stream (new_endpoint 5)))\<rparr>)"
    by (intro network.to_right) simp_all
  then show ?thesis by (simp add: sample_B_def new_endpoint_def)
qed

theorem end_to_end_prefix_witness:
  "deliveredLog (ep_stream sample_B) = [[10]]
   \<and> prefix (deliveredLog (ep_stream sample_B)) (ep_items sample_A)"
proof -
  have "deliveredLog (ep_stream sample_B) = [[10]]" by code_simp
  then show ?thesis
    using end_to_end_prefix [OF sample_network] by (simp add: sample_A_def sample_B_def new_endpoint_def)
qed

end
