(* ===== verification/RelManager.thy ===== *)
theory RelManager
  imports RelSystem
begin

text \<open>
  \<open>ReliableManager\<close>, pkg/tunnel/reliable.go lines 1102 to 1199: the table of streams, packet
  dispatch by stream identifier, and the calls of \<open>onData\<close>, \<open>onClose\<close> and \<open>sendFunc\<close>.
\<close>

section \<open>Model\<close>

text \<open>
  What the manager's owner observes, in order: data of a stream, closing by the peer, and the removal
  of a stream from the table.
\<close>

datatype app_event = OnData u32 bytes | OnClose u32 | Removed u32

text \<open>
  \<open>rm_detached\<close> holds the stream objects that are closed and no longer in the table; goroutines still
  refer to them.
\<close>

record rmanager =
  rm_streams :: "(u32, rstream) fmap"
  rm_closed :: bool
  rm_app :: "app_event list"
  rm_sent :: "bytes list"
  rm_detached :: "rstream list"

definition NewReliableManager :: rmanager where
  "NewReliableManager =
     \<lparr>rm_streams = fmempty, rm_closed = False, rm_app = [], rm_sent = [], rm_detached = []\<rparr>"

text \<open>
  A call on a stream of the table: \<open>deliverFunc\<close> is \<open>onData\<close> with the stream's identifier and
  \<open>sendFunc\<close> the manager's, so the call's deliveries and transmissions become the manager's.
\<close>

definition rm_call :: "u32 \<Rightarrow> rstream \<Rightarrow> rstream \<Rightarrow> rmanager \<Rightarrow> rmanager" where
  "rm_call sid rs rs' rm =
     rm\<lparr>rm_streams := fmupd sid rs' (rm_streams rm),
        rm_app := rm_app rm @ map (OnData sid) (drop (length (deliveredLog rs)) (deliveredLog rs')),
        rm_sent := rm_sent rm @ drop (length (sentLog rs)) (sentLog rs')\<rparr>"

definition GetOrCreateStream :: "u32 \<Rightarrow> rmanager \<Rightarrow> rstream \<times> rmanager" where
  "GetOrCreateStream sid rm =
     (case fmlookup (rm_streams rm) sid of
        Some rs \<Rightarrow> (rs, rm)
      | None \<Rightarrow>
          let rs = NewReliableStream sid
          in (rs, rm\<lparr>rm_streams := fmupd sid rs (rm_streams rm)\<rparr>))"

definition GetStream :: "u32 \<Rightarrow> rmanager \<Rightarrow> rstream option" where
  "GetStream sid rm = fmlookup (rm_streams rm) sid"

definition RemoveStream :: "u32 \<Rightarrow> rmanager \<Rightarrow> rmanager" where
  "RemoveStream sid rm =
     (case fmlookup (rm_streams rm) sid of
        None \<Rightarrow> rm
      | Some rs \<Rightarrow>
          rm\<lparr>rm_streams := fmdrop sid (rm_streams rm), rm_app := rm_app rm @ [Removed sid],
             rm_detached := rm_detached rm @ [Close rs]\<rparr>)"

definition rm_Receive :: "env \<Rightarrow> bytes \<Rightarrow> rmanager \<Rightarrow> go_error option \<times> rmanager" where
  "rm_Receive e data rm =
     (case UnmarshalReliable data of
        Inl err \<Rightarrow> (Some err, rm)
      | Inr pkt \<Rightarrow>
          let sid = rp_StreamID pkt;
              (rs, rm) = GetOrCreateStream sid rm;
              (isClose, rs') = Receive e pkt rs;
              rm = rm_call sid rs rs' rm
          in (None,
              if isClose then RemoveStream sid (rm\<lparr>rm_app := rm_app rm @ [OnClose sid]\<rparr>) else rm))"

text \<open>While \<open>Send\<close> waits for the window, the steps \<open>others\<close> of other goroutines run on its stream.\<close>

definition run_others :: "(wake \<times> stream_op list) list \<Rightarrow> (wake \<times> (rstream \<Rightarrow> rstream)) list" where
  "run_others others = map (\<lambda>(w, ops). (w, fold stream_step ops)) others"

definition rm_Send ::
  "env \<Rightarrow> (wake \<times> stream_op list) list \<Rightarrow> u32 \<Rightarrow> bytes \<Rightarrow> rmanager
   \<Rightarrow> (go_error option \<times> rmanager) option" where
  "rm_Send e others sid data rm =
     (let (rs, rm) = GetOrCreateStream sid rm
      in case Send e (run_others others) data rs of
           None \<Rightarrow> None
         | Some (r, rs') \<Rightarrow> Some (r, rm_call sid rs rs' rm))"

definition rm_SendClose :: "env \<Rightarrow> u32 \<Rightarrow> rmanager \<Rightarrow> go_error option \<times> rmanager" where
  "rm_SendClose e sid rm =
     (case GetStream sid rm of
        None \<Rightarrow> (None, rm)
      | Some rs \<Rightarrow> let (r, rs') = SendClose e rs in (r, rm_call sid rs rs' rm))"

definition rm_Close :: "rmanager \<Rightarrow> rmanager" where
  "rm_Close rm =
     (if rm_closed rm then rm
      else rm\<lparr>rm_closed := True, rm_streams := fmmap Close (rm_streams rm)\<rparr>)"

text \<open>The goroutines of a stream: acknowledgement timer and retransmission tick.\<close>

definition rm_timer :: "u32 \<Rightarrow> stream_op \<Rightarrow> rmanager \<Rightarrow> rmanager" where
  "rm_timer sid op rm =
     (case GetStream sid rm of
        None \<Rightarrow> rm
      | Some rs \<Rightarrow> rm_call sid rs (stream_step op rs) rm)"

text \<open>
  A late step of a stream that is no longer in the table: its timers, its retransmission loop and a \<open>Send\<close>
  that was under way. Packets reach streams through the table only.
\<close>

definition rm_late :: "nat \<Rightarrow> stream_op \<Rightarrow> rmanager \<Rightarrow> rmanager" where
  "rm_late i op rm =
     (case op of
        OpReceive _ _ \<Rightarrow> rm
      | _ \<Rightarrow>
          if i < length (rm_detached rm) then
            let rs = rm_detached rm ! i; rs' = stream_step op rs
            in rm\<lparr>rm_detached := (rm_detached rm)[i := rs'],
                  rm_sent := rm_sent rm @ drop (length (sentLog rs)) (sentLog rs')\<rparr>
          else rm)"

datatype rm_op =
    RmReceive env bytes
  | RmSend env "(wake \<times> stream_op list) list" u32 bytes
  | RmSendClose env u32
  | RmRemove u32
  | RmClose
  | RmAckTimer u32
  | RmTick u32 env
  | RmLate nat stream_op

primrec rm_step :: "rm_op \<Rightarrow> rmanager \<Rightarrow> rmanager" where
  "rm_step (RmReceive e data) rm = snd (rm_Receive e data rm)"
| "rm_step (RmSend e others sid data) rm =
     (case rm_Send e others sid data rm of None \<Rightarrow> rm | Some (_, rm') \<Rightarrow> rm')"
| "rm_step (RmSendClose e sid) rm = snd (rm_SendClose e sid rm)"
| "rm_step (RmRemove sid) rm = RemoveStream sid rm"
| "rm_step RmClose rm = rm_Close rm"
| "rm_step (RmAckTimer sid) rm = rm_timer sid OpAckTimer rm"
| "rm_step (RmTick sid e) rm = rm_timer sid (OpTick e) rm"
| "rm_step (RmLate i op) rm = rm_late i op rm"

definition rm_run :: "rm_op list \<Rightarrow> rmanager" where
  "rm_run ops = fold rm_step ops NewReliableManager"

section \<open>Logs only grow\<close>

text \<open>
  An operation that appends to a log: the interface between a stream and the manager, which passes
  on what the operation appended.
\<close>

locale append_log =
  fixes log :: "'s \<Rightarrow> 'a list" and step :: "'o \<Rightarrow> 's \<Rightarrow> 's"
  assumes grows: "prefix (log s) (log (step op s))"
begin

lemma run_grows: "prefix (log s) (log (fold step ops s))"
  by (induction ops arbitrary: s) (auto intro: prefix_order.trans grows)

lemma run_appends: "log (fold step ops s) = log s @ drop (length (log s)) (log (fold step ops s))"
  using run_grows [of s ops] by (auto simp: prefix_def)

lemma run_split:
  "drop (length (log s)) (log (fold step (ops1 @ ops2) s)) =
     drop (length (log s)) (log (fold step ops1 s))
     @ drop (length (log (fold step ops1 s))) (log (fold step ops2 (fold step ops1 s)))"
proof -
  obtain xs ys where "log (fold step ops1 s) = log s @ xs"
    "log (fold step ops2 (fold step ops1 s)) = log (fold step ops1 s) @ ys"
    using run_grows prefix_def by metis
  then show ?thesis by simp
qed

end

lemma delivered_deliverOutOfOrder: "prefix (deliveredLog rs) (deliveredLog (deliverOutOfOrder rs))"
proof (induction rs rule: deliverOutOfOrder.induct)
  case (1 rs)
  then show ?case
    by (cases "fmlookup (outOfOrder rs) (recvNext rs)")
      (auto simp: deliverOutOfOrder.simps [of rs] deliver_def dest: append_prefixD)
qed

lemma delivered_view: "recv_view rs = recv_view rs' \<Longrightarrow> deliveredLog rs = deliveredLog rs'"
  by (simp add: recv_view_def)

lemma delivered_processData: "prefix (deliveredLog rs) (deliveredLog (processData e seq data rs))"
proof -
  let ?rs = "(deliver data rs)\<lparr>recvNext := recvNext rs + 1\<rparr>"
  have "prefix (deliveredLog rs @ [data]) (deliveredLog (deliverOutOfOrder ?rs))"
    using delivered_deliverOutOfOrder [of ?rs] by (simp add: deliver_def)
  then show ?thesis
    by (auto simp: processData_def Let_def delivered_view [OF recv_view_acks(1)]
        delivered_view [OF recv_view_ops(8)] delivered_view [OF recv_view_ops(9)] dest: append_prefixD)
qed

lemma delivered_Receive: "prefix (deliveredLog rs) (deliveredLog (snd (Receive e pkt rs)))"
proof -
  have "prefix (deliveredLog rs) (deliveredLog (after_data e pkt rs))"
    using delivered_processData [of "after_ack e pkt rs"] delivered_view [OF recv_view_after_ack, of e pkt rs]
    by (simp add: after_data_def)
  then show ?thesis
    using prefix_order.trans [OF _ delivered_deliverOutOfOrder] by (simp add: Receive_stages)
qed

interpretation delivery: append_log deliveredLog stream_step
proof
  fix rs op
  show "prefix (deliveredLog rs) (deliveredLog (stream_step op rs))"
  proof (cases "\<exists>e pkt. op = OpReceive e pkt")
    case True
    then show ?thesis using delivered_Receive by auto
  next
    case False
    then show ?thesis using delivered_view [OF recv_view_step] by auto
  qed
qed

text \<open>The same for transmissions.\<close>

lemma sentLog_ops [simp]:
  "sentLog (deliver data rs) = sentLog rs"
  "sentLog (signalWindowAvail rs) = sentLog rs"
  "sentLog (cancelAckTimer rs) = sentLog rs"
  "sentLog (onAckAdvance k rs) = sentLog rs"
  "sentLog (onLossFast e rs) = sentLog rs"
  "sentLog (store_unacked e pkt rs) = sentLog rs"
  "sentLog (sendAll bufs rs) = sentLog rs @ bufs"
  "sentLog (Close rs) = sentLog rs"
  by (simp_all add: deliver_def signalWindowAvail_def cancelAckTimer_def onAckAdvance_def
      onLossFast_def store_unacked_def sendAll_def Close_def Let_def)

lemma sentLog_deliverOutOfOrder [simp]: "sentLog (deliverOutOfOrder rs) = sentLog rs"
proof (induction rs rule: deliverOutOfOrder.induct)
  case (1 rs)
  then show ?case
    by (cases "fmlookup (outOfOrder rs) (recvNext rs)") (simp_all add: deliverOutOfOrder.simps [of rs])
qed

lemma sentLog_loops [simp]:
  "sentLog (fst (fold (retransmit_one now) seqs st)) = sentLog (fst st)"
  "sentLog (fst (retransmit_one now seq st)) = sentLog (fst st)"
  "sentLog (fst (fold (check_one now rtoNs) seqs st)) = sentLog (fst st)"
  "sentLog (fst (fold (ack_one e) seqs st2)) = sentLog (fst st2)"
  by (rule fold_keeps_pair | simp add: retransmit_one_def check_one_def ack_one_def Let_def
      split: prod.split option.split)+

lemma sent_processAck: "prefix (sentLog rs) (sentLog (processAck e ack blocks rs))"
  by (simp add: processAck_def ack_duplicate_def ack_new_def Let_def split_beta split: option.split)

lemma sent_processData: "prefix (sentLog rs) (sentLog (processData e seq data rs))"
  by (simp add: processData_def scheduleAck_def sendAckNow_def sendAckWithSack_def Let_def)

lemma sent_Receive: "prefix (sentLog rs) (sentLog (snd (Receive e pkt rs)))"
proof -
  have "prefix (sentLog rs) (sentLog (after_ack e pkt rs))"
    using sent_processAck [of "rs\<lparr>packetsIn := packetsIn rs + 1\<rparr>"] by (simp add: after_ack_def)
  then have "prefix (sentLog rs) (sentLog (after_data e pkt rs))"
    using prefix_order.trans [OF _ sent_processData] by (simp add: after_data_def)
  then show ?thesis by (simp add: Receive_stages)
qed

interpretation transmitted: append_log sentLog stream_step
proof
  fix rs op
  show "prefix (sentLog rs) (sentLog (stream_step op rs))"
    by (cases op)
      (simp_all add: Send_alloc_def Send_commit_def SendClose_def sent_Receive ackTimerFunc_def
        sendAckNow_def retransmitLoop_tick_def checkRetransmit_def onLossRTO_eq Let_def split_beta)
qed

section \<open>Streams of the table\<close>

definition evolves :: "rstream \<Rightarrow> rstream \<Rightarrow> bool" where
  "evolves rs rs' \<longleftrightarrow> (\<exists>ops. rs' = fold stream_step ops rs)"

lemma evolves_refl [simp]: "evolves rs rs"
  unfolding evolves_def by (rule exI [of _ "[]"]) simp

lemma evolves_trans: "evolves rs rs' \<Longrightarrow> evolves rs' rs'' \<Longrightarrow> evolves rs rs''"
  unfolding evolves_def by (metis fold_append comp_apply)

lemma evolves_step: "evolves rs (stream_step op rs)"
  unfolding evolves_def by (rule exI [of _ "[op]"]) simp

lemma evolves_fold: "evolves rs (fold stream_step ops rs)"
  unfolding evolves_def by blast

lemma evolves_run: "evolves (NewReliableStream sid) rs \<longleftrightarrow> (\<exists>ops. rs = stream_run sid ops)"
  by (simp add: evolves_def stream_run_def)

lemma evolves_logs:
  assumes "evolves rs rs'"
  shows "deliveredLog rs' = deliveredLog rs @ drop (length (deliveredLog rs)) (deliveredLog rs')"
    and "sentLog rs' = sentLog rs @ drop (length (sentLog rs)) (sentLog rs')"
  using assms delivery.run_appends transmitted.run_appends by (metis evolves_def)+

lemma evolves_wake: "evolves rs (rs\<lparr>windowAvail := False\<rparr>)"
  using evolves_step [of rs OpSendWake] by simp

lemma evolves_waitForWindow:
  "waitForWindow seq (run_others others) rs = Some (b, rs') \<Longrightarrow> evolves rs rs'"
proof (induction others arbitrary: rs)
  case Nil
  then show ?case by (auto simp: run_others_def split: if_splits)
next
  case (Cons a others)
  obtain w ops where a: "a = (w, ops)" by (cases a)
  let ?rs = "fold stream_step ops (rs\<lparr>windowAvail := False\<rparr>)"
  have 1: "evolves rs ?rs" using evolves_wake evolves_fold evolves_trans by blast
  then have 2: "evolves rs (?rs\<lparr>windowAvail := False\<rparr>)" using evolves_wake evolves_trans by blast
  note IH = Cons.IH [of ?rs, THEN evolves_trans [OF 1]]
    Cons.IH [of "?rs\<lparr>windowAvail := False\<rparr>", THEN evolves_trans [OF 2]]
  show ?case
    using Cons.prems 1 IH
    by (auto simp: a run_others_def Let_def split: if_splits wake.splits)
qed

lemma evolves_Send:
  assumes "Send e (run_others others) data rs = Some (r, rs')"
  shows "evolves rs rs'"
proof (cases rule: Send_cases [OF assms])
  case 1
  then show ?thesis by simp
next
  case 2
  have "evolves rs (rs\<lparr>sendSeq := sendSeq rs + 1\<rparr>)"
    using evolves_step [of rs OpSendAlloc] 2(1) by (simp add: Send_alloc_def)
  with 2 show ?thesis using evolves_waitForWindow evolves_trans by blast
next
  case (3 rs1)
  have "evolves rs (rs\<lparr>sendSeq := sendSeq rs + 1\<rparr>)"
    using evolves_step [of rs OpSendAlloc] 3(1) by (simp add: Send_alloc_def)
  then have "evolves rs rs1" using 3(3) evolves_waitForWindow evolves_trans by blast
  moreover have "rs' = stream_step (OpSendCommit e (sendSeq rs) data) rs1"
    using 3(2) by (metis snd_conv stream_step.simps(3))
  ultimately show ?thesis using evolves_step evolves_trans by blast
qed

text \<open>The data of the current incarnation of a stream, as the owner of the manager saw it.\<close>

definition session_step :: "u32 \<Rightarrow> app_event \<Rightarrow> bytes list \<Rightarrow> bytes list" where
  "session_step sid ev acc =
     (case ev of
        OnData s d \<Rightarrow> if s = sid then acc @ [d] else acc
      | OnClose s \<Rightarrow> acc
      | Removed s \<Rightarrow> if s = sid then [] else acc)"

definition session :: "u32 \<Rightarrow> app_event list \<Rightarrow> bytes list" where
  "session sid evs = fold (session_step sid) evs []"

lemma session_simps [simp]:
  "session sid [] = []"
  "session sid (evs @ [OnClose s]) = session sid evs"
  "session sid (evs @ [Removed s]) = (if s = sid then [] else session sid evs)"
  "session sid (evs @ [OnClose s, Removed s]) = (if s = sid then [] else session sid evs)"
  by (simp_all add: session_def session_step_def)

lemma session_data [simp]:
  "session sid (evs @ map (OnData s) ds) = session sid evs @ (if s = sid then ds else [])"
proof -
  have "fold (session_step sid) (map (OnData s) ds) acc = acc @ (if s = sid then ds else [])" for acc
    by (induction ds arbitrary: acc) (simp_all add: session_step_def)
  then show ?thesis by (simp add: session_def)
qed

section \<open>Manager invariant\<close>

definition entry_inv :: "u32 \<Rightarrow> app_event list \<Rightarrow> rstream option \<Rightarrow> bool" where
  "entry_inv sid evs entry =
     (case entry of
        None \<Rightarrow> session sid evs = []
      | Some rs \<Rightarrow> evolves (NewReliableStream sid) rs \<and> session sid evs = deliveredLog rs)"

definition rm_inv :: "rmanager \<Rightarrow> bool" where
  "rm_inv rm \<longleftrightarrow> (\<forall>sid. entry_inv sid (rm_app rm) (fmlookup (rm_streams rm) sid))"

lemma entry_inv_simps [simp]:
  "entry_inv sid evs None \<longleftrightarrow> session sid evs = []"
  "entry_inv sid evs (Some rs) \<longleftrightarrow>
     evolves (NewReliableStream sid) rs \<and> session sid evs = deliveredLog rs"
  by (simp_all add: entry_inv_def)

lemma entry_inv_cong: "session sid evs = session sid evs' \<Longrightarrow> entry_inv sid evs = entry_inv sid evs'"
  by (simp add: entry_inv_def fun_eq_iff split: option.split)

lemma rm_invD: "rm_inv rm \<Longrightarrow> entry_inv sid (rm_app rm) (fmlookup (rm_streams rm) sid)"
  by (simp add: rm_inv_def)

text \<open>Changing one entry, with events of that stream only.\<close>

lemma rm_invI:
  assumes "rm_inv rm" and "\<And>s. s \<noteq> sid \<Longrightarrow> fmlookup (rm_streams rm') s = fmlookup (rm_streams rm) s"
    and "\<And>s. s \<noteq> sid \<Longrightarrow> session s (rm_app rm') = session s (rm_app rm)"
    and "entry_inv sid (rm_app rm') (fmlookup (rm_streams rm') sid)"
  shows "rm_inv rm'"
  unfolding rm_inv_def
proof
  fix s
  show "entry_inv s (rm_app rm') (fmlookup (rm_streams rm') s)"
  proof (cases "s = sid")
    case False
    show ?thesis
      unfolding assms(2) [OF False] entry_inv_cong [OF assms(3) [OF False]] by (rule rm_invD [OF assms(1)])
  qed (use assms(4) in simp)
qed

lemma rm_inv_call:
  assumes "rm_inv rm" and "fmlookup (rm_streams rm) sid = Some rs" and "evolves rs rs'"
  shows "rm_inv (rm_call sid rs rs' rm)"
proof -
  have rs: "evolves (NewReliableStream sid) rs" "session sid (rm_app rm) = deliveredLog rs"
    using rm_invD [OF assms(1), of sid] assms(2) by simp_all
  have "session sid (rm_app (rm_call sid rs rs' rm)) =
      deliveredLog rs @ drop (length (deliveredLog rs)) (deliveredLog rs')"
    by (simp add: rm_call_def rs(2))
  also have "\<dots> = deliveredLog rs'" by (rule evolves_logs(1) [OF assms(3), symmetric])
  finally have sess: "session sid (rm_app (rm_call sid rs rs' rm)) = deliveredLog rs'" .
  have "fmlookup (rm_streams (rm_call sid rs rs' rm)) sid = Some rs'" by (simp add: rm_call_def)
  with sess evolves_trans [OF rs(1) assms(3)] show ?thesis
    by (intro rm_invI [OF assms(1), of sid]) (simp_all, simp_all add: rm_call_def)
qed

lemma rm_inv_GetOrCreate:
  assumes "rm_inv rm" and "GetOrCreateStream sid rm = (rs, rm')"
  shows "rm_inv rm'" and "fmlookup (rm_streams rm') sid = Some rs"
proof -
  show "fmlookup (rm_streams rm') sid = Some rs"
    using assms(2) by (auto simp: GetOrCreateStream_def Let_def split: option.splits)
  have "deliveredLog (NewReliableStream sid) = []" by (simp add: NewReliableStream_def)
  then show "rm_inv rm'"
    using assms rm_invD [OF assms(1), of sid]
    by (intro rm_invI [OF assms(1), of sid]) (auto simp: GetOrCreateStream_def Let_def split: option.splits)
qed

lemma rm_inv_RemoveStream:
  assumes "rm_inv rm"
  shows "rm_inv (RemoveStream sid rm)"
  using assms rm_invD [OF assms, of sid]
  by (intro rm_invI [OF assms, of sid]) (auto simp: RemoveStream_def split: option.splits)

lemma rm_inv_onClose: "rm_inv rm \<Longrightarrow> rm_inv (rm\<lparr>rm_app := rm_app rm @ [OnClose sid]\<rparr>)"
  by (rule rm_invI [of rm sid]) (simp_all, metis entry_inv_cong rm_invD session_simps(2))

lemma rm_inv_Close:
  assumes "rm_inv rm"
  shows "rm_inv (rm_Close rm)"
proof -
  have c: "deliveredLog (Close rs) = deliveredLog rs" "evolves rs (Close rs)" for rs
    using delivered_view [OF recv_view_ops(11)] evolves_step [of rs OpClose] by auto
  have "entry_inv sid (rm_app rm) (map_option Close (fmlookup (rm_streams rm) sid))" for sid
    using rm_invD [OF assms, of sid] c evolves_trans
    by (cases "fmlookup (rm_streams rm) sid") auto
  with assms show ?thesis by (simp add: rm_Close_def rm_inv_def)
qed

lemma rm_inv_Receive:
  assumes "rm_inv rm"
  shows "rm_inv (snd (rm_Receive e data rm))"
proof (cases "UnmarshalReliable data")
  case (Inr pkt)
  obtain rs rm' where g: "GetOrCreateStream (rp_StreamID pkt) rm = (rs, rm')" by fastforce
  obtain c rs' where r: "Receive e pkt rs = (c, rs')" by fastforce
  have "evolves rs rs'" using evolves_step [of rs "OpReceive e pkt"] r by simp
  then have "rm_inv (rm_call (rp_StreamID pkt) rs rs' rm')"
    using rm_inv_call rm_inv_GetOrCreate [OF assms g] by blast
  with Inr g r show ?thesis by (simp add: rm_Receive_def Let_def rm_inv_RemoveStream rm_inv_onClose)
qed (use assms in \<open>simp add: rm_Receive_def\<close>)

lemma rm_inv_Send:
  assumes "rm_inv rm" and "rm_Send e others sid data rm = Some (r, rm')"
  shows "rm_inv rm'"
proof -
  obtain rs rm1 where g: "GetOrCreateStream sid rm = (rs, rm1)" by fastforce
  then obtain rs' where "Send e (run_others others) data rs = Some (r, rs')"
    and rm': "rm' = rm_call sid rs rs' rm1"
    using assms(2) by (auto simp: rm_Send_def split: option.splits)
  then have "evolves rs rs'" by (intro evolves_Send)
  with rm' show ?thesis using rm_inv_call rm_inv_GetOrCreate [OF assms(1) g] by blast
qed

lemma rm_inv_timer: "rm_inv rm \<Longrightarrow> rm_inv (rm_timer sid op rm)"
  by (auto simp: rm_timer_def GetStream_def intro: rm_inv_call evolves_step split: option.splits)

lemma rm_inv_SendClose: "rm_inv rm \<Longrightarrow> rm_inv (snd (rm_SendClose e sid rm))"
  using rm_inv_timer [of rm sid "OpSendClose e"]
  by (auto simp: rm_SendClose_def rm_timer_def split_beta split: option.splits)

lemma rm_late_keeps [simp]:
  "rm_streams (rm_late i op rm) = rm_streams rm" "rm_app (rm_late i op rm) = rm_app rm"
  "rm_closed (rm_late i op rm) = rm_closed rm"
  by (simp_all add: rm_late_def Let_def split: stream_op.split)

lemma rm_inv_late: "rm_inv rm \<Longrightarrow> rm_inv (rm_late i op rm)"
  by (simp add: rm_inv_def)

lemma rm_inv_step: "rm_inv rm \<Longrightarrow> rm_inv (rm_step op rm)"
  by (cases op)
    (auto simp: rm_inv_Receive rm_inv_SendClose rm_inv_RemoveStream rm_inv_Close rm_inv_timer rm_inv_late
      intro: rm_inv_Send split: option.split)

lemma rm_inv_run: "rm_inv (rm_run ops)"
proof -
  have "rm_inv NewReliableManager" by (simp add: rm_inv_def NewReliableManager_def)
  then show ?thesis unfolding rm_run_def by (rule fold_invariant [rotated]) (rule rm_inv_step)
qed

section \<open>Dispatch\<close>

lemma rm_call_other:
  "s \<noteq> sid \<Longrightarrow> fmlookup (rm_streams (rm_call sid rs rs' rm)) s = fmlookup (rm_streams rm) s"
  "s \<noteq> sid \<Longrightarrow> session s (rm_app (rm_call sid rs rs' rm)) = session s (rm_app rm)"
  by (simp_all add: rm_call_def)

lemma GetOrCreate_other:
  assumes "GetOrCreateStream sid rm = (rs, rm')"
  shows "s \<noteq> sid \<Longrightarrow> fmlookup (rm_streams rm') s = fmlookup (rm_streams rm) s"
    and "rm_app rm' = rm_app rm" and "fmlookup (rm_streams rm') sid = Some rs"
  using assms by (auto simp: GetOrCreateStream_def Let_def split: option.splits)

lemma RemoveStream_present:
  assumes "fmlookup (rm_streams rm) sid = Some rs"
  shows "rm_app (RemoveStream sid rm) = rm_app rm @ [Removed sid]"
    and "fmlookup (rm_streams (RemoveStream sid rm)) s = (if s = sid then None else fmlookup (rm_streams rm) s)"
    and "rm_detached (RemoveStream sid rm) = rm_detached rm @ [Close rs]"
  using assms by (simp_all add: RemoveStream_def)

text \<open>The two outcomes of a packet that decodes.\<close>

lemma rm_Receive_cases:
  assumes "UnmarshalReliable data = Inr pkt"
  obtains rs rm1 c rs' where "GetOrCreateStream (rp_StreamID pkt) rm = (rs, rm1)"
    and "Receive e pkt rs = (c, rs')" and "c \<longleftrightarrow> rp_Flags pkt AND FlagClose \<noteq> 0"
    and "rm_Receive e data rm =
      (None, let rm2 = rm_call (rp_StreamID pkt) rs rs' rm1 in
        if c then RemoveStream (rp_StreamID pkt) (rm2\<lparr>rm_app := rm_app rm2 @ [OnClose (rp_StreamID pkt)]\<rparr>)
        else rm2)"
proof -
  obtain rs rm1 where g: "GetOrCreateStream (rp_StreamID pkt) rm = (rs, rm1)" by fastforce
  obtain c rs' where r: "Receive e pkt rs = (c, rs')" by fastforce
  have "c \<longleftrightarrow> rp_Flags pkt AND FlagClose \<noteq> 0"
    using r by (auto simp: Receive_stages split: if_splits)
  with g r assms that show thesis by (simp add: rm_Receive_def Let_def)
qed

text \<open>Shared by the property on close packets and the one on what comes after them.\<close>

lemma close_packet_removed:
  assumes "UnmarshalReliable data = Inr pkt" and "rp_Flags pkt AND FlagClose \<noteq> 0"
  shows "fmlookup (rm_streams (snd (rm_Receive e data rm))) (rp_StreamID pkt) = None"
proof -
  obtain rs rm1 c rs' where c: "c \<longleftrightarrow> rp_Flags pkt AND FlagClose \<noteq> 0"
    and r: "rm_Receive e data rm =
      (None, let rm2 = rm_call (rp_StreamID pkt) rs rs' rm1 in
        if c then RemoveStream (rp_StreamID pkt) (rm2\<lparr>rm_app := rm_app rm2 @ [OnClose (rp_StreamID pkt)]\<rparr>)
        else rm2)"
    by (rule rm_Receive_cases [OF assms(1), where rm = rm and e = e])
  show ?thesis
    using c assms(2) unfolding r by (simp add: RemoveStream_def rm_call_def split: option.split)
qed

lemma buffered_at_start:
  assumes "rp_Flags pkt = FlagData" and "rp_Data pkt \<noteq> []" and "seqGreater (rp_Seq pkt) 0"
  shows "recv_view (snd (Receive e pkt (NewReliableStream sid))) =
    (0, fmupd (rp_Seq pkt) (rp_Data pkt) fmempty, [])"
proof -
  let ?new = "NewReliableStream sid"
  have v: "recvNext (after_ack e pkt ?new) = 0" "outOfOrder (after_ack e pkt ?new) = fmempty"
    "deliveredLog (after_ack e pkt ?new) = []"
    using recv_view_after_ack [of e pkt ?new] by (simp_all add: recv_view_def NewReliableStream_def)
  have ne: "rp_Seq pkt \<noteq> 0" using assms(3) by (auto simp: seqGreater_def)
  have "snd (Receive e pkt ?new) = processData e (rp_Seq pkt) (rp_Data pkt) (after_ack e pkt ?new)"
    using assms(1,2) by (simp add: Receive_stages after_data_def carries_data_def flag_defs)
  then show ?thesis
    using assms(3) ne v by (simp add: processData_def Let_def MaxOutOfOrderBuffer_def)
      (simp add: recv_view_def)
qed

section \<open>Properties\<close>

text \<open>
  C21. Streams behind the manager. After any sequence of calls and timer events, every stream in the
  table is a stream that went through some sequence of stream steps under its own identifier, so
  the properties of streams apply to it; and the data that the owner got by \<open>onData\<close> for this
  identifier since the stream was created is what the stream delivered, in that order.
\<close>

theorem manager_streams:
  assumes "fmlookup (rm_streams (rm_run ops)) sid = Some rs"
  shows "(\<exists>sops. rs = stream_run sid sops) \<and> session sid (rm_app (rm_run ops)) = deliveredLog rs"
  using rm_invD [OF rm_inv_run, of sid ops] assms by (simp add: evolves_run)

theorem manager_streams_witness:
  "session 9 (rm_app (rm_run [RmReceive (env_at 0) [0, 0, 0, 9, 1, 0, 0, 0, 0, 77]])) = [[77]]"
proof -
  let ?ops = "[RmReceive (env_at 0) [0, 0, 0, 9, 1, 0, 0, 0, 0, 77]]"
  have "map_option deliveredLog (fmlookup (rm_streams (rm_run ?ops)) 9) = Some [[77]]" by code_simp
  then obtain rs where "fmlookup (rm_streams (rm_run ?ops)) 9 = Some rs" "deliveredLog rs = [[77]]"
    by auto
  then show ?thesis using manager_streams by metis
qed

text \<open>
  Dispatch. A packet that does not decode is answered with the decoding error and changes
  nothing. Any other packet is for one stream: every other stream stays as it is and its owner sees
  nothing; no error is reported.
\<close>

theorem receive_isolated:
  "case UnmarshalReliable data of
     Inl err \<Rightarrow> rm_Receive e data rm = (Some err, rm)
   | Inr pkt \<Rightarrow> fst (rm_Receive e data rm) = None
       \<and> (\<forall>s. s \<noteq> rp_StreamID pkt \<longrightarrow>
            fmlookup (rm_streams (snd (rm_Receive e data rm))) s = fmlookup (rm_streams rm) s
            \<and> session s (rm_app (snd (rm_Receive e data rm))) = session s (rm_app rm))"
proof (cases "UnmarshalReliable data")
  case (Inl err)
  then show ?thesis by (simp add: rm_Receive_def)
next
  case (Inr pkt)
  obtain rs rm1 c rs' where g: "GetOrCreateStream (rp_StreamID pkt) rm = (rs, rm1)"
    and r: "rm_Receive e data rm =
      (None, let rm2 = rm_call (rp_StreamID pkt) rs rs' rm1 in
        if c then RemoveStream (rp_StreamID pkt) (rm2\<lparr>rm_app := rm_app rm2 @ [OnClose (rp_StreamID pkt)]\<rparr>)
        else rm2)"
    by (rule rm_Receive_cases [OF Inr, where rm = rm and e = e])
  have "fmlookup (rm_streams (rm_call (rp_StreamID pkt) rs rs' rm1)) (rp_StreamID pkt) = Some rs'"
    by (simp add: rm_call_def)
  with Inr r show ?thesis
    by (auto simp: Let_def rm_call_other RemoveStream_present GetOrCreate_other [OF g])
qed

theorem receive_isolated_witness:
  "fst (rm_Receive (env_at 0) [0, 0, 0, 9, 1, 0, 0, 0, 0, 77] (rm_run [])) = None
   \<and> fmlookup (rm_streams (snd (rm_Receive (env_at 0) [0, 0, 0, 9, 1, 0, 0, 0, 0, 77] (rm_run [])))) 8 =
     fmlookup (rm_streams (rm_run [])) 8"
proof -
  have "UnmarshalReliable [0, 0, 0, 9, 1, 0, 0, 0, 0, 77] =
      Inr \<lparr>rp_StreamID = 9, rp_Flags = 1, rp_Seq = 0, rp_Ack = 0, rp_SackBlocks = [], rp_Data = [77]\<rparr>"
    by code_simp
  then show ?thesis
    using receive_isolated [where data = "[0, 0, 0, 9, 1, 0, 0, 0, 0, 77]" and e = "env_at 0" and rm = "rm_run []"]
    by simp
qed

text \<open>
  Close. A close packet of a stream makes the owner see, after the data that the packet itself
  completes, \<open>onClose\<close> once; the stream is closed and leaves the table.
\<close>

theorem close_packet:
  assumes "UnmarshalReliable data = Inr pkt" and "rp_Flags pkt AND FlagClose \<noteq> 0"
    and "sid = rp_StreamID pkt" and "rm' = snd (rm_Receive e data rm)"
  shows "fmlookup (rm_streams rm') sid = None
    \<and> (\<exists>ds. rm_app rm' = rm_app rm @ map (OnData sid) ds @ [OnClose sid, Removed sid])
    \<and> rs_closed (last (rm_detached rm'))"
proof -
  obtain rs rm1 c rs' where g: "GetOrCreateStream sid rm = (rs, rm1)" and c: "c \<longleftrightarrow> rp_Flags pkt AND FlagClose \<noteq> 0"
    and r: "rm_Receive e data rm = (None, let rm2 = rm_call sid rs rs' rm1 in
        if c then RemoveStream sid (rm2\<lparr>rm_app := rm_app rm2 @ [OnClose sid]\<rparr>) else rm2)"
    by (rule rm_Receive_cases [OF assms(1), where rm = rm and e = e, folded assms(3)])
  let ?rm2 = "rm_call sid rs rs' rm1"
  have look: "fmlookup (rm_streams (?rm2\<lparr>rm_app := rm_app ?rm2 @ [OnClose sid]\<rparr>)) sid = Some rs'"
    by (simp add: rm_call_def)
  have rm': "rm' = RemoveStream sid (?rm2\<lparr>rm_app := rm_app ?rm2 @ [OnClose sid]\<rparr>)"
    using r c assms(2,4) by (simp add: Let_def)
  have "rm_app ?rm2 = rm_app rm @ map (OnData sid) (drop (length (deliveredLog rs)) (deliveredLog rs'))"
    using GetOrCreate_other(2) [OF g] by (simp add: rm_call_def)
  then have "rm_app rm' = rm_app rm
      @ map (OnData sid) (drop (length (deliveredLog rs)) (deliveredLog rs')) @ [OnClose sid, Removed sid]"
    unfolding rm' RemoveStream_present(1) [OF look] by simp
  moreover have "rs_closed (last (rm_detached rm'))"
    unfolding rm' RemoveStream_present(3) [OF look] by (simp add: Close_closes(1))
  moreover have "fmlookup (rm_streams rm') sid = None"
    unfolding rm' RemoveStream_present(2) [OF look] by simp
  ultimately show ?thesis by blast
qed


theorem close_packet_witness:
  "fmlookup (rm_streams (snd (rm_Receive (env_at 0) [0, 0, 0, 9, 4, 0, 0, 0, 2] (rm_run [])))) 9 = None"
proof -
  have u: "UnmarshalReliable [0, 0, 0, 9, 4, 0, 0, 0, 2] =
      Inr \<lparr>rp_StreamID = 9, rp_Flags = 4, rp_Seq = 2, rp_Ack = 0, rp_SackBlocks = [], rp_Data = []\<rparr>"
    by code_simp
  show ?thesis
    using close_packet [OF u _ _ refl, of 9 "env_at 0" "rm_run []"] by (simp add: FlagClose_def)
qed

text \<open>
  C27. Data that arrives after the close packet is lost. A data packet of a stream with a sequence
  number above zero that is the next packet after a close packet of the same stream, as happens when the
  network reorders the two or when the data packet is a retransmission, is not delivered: the packet
  opens a new stream that waits for sequence number zero and buffers the data.
\<close>

theorem data_after_close_lost:
  assumes "UnmarshalReliable c = Inr cp" and "rp_Flags cp AND FlagClose \<noteq> 0"
    and "UnmarshalReliable d = Inr dp" and "rp_Flags dp = FlagData" and "rp_Data dp \<noteq> []"
    and "rp_StreamID dp = rp_StreamID cp" and "seqGreater (rp_Seq dp) 0"
    and "rm1 = snd (rm_Receive e c rm)" and "rm2 = snd (rm_Receive e' d rm1)"
  shows "rm_app rm2 = rm_app rm1
    \<and> (\<exists>rs. fmlookup (rm_streams rm2) (rp_StreamID dp) = Some rs \<and> recvNext rs = 0
           \<and> fmlookup (outOfOrder rs) (rp_Seq dp) = Some (rp_Data dp))"
proof -
  let ?sid = "rp_StreamID dp"
  let ?new = "NewReliableStream ?sid"
  have none: "fmlookup (rm_streams rm1) ?sid = None"
    using close_packet_removed [OF assms(1,2)] assms(6,8) by simp
  have v: "recv_view (snd (Receive e' dp ?new)) = (0, fmupd (rp_Seq dp) (rp_Data dp) fmempty, [])"
    using buffered_at_start [OF assms(4,5,7)] .
  have f: "fst (Receive e' dp ?new) = False"
    using assms(4) by (simp add: Receive_stages flag_defs)
  have g: "GetOrCreateStream ?sid rm1 =
      (?new, rm1\<lparr>rm_streams := fmupd ?sid ?new (rm_streams rm1)\<rparr>)"
    using none by (simp add: GetOrCreateStream_def Let_def)
  have "rm2 = rm_call ?sid ?new (snd (Receive e' dp ?new)) (rm1\<lparr>rm_streams := fmupd ?sid ?new (rm_streams rm1)\<rparr>)"
    using assms(3,9) g f by (simp add: rm_Receive_def split_beta Let_def)
  then show ?thesis using v by (simp add: rm_call_def recv_view_def)
qed


theorem data_after_close_lost_witness:
  "rm_app (snd (rm_Receive (env_at 1) [0, 0, 0, 9, 1, 0, 0, 0, 1, 77]
     (snd (rm_Receive (env_at 0) [0, 0, 0, 9, 4, 0, 0, 0, 2] (rm_run []))))) =
   rm_app (snd (rm_Receive (env_at 0) [0, 0, 0, 9, 4, 0, 0, 0, 2] (rm_run [])))"
proof -
  have u: "UnmarshalReliable [0, 0, 0, 9, 4, 0, 0, 0, 2] =
      Inr \<lparr>rp_StreamID = 9, rp_Flags = 4, rp_Seq = 2, rp_Ack = 0, rp_SackBlocks = [], rp_Data = []\<rparr>"
    "UnmarshalReliable [0, 0, 0, 9, 1, 0, 0, 0, 1, 77] =
      Inr \<lparr>rp_StreamID = 9, rp_Flags = 1, rp_Seq = 1, rp_Ack = 0, rp_SackBlocks = [], rp_Data = [77]\<rparr>"
    by code_simp+
  show ?thesis
    using data_after_close_lost [OF u(1) _ u(2) _ _ _ _ refl refl, of "env_at 1" "env_at 0" "rm_run []"]
    by (simp add: flag_defs seqGreater_def)
qed

end
