(* ===== verification/Gre.thy ===== *)
theory Gre
  imports Prelude
begin

text \<open>
  The GRE layer, pkg/gre/gre.go: the RFC 2784/2890 header with its optional checksum, key and
  sequence fields, complete GRE packets, and the minimal IPv4 header. The encoders write into
  buffers field by field as the code does; the lemmas show that they never leave the buffer,
  that both encoders agree, and that encoding and decoding are inverse to each other.
\<close>

section \<open>Model\<close>

definition ProtocolNumber :: u8 where "ProtocolNumber = 47"
definition MinHeaderSize :: nat where "MinHeaderSize = 4"
definition EtherTypeTransparentEthernet :: u16 where "EtherTypeTransparentEthernet = 0x6558"
definition FlagChecksum :: u16 where "FlagChecksum = 0x8000"
definition FlagKey :: u16 where "FlagKey = 0x2000"
definition FlagSequence :: u16 where "FlagSequence = 0x1000"

record header =
  h_Flags :: u16
  h_ProtocolType :: u16
  h_Checksum :: u16
  h_Reserved1 :: u16
  h_Key :: u32
  h_Sequence :: u32

text \<open>\<open>Header.HeaderSize\<close>.\<close>

definition Header_HeaderSize :: "header \<Rightarrow> nat" where
  "Header_HeaderSize h =
     MinHeaderSize
     + (if h_Flags h AND FlagChecksum \<noteq> 0 then 4 else 0)
     + (if h_Flags h AND FlagKey \<noteq> 0 then 4 else 0)
     + (if h_Flags h AND FlagSequence \<noteq> 0 then 4 else 0)"

text \<open>
  The field writes that \<open>Header.Marshal\<close> and \<open>Packet.MarshalTo\<close> share: the running \<open>offset\<close>
  is returned with the buffer, \<open>None\<close> is a bounds panic.
\<close>

definition write_header :: "header \<Rightarrow> bytes \<Rightarrow> (nat \<times> bytes) option" where
  "write_header h buf = do {
     buf \<leftarrow> put_at 0 (be16 (h_Flags h)) buf;
     buf \<leftarrow> put_at 2 (be16 (h_ProtocolType h)) buf;
     let offset = 4;
     (offset, buf) \<leftarrow>
       (if h_Flags h AND FlagChecksum \<noteq> 0 then do {
          buf \<leftarrow> put_at offset (be16 (h_Checksum h)) buf;
          buf \<leftarrow> put_at (offset + 2) (be16 (h_Reserved1 h)) buf;
          Some (offset + 4, buf) }
        else Some (offset, buf));
     (offset, buf) \<leftarrow>
       (if h_Flags h AND FlagKey \<noteq> 0 then do {
          buf \<leftarrow> put_at offset (be32 (h_Key h)) buf;
          Some (offset + 4, buf) }
        else Some (offset, buf));
     (if h_Flags h AND FlagSequence \<noteq> 0 then do {
        buf \<leftarrow> put_at offset (be32 (h_Sequence h)) buf;
        Some (offset + 4, buf) }
      else Some (offset, buf))
   }"

text \<open>
  \<open>Header.Marshal\<close> allocates exactly \<open>HeaderSize\<close> bytes; that the writes fit (the panic branch
  is dead) is \<open>write_header_fits\<close>.
\<close>

definition Header_Marshal :: "header \<Rightarrow> bytes" where
  "Header_Marshal h =
     (case write_header h (replicate (Header_HeaderSize h) 0) of
        None \<Rightarrow> [] | Some (_, buf) \<Rightarrow> buf)"

text \<open>\<open>Unmarshal\<close>: the header and the offset of the payload, or an error.\<close>

definition Unmarshal :: "bytes \<Rightarrow> go_error + header \<times> nat" where
  "Unmarshal data =
     (if length data < MinHeaderSize then Inl ErrPacketTooShort
      else
        let h = \<lparr>h_Flags = get16 (slice 0 2 data), h_ProtocolType = get16 (slice 2 4 data),
                 h_Checksum = 0, h_Reserved1 = 0, h_Key = 0, h_Sequence = 0\<rparr>
        in if h_Flags h AND 7 \<noteq> 0 then Inl ErrInvalidVersion
        else
          let offset = 4; ck = (h_Flags h AND FlagChecksum \<noteq> 0)
          in if ck \<and> length data < offset + 4 then Inl ErrPacketTooShort
          else
            let h = (if ck then h\<lparr>h_Checksum := get16 (slice offset (offset + 2) data),
                               h_Reserved1 := get16 (slice (offset + 2) (offset + 4) data)\<rparr>
                     else h);
                offset = (if ck then offset + 4 else offset);
                ky = (h_Flags h AND FlagKey \<noteq> 0)
            in if ky \<and> length data < offset + 4 then Inl ErrPacketTooShort
            else
              let h = (if ky then h\<lparr>h_Key := get32 (slice offset (offset + 4) data)\<rparr> else h);
                  offset = (if ky then offset + 4 else offset);
                  sq = (h_Flags h AND FlagSequence \<noteq> 0)
              in if sq \<and> length data < offset + 4 then Inl ErrPacketTooShort
              else
                let h = (if sq then h\<lparr>h_Sequence := get32 (slice offset (offset + 4) data)\<rparr>
                         else h);
                    offset = (if sq then offset + 4 else offset)
                in Inr (h, offset))"

record packet =
  p_Header :: header
  p_Payload :: bytes

definition NewPacket :: "u32 \<Rightarrow> bytes \<Rightarrow> packet" where
  "NewPacket key payload =
     \<lparr>p_Header = \<lparr>h_Flags = FlagKey, h_ProtocolType = EtherTypeTransparentEthernet,
                  h_Checksum = 0, h_Reserved1 = 0, h_Key = key, h_Sequence = 0\<rparr>,
      p_Payload = payload\<rparr>"

text \<open>\<open>Packet.Marshal\<close>: two copies into a fresh buffer.\<close>

definition Packet_Marshal :: "packet \<Rightarrow> bytes" where
  "Packet_Marshal p =
     (let hdr = Header_Marshal (p_Header p);
          result = replicate (length hdr + length (p_Payload p)) 0
      in case do { r \<leftarrow> copy_at 0 hdr result; copy_at (length hdr) (p_Payload p) r } of
           None \<Rightarrow> [] | Some r \<Rightarrow> r)"

text \<open>\<open>Packet.MarshalTo\<close>: the number of bytes written and the buffer; \<open>None\<close> is a panic.\<close>

definition Packet_MarshalTo :: "packet \<Rightarrow> bytes \<Rightarrow> (nat \<times> bytes) option" where
  "Packet_MarshalTo p buf = do {
     let headerSize = Header_HeaderSize (p_Header p);
     (_, buf) \<leftarrow> write_header (p_Header p) buf;
     buf' \<leftarrow> copy_at headerSize (p_Payload p) buf;
     Some (headerSize + min (length buf - headerSize) (length (p_Payload p)), buf')
   }"

definition UnmarshalPacket :: "bytes \<Rightarrow> go_error + packet" where
  "UnmarshalPacket data =
     (case Unmarshal data of
        Inl e \<Rightarrow> Inl e
      | Inr (h, offset) \<Rightarrow> Inr \<lparr>p_Header = h, p_Payload = drop offset data\<rparr>)"

subsection \<open>IPv4 header\<close>

record ipheader =
  ip_Version :: u8
  ip_IHL :: u8
  ip_TOS :: u8
  ip_TotalLen :: u16
  ip_ID :: u16
  ip_FragOff :: u16
  ip_TTL :: u8
  ip_Protocol :: u8
  ip_Checksum :: u16
  ip_SrcIP :: bytes
  ip_DstIP :: bytes

text \<open>
  \<open>net.IP.To4\<close> of the standard library: a 4-byte address is itself, a 16-byte IPv4-mapped
  address its last four bytes, anything else \<open>nil\<close>.
\<close>

definition To4 :: "bytes \<Rightarrow> bytes" where
  "To4 ip =
     (if length ip = 4 then ip
      else if length ip = 16 \<and> take 10 ip = replicate 10 0 \<and> take 2 (drop 10 ip) = [0xff, 0xff]
      then drop 12 ip else [])"

text \<open>
  \<open>MarshalIPHeader\<close>. Copying a shorter address into a four-byte slice leaves the remaining
  zero bytes.
\<close>

definition MarshalIPHeader :: "bytes \<Rightarrow> bytes \<Rightarrow> int \<Rightarrow> bytes" where
  "MarshalIPHeader srcIP dstIP payloadLen =
     (let totalLen = word_of_int (20 + payloadLen) :: u16;
          addr = (\<lambda>ip. take 4 (To4 ip @ replicate 4 0))
      in [0x45, 0] @ be16 totalLen @ be16 0 @ be16 0x4000 @ [64, ProtocolNumber] @ be16 0
         @ addr srcIP @ addr dstIP)"

definition ParseIPHeader :: "bytes \<Rightarrow> go_error + ipheader \<times> nat" where
  "ParseIPHeader data =
     (if length data < 20 then Inl ErrPacketTooShort
      else
        let ihl = unat (data ! 0 AND 0x0f) * 4
        in if length data < ihl then Inl ErrPacketTooShort
        else Inr (\<lparr>ip_Version = drop_bit 4 (data ! 0), ip_IHL = of_nat ihl, ip_TOS = data ! 1,
                   ip_TotalLen = get16 (slice 2 4 data), ip_ID = get16 (slice 4 6 data),
                   ip_FragOff = get16 (slice 6 8 data), ip_TTL = data ! 8,
                   ip_Protocol = data ! 9, ip_Checksum = get16 (slice 10 12 data),
                   ip_SrcIP = slice 12 16 data, ip_DstIP = slice 16 20 data\<rparr>, ihl))"

section \<open>Reference encoding\<close>

text \<open>The wire image of a header as the RFC draws it.\<close>

definition header_bytes :: "header \<Rightarrow> bytes" where
  "header_bytes h =
     be16 (h_Flags h) @ be16 (h_ProtocolType h)
     @ (if h_Flags h AND FlagChecksum \<noteq> 0 then be16 (h_Checksum h) @ be16 (h_Reserved1 h) else [])
     @ (if h_Flags h AND FlagKey \<noteq> 0 then be32 (h_Key h) else [])
     @ (if h_Flags h AND FlagSequence \<noteq> 0 then be32 (h_Sequence h) else [])"

text \<open>A header the decoder can return: version 0, and zero in the fields that are absent.\<close>

definition wf_header :: "header \<Rightarrow> bool" where
  "wf_header h \<longleftrightarrow>
     h_Flags h AND 7 = 0
     \<and> (h_Flags h AND FlagChecksum = 0 \<longrightarrow> h_Checksum h = 0 \<and> h_Reserved1 h = 0)
     \<and> (h_Flags h AND FlagKey = 0 \<longrightarrow> h_Key h = 0)
     \<and> (h_Flags h AND FlagSequence = 0 \<longrightarrow> h_Sequence h = 0)"

definition wf_packet :: "packet \<Rightarrow> bool" where
  "wf_packet p \<longleftrightarrow> wf_header (p_Header p)"

section \<open>Encoders\<close>

lemma length_header_bytes: "length (header_bytes h) = Header_HeaderSize h"
  by (simp add: header_bytes_def Header_HeaderSize_def MinHeaderSize_def)

lemma header_size_bounds: "4 \<le> Header_HeaderSize h \<and> Header_HeaderSize h \<le> 16"
  by (simp add: Header_HeaderSize_def MinHeaderSize_def)

lemma write_header_fits:
  assumes "Header_HeaderSize h \<le> length buf"
  shows "write_header h buf = Some (Header_HeaderSize h, filled (header_bytes h) buf)"
  using assms
  by (cases "h_Flags h AND FlagChecksum = 0"; cases "h_Flags h AND FlagKey = 0";
      cases "h_Flags h AND FlagSequence = 0")
    (simp_all add: write_header_def header_bytes_def Header_HeaderSize_def MinHeaderSize_def
      put_at_start put_at_filled)

lemma write_header_SomeD:
  assumes "write_header h buf = Some (n, buf')"
  shows "Header_HeaderSize h \<le> length buf"
  using assms
  by (cases "h_Flags h AND FlagChecksum = 0"; cases "h_Flags h AND FlagKey = 0";
      cases "h_Flags h AND FlagSequence = 0")
    (simp_all add: write_header_def Header_HeaderSize_def MinHeaderSize_def bind_eq_Some_conv,
      (elim exE conjE, drule put_at_SomeD, simp)+)

lemma write_header_panics:
  "length buf < Header_HeaderSize h \<Longrightarrow> write_header h buf = None"
  by (cases "write_header h buf") (auto dest: write_header_SomeD)

lemma Header_Marshal_eq: "Header_Marshal h = header_bytes h"
  by (simp add: Header_Marshal_def write_header_fits filled_def length_header_bytes)

lemma Packet_Marshal_eq: "Packet_Marshal p = header_bytes (p_Header p) @ p_Payload p"
  by (simp add: Packet_Marshal_def Header_Marshal_eq copy_at_def Let_def)

lemma Packet_MarshalTo_fits:
  assumes "Header_HeaderSize (p_Header p) + length (p_Payload p) \<le> length buf"
  shows "Packet_MarshalTo p buf =
    Some (length (Packet_Marshal p), filled (Packet_Marshal p) buf)"
  using assms
  by (simp add: Packet_MarshalTo_def write_header_fits copy_at_filled length_header_bytes
      Packet_Marshal_eq length_filled min_absorb2 Let_def)

section \<open>Decoder\<close>

lemma Unmarshal_header_bytes:
  assumes "wf_header h"
  shows "Unmarshal (header_bytes h @ rest) = Inr (h, Header_HeaderSize h)"
  using assms
  by (cases "h_Flags h AND FlagChecksum = 0"; cases "h_Flags h AND FlagKey = 0";
      cases "h_Flags h AND FlagSequence = 0")
    (simp_all add: Unmarshal_def header_bytes_def Header_HeaderSize_def MinHeaderSize_def
      wf_header_def slice_def Let_def)

lemma Unmarshal_Inr:
  assumes "Unmarshal data = Inr (h, n)"
  shows "wf_header h" and "n = Header_HeaderSize h" and "n \<le> length data"
    and "data = header_bytes h @ drop n data"
  using assms
  by (cases "get16 (slice 0 2 data) AND FlagChecksum = 0";
      cases "get16 (slice 0 2 data) AND FlagKey = 0";
      cases "get16 (slice 0 2 data) AND FlagSequence = 0";
      auto simp: Unmarshal_def header_bytes_def Header_HeaderSize_def MinHeaderSize_def
      wf_header_def be16_get16 be32_get32 length_slice slice_drop Let_def split: if_splits)+

lemma wf_NewPacket [simp]: "wf_packet (NewPacket key payload)"
  by (simp add: wf_packet_def wf_header_def NewPacket_def FlagKey_def FlagChecksum_def
      FlagSequence_def)

lemma header_bytes_NewPacket:
  "header_bytes (p_Header (NewPacket key payload)) = [0x20, 0x00, 0x65, 0x58] @ be32 key"
  by (simp add: header_bytes_def NewPacket_def FlagKey_def FlagChecksum_def FlagSequence_def
      EtherTypeTransparentEthernet_def be16_def)

text \<open>GRE packets are a canonical wire format.\<close>

interpretation gre_packet: canonical_codec Packet_Marshal UnmarshalPacket wf_packet
proof unfold_locales
  fix p assume "wf_packet p"
  then show "UnmarshalPacket (Packet_Marshal p) = Inr p"
    by (simp add: UnmarshalPacket_def Packet_Marshal_eq Unmarshal_header_bytes wf_packet_def
        length_header_bytes)
next
  fix bs p assume "UnmarshalPacket bs = Inr p"
  then obtain h n where "Unmarshal bs = Inr (h, n)" and "p = \<lparr>p_Header = h, p_Payload = drop n bs\<rparr>"
    by (auto simp: UnmarshalPacket_def split: sum.splits)
  with Unmarshal_Inr [of bs h n] show "wf_packet p" and "Packet_Marshal p = bs"
    by (simp_all add: wf_packet_def Packet_Marshal_eq)
qed

text \<open>The header size that the first two bytes announce.\<close>

definition announced_size :: "bytes \<Rightarrow> nat" where
  "announced_size data = Header_HeaderSize \<lparr>h_Flags = get16 (slice 0 2 data), h_ProtocolType = 0,
     h_Checksum = 0, h_Reserved1 = 0, h_Key = 0, h_Sequence = 0\<rparr>"

lemmas unmarshal_unfold =
  Unmarshal_def UnmarshalPacket_def announced_size_def Header_HeaderSize_def MinHeaderSize_def

section \<open>Properties\<close>

text \<open>
  C34. The GRE decoder and encoder are exact inverses: an input is accepted with packet \<open>p\<close> if and
  only if \<open>p\<close> has version 0 with zeroes in its absent optional fields and the input is the
  encoding of \<open>p\<close>. So nothing is lost, added or reinterpreted on the wire.
\<close>

theorem gre_packet_exact:
  "UnmarshalPacket bs = Inr p \<longleftrightarrow> wf_packet p \<and> Packet_Marshal p = bs"
  by (rule gre_packet.decode_iff)

text \<open>
  The zero-copy encoder agrees with the allocating one for every packet and buffer: it panics
  exactly when the buffer cannot hold the header, and otherwise stores as much of the encoding
  as fits, leaves the rest of the buffer alone and returns the number of bytes stored.
\<close>

theorem gre_MarshalTo_exact:
  "Packet_MarshalTo p buf =
     (if length buf < Header_HeaderSize (p_Header p) then None
      else let n = min (length buf) (length (Packet_Marshal p))
           in Some (n, take n (Packet_Marshal p) @ drop n buf))"
proof (cases "length buf < Header_HeaderSize (p_Header p)")
  case True
  then show ?thesis by (simp add: Packet_MarshalTo_def write_header_panics)
next
  case False
  then have "Packet_MarshalTo p buf =
      Some (Header_HeaderSize (p_Header p)
              + min (length buf - Header_HeaderSize (p_Header p)) (length (p_Payload p)),
            filled (header_bytes (p_Header p)
              @ take (length buf - Header_HeaderSize (p_Header p)) (p_Payload p)) buf)"
    by (simp add: Packet_MarshalTo_def write_header_fits copy_at_filled length_header_bytes
        length_filled Let_def)
  with False show ?thesis
    by (auto simp: Packet_Marshal_eq length_header_bytes filled_def Let_def min_def)
qed

text \<open>
  The decoder rejects exactly the malformed inputs, each with its own error: fewer than four
  bytes or fewer than the header announced by the flags is \<open>ErrPacketTooShort\<close>, a non-zero
  version with at least four bytes is \<open>ErrInvalidVersion\<close>.
\<close>

theorem gre_Unmarshal_errors:
  "UnmarshalPacket data = Inl e \<longleftrightarrow>
     (if length data < 4 then e = ErrPacketTooShort
      else if get16 (slice 0 2 data) AND 7 \<noteq> 0 then e = ErrInvalidVersion
      else length data < announced_size data \<and> e = ErrPacketTooShort)"
  by (cases "get16 (slice 0 2 data) AND FlagChecksum = 0";
      cases "get16 (slice 0 2 data) AND FlagKey = 0";
      cases "get16 (slice 0 2 data) AND FlagSequence = 0")
    (auto simp: unmarshal_unfold Let_def split: if_splits)

text \<open>
  The IPv4 header that is built for a GRE packet parses back: protocol 47, a 20-byte header,
  the given addresses, and the total length modulo 2^16.
\<close>

theorem ip_header_roundtrip:
  assumes "length src = 4" and "length dst = 4"
  shows "ParseIPHeader (MarshalIPHeader src dst n @ rest) =
    Inr (\<lparr>ip_Version = 4, ip_IHL = 20, ip_TOS = 0, ip_TotalLen = word_of_int (20 + n), ip_ID = 0,
          ip_FragOff = 0x4000, ip_TTL = 64, ip_Protocol = 47, ip_Checksum = 0,
          ip_SrcIP = src, ip_DstIP = dst\<rparr>, 20)"
  using assms
  by (simp add: ParseIPHeader_def MarshalIPHeader_def To4_def slice_def ProtocolNumber_def nth_append
      Let_def)

theorem ip_header_roundtrip_witness:
  "ParseIPHeader (MarshalIPHeader [10, 0, 0, 1] [10, 0, 0, 2] 100 @ [7]) =
    Inr (\<lparr>ip_Version = 4, ip_IHL = 20, ip_TOS = 0, ip_TotalLen = 120, ip_ID = 0,
          ip_FragOff = 0x4000, ip_TTL = 64, ip_Protocol = 47, ip_Checksum = 0,
          ip_SrcIP = [10, 0, 0, 1], ip_DstIP = [10, 0, 0, 2]\<rparr>, 20)"
  using ip_header_roundtrip [of "[10, 0, 0, 1]" "[10, 0, 0, 2]" 100 "[7]"] by simp

end
