(* ===== verification/Transport.thy ===== *)
theory Transport
  imports Gre
begin

text \<open>
  The raw socket transports, pkg/transport/raw.go and pkg/transport/server.go. The socket is outside
  the program: what \<open>WriteToIP\<close> is given is recorded, what it returns and what \<open>ReadFromIP\<close> returns
  are arguments. Logging is left out.
\<close>

section \<open>Addresses\<close>

text \<open>\<open>net.IP.Equal\<close>: an IPv4 address and its IPv4-mapped form are equal.\<close>

definition ip_Equal :: "bytes \<Rightarrow> bytes \<Rightarrow> bool" where
  "ip_Equal a b =
     (if length a = length b then a = b
      else if length a = 4 \<and> length b = 16 then To4 b = a
      else if length a = 16 \<and> length b = 4 then To4 a = b
      else False)"

text \<open>
  \<open>net.IP.String\<close> for IPv4 addresses, dotted decimal; a nil address is \<open><nil>\<close>, an address of the
  wrong length \<open>?\<close> and its hexadecimal digits. (The sockets are \<open>ip4\<close>: \<open>ReadFromIP\<close> returns no
  IPv6 addresses, whose notation is left out.)
\<close>

definition digit :: "nat \<Rightarrow> char" where
  "digit n = char_of (if n < 10 then 48 + n else 87 + n)"

definition decimal :: "u8 \<Rightarrow> string" where
  "decimal b =
     (let n = unat b
      in (if n < 100 then [] else [digit (n div 100)])
         @ (if n < 10 then [] else [digit (n div 10 mod 10)]) @ [digit (n mod 10)])"

definition hex :: "u8 \<Rightarrow> string" where
  "hex b = [digit (unat b div 16), digit (unat b mod 16)]"

definition ip_String :: "bytes \<Rightarrow> string" where
  "ip_String ip =
     (if ip = [] then ''<nil>'' else case To4 ip of
        [a, b, c, d] \<Rightarrow>
          decimal a @ ''.'' @ decimal b @ ''.'' @ decimal c @ ''.'' @ decimal d
      | _ \<Rightarrow> ''?'' @ concat (map hex ip))"

section \<open>Client transport\<close>

text \<open>
  \<open>RawTransport\<close>: \<open>rt_wire\<close> records the calls of \<open>WriteToIP\<close>, \<open>rt_delivered\<close> the calls of
  \<open>onReceive\<close>, \<open>rt_handler\<close> says whether one is set. \<open>raw_stats\<close> are the local counters of the
  receive loop.
\<close>

record raw_transport =
  rt_localIP :: bytes
  rt_remoteIP :: "bytes option"
  rt_key :: u32
  rt_handler :: bool
  rt_closed :: bool
  rt_closeCh :: bool
  rt_recvCount :: u64
  rt_sendCount :: u64
  rt_wire :: "(bytes option \<times> bytes) list"
  rt_delivered :: "bytes list"

record raw_stats =
  totalRecv :: u64
  filtered :: u64
  keyMismatch :: u64
  delivered :: u64

text \<open>\<open>NewRawTransport\<close>: the argument is the error that \<open>ListenIP\<close> returns.\<close>

definition NewRawTransport ::
  "go_error option \<Rightarrow> bytes \<Rightarrow> bytes option \<Rightarrow> u32 \<Rightarrow> go_error + raw_transport" where
  "NewRawTransport listen localIP remoteIP key =
     (case listen of
        Some err \<Rightarrow> Inl err
      | None \<Rightarrow>
          Inr \<lparr>rt_localIP = localIP, rt_remoteIP = remoteIP, rt_key = key, rt_handler = False,
               rt_closed = False, rt_closeCh = False, rt_recvCount = 0, rt_sendCount = 0,
               rt_wire = [], rt_delivered = []\<rparr>)"

definition SetReceiveHandler :: "bool \<Rightarrow> raw_transport \<Rightarrow> raw_transport" where
  "SetReceiveHandler handler t = t\<lparr>rt_handler := handler\<rparr>"

text \<open>\<open>Send\<close>: the first argument is the error that \<open>WriteToIP\<close> returns.\<close>

definition raw_Send :: "go_error option \<Rightarrow> bytes \<Rightarrow> raw_transport \<Rightarrow> go_error option \<times> raw_transport" where
  "raw_Send werr payload t =
     (if rt_closed t then (Some ErrTransportClosed, t)
      else
        let packet = NewPacket (rt_key t) payload;
            greData = Packet_Marshal packet;
            t = t\<lparr>rt_wire := rt_wire t @ [(rt_remoteIP t, greData)]\<rparr>;
            t = (if werr = None then t\<lparr>rt_sendCount := rt_sendCount t + 1\<rparr> else t)
        in (werr, t))"

text \<open>
  A slice of bytes: the memory behind it, from its first byte up to its capacity, and its length. An index
  panics (\<open>None\<close>) beyond the length; \<open>buf[:n]\<close> panics for \<open>n\<close> negative or beyond the capacity, so it can
  reach bytes behind the length.
\<close>

record goslice =
  sl_mem :: bytes
  sl_len :: nat

definition put_byte :: "nat \<Rightarrow> u8 \<Rightarrow> goslice \<Rightarrow> goslice option" where
  "put_byte i b buf = (if i < sl_len buf then Some (buf\<lparr>sl_mem := (sl_mem buf)[i := b]\<rparr>) else None)"

definition slice_to :: "int \<Rightarrow> goslice \<Rightarrow> bytes option" where
  "slice_to n buf = (if 0 \<le> n \<and> n \<le> int (length (sl_mem buf)) then Some (take (nat n) (sl_mem buf)) else None)"

text \<open>The header writes of the two \<open>SendZeroCopy\<close>, one byte at a time.\<close>

definition zero_copy_header :: "u32 \<Rightarrow> goslice \<Rightarrow> goslice option" where
  "zero_copy_header key buf = do {
     buf \<leftarrow> put_byte 0 0x20 buf;
     buf \<leftarrow> put_byte 1 0x00 buf;
     buf \<leftarrow> put_byte 2 0x65 buf;
     buf \<leftarrow> put_byte 3 0x58 buf;
     buf \<leftarrow> put_byte 4 (ucast (drop_bit 24 key)) buf;
     buf \<leftarrow> put_byte 5 (ucast (drop_bit 16 key)) buf;
     buf \<leftarrow> put_byte 6 (ucast (drop_bit 8 key)) buf;
     put_byte 7 (ucast key) buf
   }"

definition raw_SendZeroCopy ::
  "go_error option \<Rightarrow> goslice \<Rightarrow> int \<Rightarrow> int \<Rightarrow> raw_transport
   \<Rightarrow> (go_error option \<times> raw_transport) option" where
  "raw_SendZeroCopy werr buf headerOffset payloadSize t =
     (if rt_closed t then Some (Some ErrTransportClosed, t)
      else do {
        buf \<leftarrow> zero_copy_header (rt_key t) buf;
        out \<leftarrow> slice_to (wrap64 (headerOffset + payloadSize)) buf;
        let t = t\<lparr>rt_wire := rt_wire t @ [(rt_remoteIP t, out)]\<rparr>;
        let t = (if werr = None then t\<lparr>rt_sendCount := rt_sendCount t + 1\<rparr> else t);
        Some (werr, t)
      })"

text \<open>
  One iteration of \<open>receiveLoop\<close>: what \<open>ReadFromIP\<close> returns is an error or a sender and a
  datagram, of which the buffer takes 65535 bytes.
\<close>

type_synonym ip_read = "go_error + bytes \<times> bytes"

definition raw_receive ::
  "ip_read \<Rightarrow> raw_transport \<times> raw_stats \<Rightarrow> raw_transport \<times> raw_stats" where
  "raw_receive rd ts =
     (case ts of (t, st) \<Rightarrow>
        if rt_closed t then (t, st)
        else case rd of
          Inl err \<Rightarrow> (t, st)
        | Inr (addr, datagram) \<Rightarrow>
            let buf = take 65535 datagram;
                st = st\<lparr>totalRecv := totalRecv st + 1\<rparr>
            in if (case rt_remoteIP t of None \<Rightarrow> False | Some ip \<Rightarrow> \<not> ip_Equal addr ip)
            then (t, st\<lparr>filtered := filtered st + 1\<rparr>)
            else case UnmarshalPacket buf of
              Inl err \<Rightarrow> (t, st)
            | Inr packet \<Rightarrow>
                if h_Key (p_Header packet) \<noteq> rt_key t
                then (t, st\<lparr>keyMismatch := keyMismatch st + 1\<rparr>)
                else if rt_handler t \<and> length (p_Payload packet) > 0
                then (t\<lparr>rt_delivered := rt_delivered t @ [p_Payload packet],
                        rt_recvCount := rt_recvCount t + 1\<rparr>,
                      st\<lparr>delivered := delivered st + 1\<rparr>)
                else (t, st))"

definition raw_Close :: "raw_transport \<Rightarrow> raw_transport" where
  "raw_Close t = (if rt_closed t then t else t\<lparr>rt_closed := True, rt_closeCh := True\<rparr>)"

definition raw_stats_init :: raw_stats where
  "raw_stats_init = \<lparr>totalRecv = 0, filtered = 0, keyMismatch = 0, delivered = 0\<rparr>"

text \<open>\<open>receiveLoop\<close> over the reads that the socket answers.\<close>

definition raw_receiveLoop :: "ip_read list \<Rightarrow> raw_transport \<Rightarrow> raw_transport \<times> raw_stats" where
  "raw_receiveLoop reads t = fold raw_receive reads (t, raw_stats_init)"

section \<open>Server transport\<close>

record st_client =
  sc_ip :: bytes
  sc_seq :: u32

record server_transport =
  st_localIP :: bytes
  st_key :: u32
  st_clients :: "(string, st_client) fmap"
  st_handler :: bool
  st_closed :: bool
  st_closeCh :: bool
  st_wire :: "(bytes \<times> bytes) list"
  st_delivered :: "(bytes \<times> bytes) list"

definition NewServerTransport :: "go_error option \<Rightarrow> bytes \<Rightarrow> u32 \<Rightarrow> go_error + server_transport" where
  "NewServerTransport listen localIP key =
     (case listen of
        Some err \<Rightarrow> Inl err
      | None \<Rightarrow>
          Inr \<lparr>st_localIP = localIP, st_key = key, st_clients = fmempty, st_handler = False,
               st_closed = False, st_closeCh = False, st_wire = [], st_delivered = []\<rparr>)"

definition st_SetReceiveHandler :: "bool \<Rightarrow> server_transport \<Rightarrow> server_transport" where
  "st_SetReceiveHandler handler t = t\<lparr>st_handler := handler\<rparr>"

definition st_Send ::
  "go_error option \<Rightarrow> bytes \<Rightarrow> bytes \<Rightarrow> server_transport \<Rightarrow> go_error option \<times> server_transport" where
  "st_Send werr clientIP payload t =
     (if st_closed t then (Some ErrTransportClosed, t)
      else
        let packet = NewPacket (st_key t) payload;
            greData = Packet_Marshal packet
        in (werr, t\<lparr>st_wire := st_wire t @ [(clientIP, greData)]\<rparr>))"

definition st_SendZeroCopy ::
  "go_error option \<Rightarrow> bytes \<Rightarrow> goslice \<Rightarrow> int \<Rightarrow> int \<Rightarrow> server_transport
   \<Rightarrow> (go_error option \<times> server_transport) option" where
  "st_SendZeroCopy werr clientIP buf headerOffset payloadSize t =
     (if st_closed t then Some (Some ErrTransportClosed, t)
      else do {
        buf \<leftarrow> zero_copy_header (st_key t) buf;
        out \<leftarrow> slice_to (wrap64 (headerOffset + payloadSize)) buf;
        Some (werr, t\<lparr>st_wire := st_wire t @ [(clientIP, out)]\<rparr>)
      })"

definition st_receive :: "ip_read \<Rightarrow> server_transport \<Rightarrow> server_transport" where
  "st_receive rd t =
     (if st_closed t then t
      else case rd of
        Inl err \<Rightarrow> t
      | Inr (addr, datagram) \<Rightarrow>
          (case UnmarshalPacket (take 65535 datagram) of
             Inl err \<Rightarrow> t
           | Inr packet \<Rightarrow>
               if h_Key (p_Header packet) \<noteq> st_key t then t
               else
                 let clientKey = ip_String addr;
                     t = (if fmlookup (st_clients t) clientKey = None
                          then t\<lparr>st_clients := fmupd clientKey \<lparr>sc_ip = addr, sc_seq = 0\<rparr> (st_clients t)\<rparr>
                          else t)
                 in if st_handler t \<and> length (p_Payload packet) > 0
                    then t\<lparr>st_delivered := st_delivered t @ [(addr, p_Payload packet)]\<rparr>
                    else t))"

definition st_receiveLoop :: "ip_read list \<Rightarrow> server_transport \<Rightarrow> server_transport" where
  "st_receiveLoop reads t = fold st_receive reads t"

definition st_Close :: "server_transport \<Rightarrow> server_transport" where
  "st_Close t = (if st_closed t then t else t\<lparr>st_closed := True, st_closeCh := True\<rparr>)"

section \<open>Zero-copy sending\<close>

definition wf_slice :: "goslice \<Rightarrow> bool" where
  "wf_slice buf \<longleftrightarrow> sl_len buf \<le> length (sl_mem buf)"

lemma zero_copy_header_fits:
  assumes "wf_slice buf" and "8 \<le> sl_len buf"
  shows "zero_copy_header key buf =
    Some (buf\<lparr>sl_mem := Packet_Marshal (NewPacket key []) @ drop 8 (sl_mem buf)\<rparr>)"
proof -
  obtain b0 b1 b2 b3 b4 b5 b6 b7 rest where "sl_mem buf = b0 # b1 # b2 # b3 # b4 # b5 # b6 # b7 # rest"
    using le_trans [OF assms(2) assms(1) [unfolded wf_slice_def]] by (auto simp: Suc_le_length_iff numeral_eq_Suc)
  then show ?thesis
    using assms(2)
    by (simp add: zero_copy_header_def put_byte_def Packet_Marshal_eq header_bytes_NewPacket be32_def)
      (simp add: NewPacket_def)
qed

lemma zero_copy_header_short: "sl_len buf < 8 \<Longrightarrow> zero_copy_header key buf = None"
  by (auto simp: zero_copy_header_def put_byte_def split: Option.bind_splits if_splits)

lemma NewPacket_bytes:
  "Packet_Marshal (NewPacket key p) = Packet_Marshal (NewPacket key []) @ p"
  "length (Packet_Marshal (NewPacket key [])) = 8"
  by (simp_all add: Packet_Marshal_eq header_bytes_NewPacket) (simp_all add: NewPacket_def)

lemma zero_copy_bind:
  assumes "wf_slice buf"
  shows "Option.bind (zero_copy_header key buf) (\<lambda>b. Option.bind (slice_to totalSize b) f) =
    (if sl_len buf < 8 \<or> totalSize < 0 \<or> int (length (sl_mem buf)) < totalSize then None
     else if 8 \<le> totalSize then f (Packet_Marshal (NewPacket key (take (nat totalSize - 8) (drop 8 (sl_mem buf)))))
     else f (take (nat totalSize) (Packet_Marshal (NewPacket key []))))"
proof (cases "8 \<le> sl_len buf")
  case True
  then have "8 \<le> length (sl_mem buf)" using assms by (simp add: wf_slice_def)
  then show ?thesis
    using True zero_copy_header_fits [OF assms True]
      NewPacket_bytes(1) [of key "take (nat totalSize - 8) (drop 8 (sl_mem buf))"] NewPacket_bytes(2) [of key]
    by (auto simp: slice_to_def not_le not_less)
qed (simp add: zero_copy_header_short)

section \<open>Receiving\<close>

lemma UnmarshalPacket_iff:
  "UnmarshalPacket buf = Inr pk \<longleftrightarrow> wf_packet pk \<and> Packet_Marshal pk = buf"
  by (rule gre_packet.decode_iff)

lemma UnmarshalPacket_NewPacket: "UnmarshalPacket (Packet_Marshal (NewPacket key p)) = Inr (NewPacket key p)"
  by (simp add: gre_packet.decode_encode)

lemma length_NewPacket: "length (Packet_Marshal (NewPacket key p)) = 8 + length p"
  by (simp add: Packet_Marshal_eq header_bytes_NewPacket) (simp add: NewPacket_def)

lemma NewPacket_fields [simp]:
  "p_Payload (NewPacket key p) = p" "h_Key (p_Header (NewPacket key p)) = key"
  by (simp_all add: NewPacket_def)

text \<open>What the payload of an arriving datagram is to the transports: \<open>None\<close> when it is not for us.\<close>

definition gre_payload :: "u32 \<Rightarrow> bytes \<Rightarrow> bytes option" where
  "gre_payload key datagram =
     (case UnmarshalPacket (take 65535 datagram) of
        Inl err \<Rightarrow> None
      | Inr pk \<Rightarrow> if h_Key (p_Header pk) = key then Some (p_Payload pk) else None)"

lemma gre_payload_iff:
  assumes "length datagram \<le> 65535"
  shows "gre_payload key datagram = Some p \<longleftrightarrow>
    (\<exists>h. wf_header h \<and> h_Key h = key \<and> datagram = header_bytes h @ p)"
proof
  assume "gre_payload key datagram = Some p"
  then obtain pk where "UnmarshalPacket datagram = Inr pk" "h_Key (p_Header pk) = key" "p_Payload pk = p"
    using assms by (auto simp: gre_payload_def split: sum.splits if_splits)
  then show "\<exists>h. wf_header h \<and> h_Key h = key \<and> datagram = header_bytes h @ p"
    by (intro exI [of _ "p_Header pk"])
      (auto simp: UnmarshalPacket_iff Packet_Marshal_eq wf_packet_def)
next
  assume "\<exists>h. wf_header h \<and> h_Key h = key \<and> datagram = header_bytes h @ p"
  then obtain h where "wf_header h" "h_Key h = key" "datagram = header_bytes h @ p" by blast
  then have "UnmarshalPacket datagram = Inr \<lparr>p_Header = h, p_Payload = p\<rparr>"
    by (simp add: UnmarshalPacket_iff wf_packet_def Packet_Marshal_eq)
  with assms \<open>h_Key h = key\<close> show "gre_payload key datagram = Some p" by (simp add: gre_payload_def)
qed

lemma gre_payload_NewPacket:
  "length p \<le> 65527 \<Longrightarrow> gre_payload key (Packet_Marshal (NewPacket key' p)) =
     (if key' = key then Some p else None)"
  by (simp add: gre_payload_def length_NewPacket UnmarshalPacket_NewPacket)

lemma raw_receive_delivered:
  "rt_delivered (fst (raw_receive rd (t, st))) = rt_delivered t @
     (case rd of
        Inl _ \<Rightarrow> []
      | Inr (addr, datagram) \<Rightarrow>
          if rt_closed t \<or> \<not> rt_handler t
             \<or> (case rt_remoteIP t of None \<Rightarrow> False | Some ip \<Rightarrow> \<not> ip_Equal addr ip) then []
          else case gre_payload (rt_key t) datagram of
                 None \<Rightarrow> [] | Some p \<Rightarrow> if p = [] then [] else [p])"
  by (auto simp: raw_receive_def gre_payload_def Let_def split: sum.splits option.splits)

lemma st_receive_delivered:
  "st_delivered (st_receive rd t) = st_delivered t @
     (case rd of
        Inl _ \<Rightarrow> []
      | Inr (addr, datagram) \<Rightarrow>
          if st_closed t \<or> \<not> st_handler t then []
          else case gre_payload (st_key t) datagram of
                 None \<Rightarrow> [] | Some p \<Rightarrow> if p = [] then [] else [(addr, p)])"
  by (auto simp: st_receive_def gre_payload_def Let_def split: sum.splits option.splits)


lemma st_receive_keeps_closed [simp]: "st_closed (st_receive rd t) = st_closed t"
  by (auto simp: st_receive_def Let_def split: sum.split prod.split)

text \<open>The receive loop does not touch the configuration.\<close>

definition raw_config :: "raw_transport \<Rightarrow> bytes \<times> bytes option \<times> u32 \<times> bool \<times> bool" where
  "raw_config t = (rt_localIP t, rt_remoteIP t, rt_key t, rt_handler t, rt_closed t)"

lemma raw_config_receive: "raw_config (fst (raw_receive rd ts)) = raw_config (fst ts)"
  by (auto simp: raw_receive_def raw_config_def Let_def split: prod.split sum.split option.split)

definition raw_accepts :: "raw_transport \<Rightarrow> ip_read \<Rightarrow> bytes option" where
  "raw_accepts t rd =
     (case rd of
        Inl _ \<Rightarrow> None
      | Inr (addr, datagram) \<Rightarrow>
          if rt_closed t \<or> \<not> rt_handler t
             \<or> (case rt_remoteIP t of None \<Rightarrow> False | Some ip \<Rightarrow> \<not> ip_Equal addr ip) then None
          else case gre_payload (rt_key t) datagram of
                 None \<Rightarrow> None | Some p \<Rightarrow> if p = [] then None else Some p)"

lemma raw_accepts_config: "raw_config t = raw_config t' \<Longrightarrow> raw_accepts t = raw_accepts t'"
  by (auto simp: raw_accepts_def raw_config_def fun_eq_iff split: sum.split option.split)

lemma raw_receive_accepts:
  "rt_delivered (fst (raw_receive rd ts)) = rt_delivered (fst ts) @ List.map_filter (raw_accepts (fst ts)) [rd]"
  by (cases ts)
    (auto simp: raw_receive_delivered raw_accepts_def map_filter_def split: sum.split option.split)

lemma raw_fold_accepts:
  "rt_delivered (fst (fold raw_receive reads ts)) =
     rt_delivered (fst ts) @ List.map_filter (raw_accepts (fst ts)) reads"
proof (induction reads arbitrary: ts)
  case Nil
  show ?case by (simp add: map_filter_def)
next
  case (Cons rd reads)
  have "raw_accepts (fst (raw_receive rd ts)) = raw_accepts (fst ts)"
    by (rule raw_accepts_config [OF raw_config_receive])
  with Cons show ?case by (simp add: raw_receive_accepts map_filter_def split: option.split)
qed

text \<open>The counters: one class for every datagram that is read while the transport is open.\<close>

definition raw_counts :: "raw_transport \<times> raw_stats \<Rightarrow> bool" where
  "raw_counts ts \<longleftrightarrow>
     rt_recvCount (fst ts) = of_nat (length (rt_delivered (fst ts)))
     \<and> delivered (snd ts) = rt_recvCount (fst ts)"

lemma raw_counts_receive: "raw_counts ts \<Longrightarrow> raw_counts (raw_receive rd ts)"
  by (auto simp: raw_receive_def raw_counts_def Let_def split: prod.split sum.split option.split)

section \<open>Client keys\<close>

lemma of_char_digit: "n < 10 \<Longrightarrow> of_char (digit n) = (48 + n :: nat)"
  by (simp add: digit_def)

lemma digit_not_dot: "n < 10 \<Longrightarrow> digit n \<noteq> CHR ''.''"
proof
  assume n: "n < 10" and "digit n = CHR ''.''"
  then have "of_char (digit n) = (of_char (CHR ''.'') :: nat)" by simp
  with of_char_digit [OF n] show False by simp
qed

lemma unat_byte: "unat (b :: u8) < 256"
  using unsigned_less [of b, where ?'a = nat] by simp

text \<open>The number that a digit string denotes.\<close>

definition digits_value :: "string \<Rightarrow> nat" where
  "digits_value cs = fold (\<lambda>c n. 10 * n + (of_char c - 48)) cs 0"

lemma three_digits: "10 * (10 * (n div 100) + n div 10 mod 10) + n mod 10 = (n :: nat)"
proof -
  have "n div 100 = n div 10 div 10" by (simp add: div_mult2_eq [symmetric])
  then have "10 * (n div 100) + n div 10 mod 10 = n div 10" by simp
  then show ?thesis by simp
qed

lemma decimal_value: "digits_value (decimal b) = unat b"
proof -
  define n where "n = unat b"
  have "n div 100 < 10" using unat_byte [of b] by (simp add: n_def less_mult_imp_div_less)
  then have d: "of_char (digit (n div 100)) = 48 + n div 100"
    "of_char (digit (n div 10 mod 10)) = 48 + n div 10 mod 10" "of_char (digit (n mod 10)) = 48 + n mod 10"
    by (simp_all add: of_char_digit)
  consider "n < 10" | "10 \<le> n" "n < 100" | "100 \<le> n" by linarith
  then show ?thesis
  proof cases
    case 1
    with d show ?thesis by (simp add: decimal_def digits_value_def n_def [symmetric])
  next
    case 2
    then have "n div 100 = 0" by simp
    with 2 d three_digits [of n] show ?thesis
      by (simp add: decimal_def digits_value_def n_def [symmetric])
  next
    case 3
    with d three_digits [of n] show ?thesis
      by (simp add: decimal_def digits_value_def n_def [symmetric])
  qed
qed

lemma decimal_no_dot: "CHR ''.'' \<notin> set (decimal b)"
proof -
  have "unat b div 100 < 10" using unat_byte [of b] by (simp add: less_mult_imp_div_less)
  then show ?thesis
    using digit_not_dot [of "unat b div 100"] digit_not_dot [of "unat b div 10 mod 10"]
      digit_not_dot [of "unat b mod 10"]
    by (auto simp: decimal_def Let_def)
qed

lemma split_at_dot:
  assumes "xs @ CHR ''.'' # ys = xs' @ CHR ''.'' # ys'"
    and "CHR ''.'' \<notin> set xs" and "CHR ''.'' \<notin> set xs'"
  shows "xs = xs' \<and> ys = ys'"
proof -
  have tw: "takeWhile (\<lambda>c. c \<noteq> CHR ''.'') (zs @ CHR ''.'' # r) = zs" if "CHR ''.'' \<notin> set zs" for zs r
    using that by (induction zs) auto
  have "xs = xs'" using tw [OF assms(2)] tw [OF assms(3)] assms(1) by metis
  with assms(1) show ?thesis by simp
qed

lemma decimal_inj: "decimal a = decimal b \<Longrightarrow> a = b"
  by (metis decimal_value word_unat_eq_iff)

lemma To4_cases: "To4 ip = [] \<or> (\<exists>a b c d. To4 ip = [a, b, c, d])"
  by (auto simp: To4_def length_Suc_conv numeral_eq_Suc)

lemma ip_String_inj:
  assumes "To4 a \<noteq> []" and "To4 b \<noteq> []" and "ip_String a = ip_String b"
  shows "To4 a = To4 b"
proof -
  obtain a1 a2 a3 a4 where a: "To4 a = [a1, a2, a3, a4]" using assms(1) To4_cases by blast
  obtain b1 b2 b3 b4 where b: "To4 b = [b1, b2, b3, b4]" using assms(2) To4_cases by blast
  have "a \<noteq> []" "b \<noteq> []" using a b by (auto simp: To4_def)
  then have eq: "decimal a1 @ CHR ''.'' # decimal a2 @ CHR ''.'' # decimal a3 @ CHR ''.'' # decimal a4 =
      decimal b1 @ CHR ''.'' # decimal b2 @ CHR ''.'' # decimal b3 @ CHR ''.'' # decimal b4"
    using assms(3) a b by (simp add: ip_String_def)
  note s = split_at_dot [OF _ decimal_no_dot decimal_no_dot]
  have 1: "decimal a1 = decimal b1" and r1: "decimal a2 @ CHR ''.'' # decimal a3 @ CHR ''.'' # decimal a4 =
      decimal b2 @ CHR ''.'' # decimal b3 @ CHR ''.'' # decimal b4" using s [OF eq] by simp_all
  have 2: "decimal a2 = decimal b2" and r2: "decimal a3 @ CHR ''.'' # decimal a4 = decimal b3 @ CHR ''.'' # decimal b4"
    using s [OF r1] by simp_all
  have "decimal a3 = decimal b3" "decimal a4 = decimal b4" using s [OF r2] by simp_all
  with 1 2 a b show ?thesis using decimal_inj by simp
qed

lemma mapped_address:
  assumes "To4 x \<noteq> []" and "length x = 16"
  shows "x = replicate 10 0 @ [0xff, 0xff] @ To4 x"
proof -
  have eq: "take 10 x @ take 2 (drop 10 x) @ drop 2 (drop 10 x) = x" by (simp only: append_take_drop_id)
  have "take 10 x = replicate 10 0" "take 2 (drop 10 x) = [0xff, 0xff]" "drop 2 (drop 10 x) = To4 x"
    using assms by (auto simp: To4_def split: if_splits)
  from eq [unfolded this] show ?thesis by (rule sym)
qed

lemma ip_Equal_To4:
  assumes "To4 a \<noteq> []" and "To4 b \<noteq> []"
  shows "ip_Equal a b \<longleftrightarrow> To4 a = To4 b"
proof -
  have len: "length x = 4 \<or> length x = 16" if "To4 x \<noteq> []" for x
    using that by (auto simp: To4_def split: if_splits)
  have four: "length x = 4 \<Longrightarrow> To4 x = x" for x by (simp add: To4_def)
  consider "length a = 4" "length b = 4" | "length a = 16" "length b = 16"
    | "length a = 4" "length b = 16" | "length a = 16" "length b = 4"
    using len [OF assms(1)] len [OF assms(2)] by blast
  then show ?thesis
  proof cases
    case 2
    note mapped = mapped_address [OF assms(1) 2(1)] mapped_address [OF assms(2) 2(2)]
    have "a = b" if eq: "To4 a = To4 b" by (rule trans [OF mapped(1) [unfolded eq] mapped(2) [symmetric]])
    with 2 show ?thesis by (auto simp: ip_Equal_def)
  qed (auto simp: ip_Equal_def four)
qed


text \<open>
  The keys of the client table: two IPv4 addresses, in four-byte or mapped form, have the same key exactly
  when they are equal addresses.
\<close>

lemma client_key_injective:
  assumes "To4 a \<noteq> []" and "To4 b \<noteq> []"
  shows "ip_String a = ip_String b \<longleftrightarrow> ip_Equal a b"
proof -
  have "a \<noteq> []" "b \<noteq> []" using assms by (auto simp: To4_def)
  then have "To4 a = To4 b \<Longrightarrow> ip_String a = ip_String b"
    using assms(2) To4_cases [of b] by (auto simp: ip_String_def)
  then show ?thesis using ip_String_inj [OF assms] ip_Equal_To4 [OF assms] by blast
qed

section \<open>Properties\<close>

text \<open>
  C26. Zero-copy sending, for every buffer, offset and size. Both \<open>SendZeroCopy\<close> put the header over the first eight
  bytes and send \<open>headerOffset + payloadSize\<close> bytes (a 64-bit sum). On an open transport they panic exactly when
  the buffer is shorter than eight bytes or that sum is negative or beyond its capacity. Otherwise they do what
  \<open>Send\<close> does with a copy of the bytes from position eight to the sum; when the sum is below eight the datagram is only
  a part of the header. So with \<open>headerOffset\<close> eight the payload behind the header space is sent, and with \<open>headerOffset\<close>
  zero the last eight of the \<open>payloadSize\<close> bytes behind the header are not.
\<close>

theorem zero_copy_exact:
  assumes "wf_slice buf" and "totalSize = wrap64 (headerOffset + payloadSize)"
  shows "raw_SendZeroCopy werr buf headerOffset payloadSize t =
      (if rt_closed t then Some (Some ErrTransportClosed, t)
       else if sl_len buf < 8 \<or> totalSize < 0 \<or> int (length (sl_mem buf)) < totalSize then None
       else if 8 \<le> totalSize then Some (raw_Send werr (take (nat totalSize - 8) (drop 8 (sl_mem buf))) t)
       else Some (werr, t\<lparr>rt_wire := rt_wire t @ [(rt_remoteIP t, take (nat totalSize) (Packet_Marshal (NewPacket (rt_key t) [])))],
                          rt_sendCount := rt_sendCount t + (if werr = None then 1 else 0)\<rparr>))
    \<and> st_SendZeroCopy werr ip buf headerOffset payloadSize s =
      (if st_closed s then Some (Some ErrTransportClosed, s)
       else if sl_len buf < 8 \<or> totalSize < 0 \<or> int (length (sl_mem buf)) < totalSize then None
       else if 8 \<le> totalSize then Some (st_Send werr ip (take (nat totalSize - 8) (drop 8 (sl_mem buf))) s)
       else Some (werr, s\<lparr>st_wire := st_wire s @ [(ip, take (nat totalSize) (Packet_Marshal (NewPacket (st_key s) [])))]\<rparr>))"
  by (simp add: raw_SendZeroCopy_def raw_Send_def st_SendZeroCopy_def st_Send_def Let_def
      zero_copy_bind [OF assms(1)] assms(2))

theorem zero_copy_exact_witness:
  "raw_SendZeroCopy None \<lparr>sl_mem = [0, 0, 0, 0, 0, 0, 0, 0, 7, 9], sl_len = 9\<rparr> 8 2
       (projr (NewRawTransport None [10, 0, 0, 1] (Some [10, 0, 0, 2]) 5))
     = Some (raw_Send None [7, 9] (projr (NewRawTransport None [10, 0, 0, 1] (Some [10, 0, 0, 2]) 5)))
   \<and> raw_SendZeroCopy None \<lparr>sl_mem = [0, 0, 0, 0, 0, 0, 0, 0, 7, 9], sl_len = 9\<rparr> 0 9
       (projr (NewRawTransport None [10, 0, 0, 1] (Some [10, 0, 0, 2]) 5))
     = Some (raw_Send None [7] (projr (NewRawTransport None [10, 0, 0, 1] (Some [10, 0, 0, 2]) 5)))"
proof -
  let ?b = "\<lparr>sl_mem = [0, 0, 0, 0, 0, 0, 0, 0, 7, 9], sl_len = 9\<rparr>"
  have "wf_slice ?b" by (simp add: wf_slice_def)
  note zc = zero_copy_exact [OF this refl, THEN conjunct1]
  have "wrap64 (8 + 2) = 10" "wrap64 (0 + 9) = 9" by (simp_all add: wrap64_def)
  then show ?thesis
    using zc [of None 8 2 "projr (NewRawTransport None [10, 0, 0, 1] (Some [10, 0, 0, 2]) 5)"]
      zc [of None 0 9 "projr (NewRawTransport None [10, 0, 0, 1] (Some [10, 0, 0, 2]) 5)"]
    by (simp add: NewRawTransport_def)
qed

text \<open>
  C25. What the client transport hands up. Over any sequence of reads, the handler gets, in the order of
  arrival, exactly the non-empty payloads of the datagrams that come from the configured peer (from
  anyone when none is configured) and are GRE packets with the tunnel's key: a datagram of at most
  65535 bytes is such a packet with payload \<open>p\<close> exactly when it is a well-formed header with that key
  followed by \<open>p\<close>. The delivery counter counts them modulo 2^64.
\<close>

theorem raw_receives_exactly:
  assumes "\<not> rt_closed t" and "rt_handler t" and "rt_delivered t = []" and "rt_recvCount t = 0"
    and "t' = fst (raw_receiveLoop reads t)"
  shows "rt_delivered t' = concat (map (\<lambda>rd. case rd of
        Inl _ \<Rightarrow> []
      | Inr (addr, datagram) \<Rightarrow>
          if rt_remoteIP t = None \<or> ip_Equal addr (the (rt_remoteIP t))
          then (case gre_payload (rt_key t) datagram of
                  None \<Rightarrow> [] | Some p \<Rightarrow> if p = [] then [] else [p])
          else []) reads)
    \<and> (\<forall>datagram p. length datagram \<le> 65535 \<longrightarrow>
         (gre_payload (rt_key t) datagram = Some p \<longleftrightarrow>
          (\<exists>h. wf_header h \<and> h_Key h = rt_key t \<and> datagram = header_bytes h @ p)))
    \<and> rt_recvCount t' = of_nat (length (rt_delivered t'))"
proof (intro conjI)
  have "rt_delivered t' = List.map_filter (raw_accepts t) reads"
    using raw_fold_accepts [of reads "(t, raw_stats_init)"] assms(3,5) by (simp add: raw_receiveLoop_def)
  also have "\<dots> = concat (map (\<lambda>rd. case raw_accepts t rd of None \<Rightarrow> [] | Some p \<Rightarrow> [p]) reads)"
    by (induction reads) (auto simp: map_filter_def split: option.split)
  also have "\<dots> = concat (map (\<lambda>rd. case rd of
        Inl _ \<Rightarrow> []
      | Inr (addr, datagram) \<Rightarrow>
          if rt_remoteIP t = None \<or> ip_Equal addr (the (rt_remoteIP t))
          then (case gre_payload (rt_key t) datagram of
                  None \<Rightarrow> [] | Some p \<Rightarrow> if p = [] then [] else [p])
          else []) reads)"
    using assms(1,2)
    by (intro arg_cong [of _ _ concat] map_cong refl)
      (auto simp: raw_accepts_def split: sum.split option.split)
  finally show "rt_delivered t' = concat (map (\<lambda>rd. case rd of
        Inl _ \<Rightarrow> []
      | Inr (addr, datagram) \<Rightarrow>
          if rt_remoteIP t = None \<or> ip_Equal addr (the (rt_remoteIP t))
          then (case gre_payload (rt_key t) datagram of
                  None \<Rightarrow> [] | Some p \<Rightarrow> if p = [] then [] else [p])
          else []) reads)" .
  have "raw_counts (fold raw_receive reads (t, raw_stats_init))"
    by (rule fold_invariant, erule raw_counts_receive)
      (use assms(3,4) in \<open>simp add: raw_counts_def raw_stats_init_def\<close>)
  then show "rt_recvCount t' = of_nat (length (rt_delivered t'))"
    using assms(5) by (simp add: raw_counts_def raw_receiveLoop_def)
qed (use gre_payload_iff in blast)

theorem raw_receives_exactly_witness:
  "rt_delivered (fst (raw_receiveLoop
      [Inr ([10, 0, 0, 2], [0x20, 0, 0x65, 0x58, 0, 0, 0, 5, 7]),
       Inr ([10, 0, 0, 3], [0x20, 0, 0x65, 0x58, 0, 0, 0, 5, 8]),
       Inr ([10, 0, 0, 2], [0x20, 0, 0x65, 0x58, 0, 0, 0, 6, 9])]
      (SetReceiveHandler True (projr (NewRawTransport None [10, 0, 0, 1] (Some [10, 0, 0, 2]) 5)))))
   = [[7]]"
proof -
  let ?t = "SetReceiveHandler True (projr (NewRawTransport None [10, 0, 0, 1] (Some [10, 0, 0, 2]) 5))"
  have "\<not> rt_closed ?t" "rt_handler ?t" "rt_delivered ?t = []" "rt_recvCount ?t = 0"
    by (simp_all add: SetReceiveHandler_def NewRawTransport_def)
  moreover have "Packet_Marshal (NewPacket 5 [7]) = [0x20, 0, 0x65, 0x58, 0, 0, 0, 5, 7]"
    "Packet_Marshal (NewPacket 6 [9]) = [0x20, 0, 0x65, 0x58, 0, 0, 0, 6, 9]" by code_simp+
  then have "gre_payload 5 [0x20, 0, 0x65, 0x58, 0, 0, 0, 5, 7] = Some [7]"
    "gre_payload 5 [0x20, 0, 0x65, 0x58, 0, 0, 0, 6, 9] = None"
    using gre_payload_NewPacket [of "[7]" 5 5] gre_payload_NewPacket [of "[9]" 5 6] by simp_all
  moreover have "rt_remoteIP ?t = Some [10, 0, 0, 2]" "rt_key ?t = 5"
    by (simp_all add: SetReceiveHandler_def NewRawTransport_def)
  ultimately show ?thesis
    using \<open>gre_payload 5 _ = Some [7]\<close> \<open>gre_payload 5 _ = None\<close> raw_receives_exactly [OF _ _ _ _ refl, of ?t, THEN conjunct1] by (simp add: ip_Equal_def)
qed

text \<open>
  C24. Crossing the tunnel. What one transport sends, the other one hands up unchanged when the keys
  agree, and drops when they differ, in both directions: for a non-empty payload of at most 65527
  bytes, with both ends open and, at the client, the datagram coming from the configured peer.
\<close>

theorem tunnel_crossing:
  assumes "p \<noteq> []" and "length p \<le> 65527" and "\<not> rt_closed c" and "\<not> st_closed s"
    and "rt_handler c" and "st_handler s" and "rt_remoteIP c = Some ip" and "ip_Equal addr ip"
  shows "(\<exists>dg. rt_wire (snd (raw_Send None p c)) = rt_wire c @ [(Some ip, dg)]
        \<and> st_delivered (st_receive (Inr (a, dg)) s) =
            st_delivered s @ (if rt_key c = st_key s then [(a, p)] else []))
    \<and> (\<exists>dg. st_wire (snd (st_Send None a p s)) = st_wire s @ [(a, dg)]
        \<and> rt_delivered (fst (raw_receive (Inr (addr, dg)) (c, st))) =
            rt_delivered c @ (if st_key s = rt_key c then [p] else []))"
  using assms
  by (simp add: raw_Send_def st_Send_def Let_def st_receive_delivered raw_receive_delivered
      gre_payload_NewPacket)

theorem tunnel_crossing_witness:
  "\<exists>dg. rt_wire (snd (raw_Send None [7] (SetReceiveHandler True (projr (NewRawTransport None [10, 0, 0, 1] (Some [10, 0, 0, 2]) 5)))))
       = [(Some [10, 0, 0, 2], dg)]
     \<and> st_delivered (st_receive (Inr ([10, 0, 0, 1], dg))
          (st_SetReceiveHandler True (projr (NewServerTransport None [10, 0, 0, 2] 5)))) = [([10, 0, 0, 1], [7])]"
  using tunnel_crossing [of "[7]"
      "SetReceiveHandler True (projr (NewRawTransport None [10, 0, 0, 1] (Some [10, 0, 0, 2]) 5))"
      "st_SetReceiveHandler True (projr (NewServerTransport None [10, 0, 0, 2] 5))" "[10, 0, 0, 2]"
      "[10, 0, 0, 2]" "[10, 0, 0, 1]"]
  by (simp add: SetReceiveHandler_def NewRawTransport_def st_SetReceiveHandler_def
      NewServerTransport_def ip_Equal_def)

end
