(* ===== verification/ServerApp.thy ===== *)
theory ServerApp
  imports ServerStream RelManager Transport
begin

text \<open>
  The server, pkg/shadowgre/server.go: one \<open>clientState\<close> per client address, with a reliable manager
  and a table of backend streams; packets of the transport go through the manager to the streams, data
  of the backends through the manager to the transport. Stream objects live in a store \<open>cs_objs\<close>,
  since their goroutines keep them after the table has dropped them.
\<close>

section \<open>State\<close>

record clientState =
  cs_clientIP :: bytes
  cs_objs :: "serverStream list"
  cs_streams :: "(u32, nat) fmap"
  cs_reliable :: rmanager

record server =
  sv_localIP :: bytes
  sv_backendAddr :: string
  sv_key :: u32
  sv_transport :: "server_transport option"
  sv_clients :: "(string, clientState) fmap"
  sv_closed :: bool

definition NewServer :: "bytes \<Rightarrow> string \<Rightarrow> u32 \<Rightarrow> server" where
  "NewServer localIP backendAddr key =
     \<lparr>sv_localIP = localIP, sv_backendAddr = backendAddr, sv_key = key, sv_transport = None,
      sv_clients = fmempty, sv_closed = False\<rparr>"

text \<open>\<open>Start\<close>; the first argument is the error of \<open>ListenIP\<close>.\<close>

definition server_Start :: "go_error option \<Rightarrow> server \<Rightarrow> go_error option \<times> server" where
  "server_Start listen sv =
     (case NewServerTransport listen (sv_localIP sv) (sv_key sv) of
        Inl err \<Rightarrow> (Some err, sv)
      | Inr tr \<Rightarrow> (None, sv\<lparr>sv_transport := Some (st_SetReceiveHandler True tr)\<rparr>))"

section \<open>Streams of a client\<close>

definition new_client :: "bytes \<Rightarrow> clientState" where
  "new_client clientIP =
     \<lparr>cs_clientIP = clientIP, cs_objs = [], cs_streams = fmempty, cs_reliable = NewReliableManager\<rparr>"

definition upd_obj :: "nat \<Rightarrow> (serverStream \<Rightarrow> serverStream) \<Rightarrow> clientState \<Rightarrow> clientState" where
  "upd_obj a f cs = cs\<lparr>cs_objs := (cs_objs cs)[a := f (cs_objs cs ! a)]\<rparr>"

text \<open>\<open>createStream\<close>: the stream and, in its phase \<open>Dialing\<close>, the goroutine \<open>connectAndRun\<close>.\<close>

definition createStream :: "u32 \<Rightarrow> clientState \<Rightarrow> nat \<times> clientState" where
  "createStream sid cs = (length (cs_objs cs), cs\<lparr>cs_objs := cs_objs cs @ [new_stream sid]\<rparr>)"

text \<open>
  \<open>handleReliableData\<close>. All packets of the transport are handled by one goroutine, so no other one
  creates the stream between \<open>Load\<close> and \<open>LoadOrStore\<close>. \<open>sched\<close> gives the steps that the stream's
  goroutines take while the handler runs and while it waits.
\<close>

type_synonym schedule = "u32 \<Rightarrow> bytes \<Rightarrow> go_step list \<times> go_step list"

definition handleReliableData :: "schedule \<Rightarrow> u32 \<Rightarrow> bytes \<Rightarrow> clientState \<Rightarrow> clientState" where
  "handleReliableData sched sid data cs =
     (let (a, cs) =
        (case fmlookup (cs_streams cs) sid of
           Some a \<Rightarrow> (a, cs)
         | None \<Rightarrow>
             let (a, cs) = createStream sid cs
             in (a, cs\<lparr>cs_streams := fmupd sid a (cs_streams cs)\<rparr>));
          (race, wait) = sched sid data
      in upd_obj a (ss_handleData race wait data) cs)"

definition handleReliableClose :: "u32 \<Rightarrow> clientState \<Rightarrow> clientState" where
  "handleReliableClose sid cs =
     (case fmlookup (cs_streams cs) sid of
        None \<Rightarrow> cs
      | Some a \<Rightarrow> upd_obj a ss_handleClose cs)"

text \<open>The callbacks of the reliable manager, in the order in which \<open>Receive\<close> makes them.\<close>

fun cs_callback :: "schedule \<Rightarrow> app_event \<Rightarrow> clientState \<Rightarrow> clientState" where
  "cs_callback sched (OnData sid data) cs = handleReliableData sched sid data cs"
| "cs_callback sched (OnClose sid) cs = handleReliableClose sid cs"
| "cs_callback sched (Removed sid) cs = cs"

definition cs_Receive :: "env \<Rightarrow> schedule \<Rightarrow> bytes \<Rightarrow> clientState \<Rightarrow> clientState" where
  "cs_Receive e sched data cs =
     (let rm = snd (rm_Receive e data (cs_reliable cs));
          events = drop (length (rm_app (cs_reliable cs))) (rm_app rm)
      in fold (cs_callback sched) events (cs\<lparr>cs_reliable := rm\<rparr>))"

section \<open>Goroutines of a stream\<close>

text \<open>
  The steps that touch the stream only, and those that also use the tables: the end of a failed dial,
  the reads of \<open>readFromBackend\<close>, and the clean-up when reader and writer are done.
\<close>

definition dial_failed_cleanup :: "env \<Rightarrow> nat \<Rightarrow> clientState \<Rightarrow> clientState" where
  "dial_failed_cleanup e a cs =
     (let ss = cs_objs cs ! a
      in if ss_phase ss = DialFailed then
        let cs = cs\<lparr>cs_streams := fmdrop (ss_id ss) (cs_streams cs)\<rparr>;
            cs = cs\<lparr>cs_reliable := snd (rm_SendClose e (ss_id ss) (cs_reliable cs))\<rparr>
        in upd_obj a (\<lambda>ss. ss\<lparr>ss_phase := Returned\<rparr>) cs
      else cs)"

datatype read_result = ReadData bytes | ReadFailed

definition leave_reader :: "env \<Rightarrow> nat \<Rightarrow> clientState \<Rightarrow> clientState" where
  "leave_reader e a cs =
     (let cs = cs\<lparr>cs_reliable := snd (rm_SendClose e (ss_id (cs_objs cs ! a)) (cs_reliable cs))\<rparr>
      in upd_obj a reader_exit cs)"

definition maxReadSize :: nat where "maxReadSize = 1400"

text \<open>
  One iteration of \<open>readFromBackend\<close>: what \<open>Read\<close> returns, and the steps of others while \<open>Send\<close> waits
  for the window. A \<open>Send\<close> that does not return leaves the step undone.
\<close>

definition readFromBackend_step ::
  "env \<Rightarrow> (wake \<times> stream_op list) list \<Rightarrow> read_result \<Rightarrow> nat \<Rightarrow> clientState \<Rightarrow> clientState" where
  "readFromBackend_step e others r a cs =
     (if reader_active (cs_objs cs ! a) then
        case r of
          ReadFailed \<Rightarrow> leave_reader e a cs
        | ReadData d \<Rightarrow>
            let data = take maxReadSize d;
                cs' = upd_obj a (count_read data) cs
            in (case rm_Send e others (ss_id (cs_objs cs ! a)) data (cs_reliable cs') of
                  None \<Rightarrow> cs
                | Some (Some err, rm) \<Rightarrow> leave_reader e a (cs'\<lparr>cs_reliable := rm\<rparr>)
                | Some (None, rm) \<Rightarrow> cs'\<lparr>cs_reliable := rm\<rparr>)
      else cs)"

definition connectAndRun_cleanup :: "nat \<Rightarrow> clientState \<Rightarrow> clientState" where
  "connectAndRun_cleanup a cs =
     (let ss = cs_objs cs ! a
      in if ss_phase ss = Running True True then
        let cs = cs\<lparr>cs_streams := fmdrop (ss_id ss) (cs_streams cs),
                    cs_reliable := RemoveStream (ss_id ss) (cs_reliable cs)\<rparr>
        in upd_obj a (\<lambda>ss. ss\<lparr>ss_phase := Returned\<rparr>) cs
      else cs)"

datatype cs_op =
    CsReceive env schedule bytes
  | CsGo nat go_step
  | CsDialCleanup env nat
  | CsRead env "(wake \<times> stream_op list) list" read_result nat
  | CsCleanup nat
  | CsAckTimer u32
  | CsTick u32 env
  | CsLate nat stream_op

definition cs_step :: "cs_op \<Rightarrow> clientState \<Rightarrow> clientState" where
  "cs_step op cs =
     (case op of
        CsReceive e sched data \<Rightarrow> cs_Receive e sched data cs
      | CsGo a g \<Rightarrow> if a < length (cs_objs cs) then upd_obj a (go_run1 g) cs else cs
      | CsDialCleanup e a \<Rightarrow> if a < length (cs_objs cs) then dial_failed_cleanup e a cs else cs
      | CsRead e others r a \<Rightarrow>
          if a < length (cs_objs cs) then readFromBackend_step e others r a cs else cs
      | CsCleanup a \<Rightarrow> if a < length (cs_objs cs) then connectAndRun_cleanup a cs else cs
      | CsAckTimer sid \<Rightarrow> cs\<lparr>cs_reliable := rm_timer sid OpAckTimer (cs_reliable cs)\<rparr>
      | CsTick sid e \<Rightarrow> cs\<lparr>cs_reliable := rm_timer sid (OpTick e) (cs_reliable cs)\<rparr>
      | CsLate i sop \<Rightarrow> cs\<lparr>cs_reliable := rm_late i sop (cs_reliable cs)\<rparr>)"

section \<open>The server\<close>

text \<open>As above, the receive goroutine is the only caller: \<open>LoadOrStore\<close> always stores.\<close>

definition getOrCreateClient :: "bytes \<Rightarrow> server \<Rightarrow> clientState \<times> server" where
  "getOrCreateClient clientIP sv =
     (let clientKey = ip_String clientIP
      in case fmlookup (sv_clients sv) clientKey of
           Some cs \<Rightarrow> (cs, sv)
         | None \<Rightarrow>
             let cs = new_client clientIP
             in (cs, sv\<lparr>sv_clients := fmupd clientKey cs (sv_clients sv)\<rparr>))"

text \<open>
  What a client's manager hands to \<open>sendFunc\<close> goes to the transport, for the client's address; the
  result of the transport's \<open>Send\<close> is the environment's \<open>e_send\<close>.
\<close>

definition transmit :: "env \<Rightarrow> bytes \<Rightarrow> bytes list \<Rightarrow> server_transport \<Rightarrow> server_transport" where
  "transmit e clientIP bufs t = fold (\<lambda>b t. snd (st_Send (e_send e b) clientIP b t)) bufs t"

definition put_client :: "env \<Rightarrow> string \<Rightarrow> clientState \<Rightarrow> clientState \<Rightarrow> server \<Rightarrow> server" where
  "put_client e clientKey cs cs' sv =
     sv\<lparr>sv_clients := fmupd clientKey cs' (sv_clients sv),
        sv_transport := map_option
          (transmit e (cs_clientIP cs)
             (drop (length (rm_sent (cs_reliable cs))) (rm_sent (cs_reliable cs'))))
          (sv_transport sv)\<rparr>"

definition server_handleGREPacket :: "env \<Rightarrow> schedule \<Rightarrow> bytes \<Rightarrow> bytes \<Rightarrow> server \<Rightarrow> server" where
  "server_handleGREPacket e sched clientIP data sv =
     (let (cs, sv) = getOrCreateClient clientIP sv
      in put_client e (ip_String clientIP) cs (cs_Receive e sched data cs) sv)"

text \<open>\<open>receiveLoop\<close> with the server's handler installed: one read of the socket.\<close>

definition server_receive :: "env \<Rightarrow> schedule \<Rightarrow> ip_read \<Rightarrow> server \<Rightarrow> server" where
  "server_receive e sched rd sv =
     (case sv_transport sv of
        None \<Rightarrow> sv
      | Some t \<Rightarrow>
          let t' = st_receive rd t;
              calls = drop (length (st_delivered t)) (st_delivered t')
          in fold (\<lambda>(ip, payload). server_handleGREPacket e sched ip payload) calls
               (sv\<lparr>sv_transport := Some t'\<rparr>))"

definition close_client :: "(u32 fset \<Rightarrow> u32 list) \<Rightarrow> clientState \<Rightarrow> clientState" where
  "close_client iter cs =
     (let cs = cs\<lparr>cs_reliable := rm_Close (cs_reliable cs)\<rparr>
      in fold (\<lambda>sid cs. case fmlookup (cs_streams cs) sid of
                          None \<Rightarrow> cs | Some a \<Rightarrow> upd_obj a ss_close cs)
           (iter (fmdom (cs_streams cs))) cs)"

definition server_Close :: "(u32 fset \<Rightarrow> u32 list) \<Rightarrow> server \<Rightarrow> server" where
  "server_Close iter sv =
     (if sv_closed sv then sv
      else sv\<lparr>sv_closed := True, sv_clients := fmmap (close_client iter) (sv_clients sv),
              sv_transport := map_option st_Close (sv_transport sv)\<rparr>)"

datatype sv_op =
    SvReceive env schedule ip_read
  | SvClient env string cs_op
  | SvClose "u32 fset \<Rightarrow> u32 list"

definition sv_step :: "sv_op \<Rightarrow> server \<Rightarrow> server" where
  "sv_step op sv =
     (case op of
        SvReceive e sched rd \<Rightarrow> server_receive e sched rd sv
      | SvClient e clientKey cop \<Rightarrow>
          (case fmlookup (sv_clients sv) clientKey of
             None \<Rightarrow> sv
           | Some cs \<Rightarrow> put_client e clientKey cs (cs_step cop cs) sv)
      | SvClose iter \<Rightarrow> server_Close iter sv)"

definition sv_run :: "sv_op list \<Rightarrow> server \<Rightarrow> server" where
  "sv_run ops sv = fold sv_step ops sv"

section \<open>Invariant\<close>

lemma ss_id_close [simp]: "ss_id (ss_close ss) = ss_id ss"
  by (simp add: ss_close_def ss_closeWrite_def Let_def)

lemma ss_id_write: "backend_Write r data ss = (err, ss') \<Longrightarrow> ss_id ss' = ss_id ss"
  by (auto simp: backend_Write_def split: option.splits prod.splits)

lemma ss_id_small [simp]:
  "ss_id (add_bytesOut d ss) = ss_id ss" "ss_id (writer_done ss) = ss_id ss"
  "ss_id (count_read d ss) = ss_id ss" "ss_id (reader_exit ss) = ss_id ss"
  by (simp_all add: add_bytesOut_def writer_done_def count_read_def reader_exit_def Let_def)

lemma ss_id_drain [simp]: "ss_id (drain_list rs q ss) = ss_id ss"
proof (induction rs q ss rule: drain_list.induct)
  case (2 rs data q ss)
  obtain r rs' where n: "next_result rs = (r, rs')" by fastforce
  obtain err ss' where w: "backend_Write r data ss = (err, ss')" by fastforce
  from 2 [OF n [symmetric] refl w [symmetric] refl] ss_id_write [OF w] show ?case by (simp add: n w)
qed simp

lemma ss_id_go [simp]: "ss_id (go_run1 g ss) = ss_id ss"
proof (cases g)
  case (GoFlush r)
  then show ?thesis
    by (auto simp: flush_step_def split: run_phase.split list.split prod.split dest!: ss_id_write)
next
  case (GoWriter w rs)
  then show ?thesis
    by (auto simp: writeToBackend_step_def ss_drainAndShutdownWrite_def ss_drainWriteCh_def Let_def
        split: run_phase.split bool.split list.split prod.split writer_case.split dest!: ss_id_write)
qed (simp_all add: connect_ok_def take_pending_def connect_failed_def count_read_def reader_exit_def Let_def)

lemma ss_id_go_run [simp]: "ss_id (fold go_run1 gs ss) = ss_id ss"
  by (induction gs arbitrary: ss) simp_all

lemma ss_id_handlers [simp]:
  "ss_id (ss_handleData race wait data ss) = ss_id ss" "ss_id (ss_handleClose ss) = ss_id ss"
  by (simp_all add: ss_handleData_def accept_data_def ss_handleClose_def ss_closeWrite_def Let_def)

text \<open>
  The table refers to streams of the store under their own identifiers, and every stream of the store
  keeps the order of its data.
\<close>

definition cs_inv :: "clientState \<Rightarrow> bool" where
  "cs_inv cs \<longleftrightarrow> (\<forall>ss \<in> set (cs_objs cs). ss_inv ss)
     \<and> (\<forall>sid a. fmlookup (cs_streams cs) sid = Some a \<longrightarrow>
          a < length (cs_objs cs) \<and> ss_id (cs_objs cs ! a) = sid)"

definition clean_sched :: "schedule \<Rightarrow> bool" where
  "clean_sched sched \<longleftrightarrow>
     (\<forall>sid data. list_all clean (fst (sched sid data)) \<and> list_all clean (snd (sched sid data)))"

lemma cs_inv_new: "cs_inv (new_client ip)"
  by (simp add: cs_inv_def new_client_def)

lemma cs_inv_reliable [simp]: "cs_inv (cs\<lparr>cs_reliable := rm\<rparr>) = cs_inv cs"
  by (simp add: cs_inv_def)

lemma cs_invD: "cs_inv cs \<Longrightarrow> a < length (cs_objs cs) \<Longrightarrow> ss_inv (cs_objs cs ! a)"
  by (simp add: cs_inv_def)

lemma cs_inv_upd:
  assumes "cs_inv cs" and "a < length (cs_objs cs)" and "ss_inv (f (cs_objs cs ! a))"
    and "ss_id (f (cs_objs cs ! a)) = ss_id (cs_objs cs ! a)"
  shows "cs_inv (upd_obj a f cs)"
  using assms
  by (auto simp: cs_inv_def upd_obj_def nth_list_update dest!: set_update_subset_insert [THEN subsetD])

lemma cs_inv_drop: "cs_inv cs \<Longrightarrow> cs_inv (cs\<lparr>cs_streams := fmdrop sid (cs_streams cs)\<rparr>)"
  by (simp add: cs_inv_def)

lemma cs_inv_create:
  assumes "cs_inv cs"
  shows "cs_inv (cs\<lparr>cs_objs := cs_objs cs @ [new_stream sid],
                    cs_streams := fmupd sid (length (cs_objs cs)) (cs_streams cs)\<rparr>)"
proof -
  have "ss_id (new_stream sid) = sid" by (simp add: new_stream_def)
  with assms ss_inv_new show ?thesis by (fastforce simp: cs_inv_def nth_append split: if_splits)
qed

lemma cs_inv_handleData:
  assumes "cs_inv cs" and "clean_sched sched"
  shows "cs_inv (handleReliableData sched sid data cs)"
proof -
  obtain race wait where sc: "sched sid data = (race, wait)" by fastforce
  have cl: "list_all clean race" "list_all clean wait"
    using assms(2) sc by (metis clean_sched_def fst_conv snd_conv)+
  obtain a cs1 where g: "(case fmlookup (cs_streams cs) sid of Some a \<Rightarrow> (a, cs)
      | None \<Rightarrow> let (a, cs) = createStream sid cs in (a, cs\<lparr>cs_streams := fmupd sid a (cs_streams cs)\<rparr>)) = (a, cs1)"
    and "a < length (cs_objs cs1)" and "cs_inv cs1"
  proof (cases "fmlookup (cs_streams cs) sid")
    case None
    with cs_inv_create [OF assms(1), of sid] show ?thesis
      using that [of "length (cs_objs cs)" "cs\<lparr>cs_objs := cs_objs cs @ [new_stream sid],
          cs_streams := fmupd sid (length (cs_objs cs)) (cs_streams cs)\<rparr>"]
      by (simp add: createStream_def)
  next
    case (Some a)
    with assms(1) show ?thesis using that [of a cs] by (simp add: cs_inv_def)
  qed
  then have "cs_inv (upd_obj a (ss_handleData race wait data) cs1)"
    using cs_invD cl by (intro cs_inv_upd) (simp_all add: inv_handleData)
  with g sc show ?thesis by (simp add: handleReliableData_def)
qed

lemma cs_inv_handleClose: "cs_inv cs \<Longrightarrow> cs_inv (handleReliableClose sid cs)"
proof (cases "fmlookup (cs_streams cs) sid")
  case (Some a)
  assume inv: "cs_inv cs"
  with Some have "a < length (cs_objs cs)" by (simp add: cs_inv_def)
  with inv show ?thesis
    using cs_invD by (simp add: handleReliableClose_def Some cs_inv_upd inv_handleClose)
qed (simp add: handleReliableClose_def)

lemma cs_inv_callback: "cs_inv cs \<Longrightarrow> clean_sched sched \<Longrightarrow> cs_inv (cs_callback sched ev cs)"
  by (cases ev) (simp_all add: cs_inv_handleData cs_inv_handleClose)

lemma cs_inv_Receive:
  assumes "cs_inv cs" and "clean_sched sched"
  shows "cs_inv (cs_Receive e sched data cs)"
  unfolding cs_Receive_def Let_def
  by (rule fold_invariant) (simp_all add: assms cs_inv_callback)

lemma ss_inv_returned: "ss_inv ss \<Longrightarrow> ss_phase ss = DialFailed \<or> ss_phase ss = Running True True \<Longrightarrow>
    ss_inv (ss\<lparr>ss_phase := Returned\<rparr>)"
  by (auto simp: ss_inv_def ss_control_def ss_queued_def flushing_def)

lemma cs_inv_leave:
  assumes "cs_inv cs" and "a < length (cs_objs cs)" and "reader_active (cs_objs cs ! a)"
  shows "cs_inv (leave_reader e a cs)"
  unfolding leave_reader_def Let_def
  using assms cs_invD [OF assms(1,2)]
  by (intro cs_inv_upd) (simp_all add: inv_reader_exit)

lemma cs_inv_read:
  assumes "cs_inv cs" and "a < length (cs_objs cs)"
  shows "cs_inv (readFromBackend_step e others r a cs)"
proof -
  have upd: "cs_inv (upd_obj a (count_read d) cs)" for d
    using assms cs_invD [OF assms] by (intro cs_inv_upd) (simp_all add: inv_count_read)
  have "reader_active (cs_objs (upd_obj a (count_read d) cs) ! a) = reader_active (cs_objs cs ! a)" for d
    using assms(2) by (simp add: upd_obj_def reader_active_def count_read_def)
  then have "cs_inv (leave_reader e a (upd_obj a (count_read d) cs\<lparr>cs_reliable := rm\<rparr>))"
    if "reader_active (cs_objs cs ! a)" for d rm
    using that assms(2) upd by (intro cs_inv_leave) (simp_all add: upd_obj_def)
  with upd assms cs_inv_leave [OF assms] show ?thesis
    by (auto simp: readFromBackend_step_def Let_def split: read_result.split option.split)
qed

fun clean_cs :: "cs_op \<Rightarrow> bool" where
  "clean_cs (CsReceive e sched data) = clean_sched sched"
| "clean_cs (CsGo a g) = clean g"
| "clean_cs _ = True"

lemma cs_inv_step:
  assumes "cs_inv cs" and "clean_cs op"
  shows "cs_inv (cs_step op cs)"
proof -
  have go: "cs_inv (upd_obj a (go_run1 g) cs)" if "a < length (cs_objs cs)" "clean g" for a g
    using that assms(1) cs_invD [OF assms(1)] by (intro cs_inv_upd) (simp_all add: inv_go_run1)
  have fin: "cs_inv (upd_obj a (\<lambda>ss. ss\<lparr>ss_phase := Returned\<rparr>)
      (cs\<lparr>cs_streams := fmdrop sid (cs_streams cs), cs_reliable := rm\<rparr>))"
    if "a < length (cs_objs cs)" "ss_phase (cs_objs cs ! a) = DialFailed \<or> ss_phase (cs_objs cs ! a) = Running True True"
    for a sid rm
    using that cs_inv_drop [OF assms(1), of sid] cs_invD [OF assms(1) that(1)]
    by (intro cs_inv_upd) (simp_all add: ss_inv_returned)
  show ?thesis
    using assms go fin cs_inv_read [OF assms(1)]
    by (cases op) (auto simp: cs_step_def cs_inv_Receive dial_failed_cleanup_def connectAndRun_cleanup_def Let_def)
qed

section \<open>The server's clients\<close>

lemma ip_upd_obj [simp]: "cs_clientIP (upd_obj a f cs) = cs_clientIP cs"
  by (simp add: upd_obj_def)

lemma ip_callback: "cs_clientIP (cs_callback sched ev cs) = cs_clientIP cs"
  by (cases ev) (auto simp: handleReliableData_def handleReliableClose_def createStream_def Let_def
      split: option.split prod.split)

lemma ip_cs_Receive [simp]: "cs_clientIP (cs_Receive e sched data cs) = cs_clientIP cs"
  unfolding cs_Receive_def Let_def
  by (subst fold_keeps [of cs_clientIP]) (simp_all add: ip_callback)

lemma ip_cs_step [simp]: "cs_clientIP (cs_step op cs) = cs_clientIP cs"
  by (cases op) (auto simp: cs_step_def dial_failed_cleanup_def connectAndRun_cleanup_def leave_reader_def
      readFromBackend_step_def Let_def split: read_result.split option.split)

lemma close_client_loop:
  "cs_inv cs \<Longrightarrow> cs_inv (case fmlookup (cs_streams cs) sid of None \<Rightarrow> cs | Some a \<Rightarrow> upd_obj a ss_close cs)"
proof (cases "fmlookup (cs_streams cs) sid")
  case (Some a)
  assume inv: "cs_inv cs"
  with Some have "a < length (cs_objs cs)" by (simp add: cs_inv_def)
  with inv Some show ?thesis using cs_invD by (simp add: cs_inv_upd inv_ss_close)
qed simp

lemma cs_inv_close_client: "cs_inv cs \<Longrightarrow> cs_inv (close_client iter cs)"
  unfolding close_client_def Let_def by (rule fold_invariant) (simp_all add: close_client_loop)

lemma ip_close_client [simp]: "cs_clientIP (close_client iter cs) = cs_clientIP cs"
proof -
  have "cs_clientIP (fold (\<lambda>sid cs. case fmlookup (cs_streams cs) sid of
      None \<Rightarrow> cs | Some a \<Rightarrow> upd_obj a ss_close cs) sids x) = cs_clientIP x" for sids x
    by (rule fold_keeps) (simp split: option.split)
  then show ?thesis by (simp add: close_client_def)
qed

definition sv_inv :: "server \<Rightarrow> bool" where
  "sv_inv sv \<longleftrightarrow> (\<forall>k cs. fmlookup (sv_clients sv) k = Some cs \<longrightarrow>
     cs_inv cs \<and> ip_String (cs_clientIP cs) = k)"

lemma sv_inv_start: "sv_inv (snd (server_Start listen (NewServer ip addr key)))"
  by (simp add: sv_inv_def server_Start_def NewServer_def split: sum.split)

lemma sv_inv_transport [simp]: "sv_inv (sv\<lparr>sv_transport := t\<rparr>) = sv_inv sv"
  by (simp add: sv_inv_def)

lemma sv_inv_put:
  "sv_inv sv \<Longrightarrow> cs_inv cs' \<Longrightarrow> ip_String (cs_clientIP cs') = k \<Longrightarrow> sv_inv (put_client e k cs cs' sv)"
  by (simp add: sv_inv_def put_client_def)

lemma getOrCreateClient_inv:
  assumes "sv_inv sv" and "getOrCreateClient ip sv = (cs, sv')"
  shows "cs_inv cs \<and> ip_String (cs_clientIP cs) = ip_String ip \<and> sv_inv sv'"
  using assms cs_inv_new [of ip]
  by (auto simp: getOrCreateClient_def sv_inv_def Let_def new_client_def split: option.splits if_split_asm)

lemma sv_inv_packet:
  assumes "sv_inv sv" and "clean_sched sched"
  shows "sv_inv (server_handleGREPacket e sched ip data sv)"
proof -
  obtain cs sv' where g: "getOrCreateClient ip sv = (cs, sv')" by fastforce
  from getOrCreateClient_inv [OF assms(1) g] assms(2) show ?thesis
    by (simp add: server_handleGREPacket_def g sv_inv_put cs_inv_Receive)
qed

lemma sv_inv_receive:
  assumes "sv_inv sv" and "clean_sched sched"
  shows "sv_inv (server_receive e sched rd sv)"
proof (cases "sv_transport sv")
  case (Some t)
  have "sv_inv (fold (\<lambda>(ip, payload). server_handleGREPacket e sched ip payload) calls
      (sv\<lparr>sv_transport := Some t'\<rparr>))" for calls t'
    by (rule fold_invariant) (auto simp: assms sv_inv_packet split: prod.split)
  with Some show ?thesis by (simp add: server_receive_def Let_def)
qed (use assms in \<open>simp add: server_receive_def\<close>)

fun clean_sv :: "sv_op \<Rightarrow> bool" where
  "clean_sv (SvReceive e sched rd) = clean_sched sched"
| "clean_sv (SvClient e k op) = clean_cs op"
| "clean_sv (SvClose iter) = True"

lemma sv_inv_step:
  assumes "sv_inv sv" and "clean_sv op"
  shows "sv_inv (sv_step op sv)"
proof (cases op)
  case (SvClient e k cop)
  with assms cs_inv_step show ?thesis
    by (auto simp: sv_step_def sv_inv_def put_client_def split: option.split)
next
  case (SvClose iter)
  with assms(1) show ?thesis
    by (auto simp: sv_step_def sv_inv_def server_Close_def cs_inv_close_client)
qed (use assms in \<open>simp add: sv_step_def sv_inv_receive\<close>)

lemma sv_inv_run: "sv_inv sv \<Longrightarrow> list_all clean_sv ops \<Longrightarrow> sv_inv (sv_run ops sv)"
  unfolding sv_run_def by (rule fold_invariant) (auto simp: list_all_iff sv_inv_step)

section \<open>Addresses\<close>

text \<open>
  Whatever fails and however the steps interleave: a client is stored under the key of its own address. The
  socket is an \<open>ip4\<close> socket, so the datagrams that it delivers come from IPv4 addresses.
\<close>

fun v4_source :: "sv_op \<Rightarrow> bool" where
  "v4_source (SvReceive e sched (Inr (addr, datagram))) = (To4 addr \<noteq> [])"
| "v4_source _ = True"

definition sv_addressed :: "server \<Rightarrow> bool" where
  "sv_addressed sv \<longleftrightarrow> (\<forall>k cs. fmlookup (sv_clients sv) k = Some cs \<longrightarrow>
     ip_String (cs_clientIP cs) = k \<and> To4 (cs_clientIP cs) \<noteq> [])"

lemma getOrCreateClient_addressed:
  assumes "sv_addressed sv" and "To4 ip \<noteq> []" and "getOrCreateClient ip sv = (cs, sv')"
  shows "ip_String (cs_clientIP cs) = ip_String ip \<and> To4 (cs_clientIP cs) \<noteq> [] \<and> sv_addressed sv'"
  using assms
  by (auto simp: getOrCreateClient_def sv_addressed_def Let_def new_client_def split: option.splits if_split_asm)

lemma packet_addressed:
  assumes "sv_addressed sv" and "To4 ip \<noteq> []"
  shows "sv_addressed (server_handleGREPacket e sched ip data sv)"
proof -
  obtain cs sv' where g: "getOrCreateClient ip sv = (cs, sv')" by fastforce
  from getOrCreateClient_addressed [OF assms g] show ?thesis
    by (simp add: server_handleGREPacket_def g put_client_def sv_addressed_def)
qed

lemma receive_addressed:
  assumes "sv_addressed sv" and "v4_source (SvReceive e sched rd)"
  shows "sv_addressed (server_receive e sched rd sv)"
proof (cases "sv_transport sv")
  case (Some t)
  let ?calls = "drop (length (st_delivered t)) (st_delivered (st_receive rd t))"
  let ?sv = "sv\<lparr>sv_transport := Some (st_receive rd t)\<rparr>"
  have calls: "\<forall>c \<in> set ?calls. To4 (fst c) \<noteq> []"
    using assms(2) by (cases rd) (auto simp: st_receive_delivered split: option.split)
  have "sv_addressed ?sv" using assms(1) by (simp add: sv_addressed_def)
  then have "sv_addressed (fold (\<lambda>(ip, payload). server_handleGREPacket e sched ip payload) ?calls ?sv)"
    by (rule fold_invariant [rotated]) (use calls in \<open>simp add: packet_addressed split_beta\<close>)
  with Some show ?thesis by (simp add: server_receive_def Let_def)
qed (use assms in \<open>simp add: server_receive_def\<close>)

lemma step_addressed: "sv_addressed sv \<Longrightarrow> v4_source op \<Longrightarrow> sv_addressed (sv_step op sv)"
proof (cases op)
  case (SvClient e k cop)
  assume "sv_addressed sv"
  with SvClient show ?thesis by (auto simp: sv_step_def sv_addressed_def put_client_def split: option.split)
next
  case (SvClose iter)
  assume "sv_addressed sv"
  with SvClose show ?thesis by (auto simp: sv_step_def sv_addressed_def server_Close_def)
qed (simp add: sv_step_def receive_addressed)

lemma run_addressed:
  assumes "list_all v4_source ops"
  shows "sv_addressed (sv_run ops (snd (server_Start listen (NewServer ip addr key))))"
proof -
  have "sv_addressed (snd (server_Start listen (NewServer ip addr key)))"
    by (simp add: sv_addressed_def server_Start_def NewServer_def split: sum.split)
  then show ?thesis
    unfolding sv_run_def
    by (rule fold_invariant [rotated]) (use assms in \<open>auto simp: list_all_iff step_addressed\<close>)
qed

section \<open>From the socket to the stream\<close>

interpretation greRel: encapsulation Packet_Marshal UnmarshalPacket wf_packet
    Marshal UnmarshalReliable wf_rpacket "NewPacket key" p_Payload for key
  by unfold_locales (simp_all add: NewPacket_fields)

text \<open>The first packet of a stream is delivered at once.\<close>

lemma delivered_at_start:
  assumes "rp_Flags pkt = FlagData" and "rp_Data pkt \<noteq> []" and "rp_Seq pkt = 0"
  shows "deliveredLog (snd (Receive e pkt (NewReliableStream sid))) = [rp_Data pkt]"
proof -
  let ?rs = "after_ack e pkt (NewReliableStream sid)"
  have v: "recvNext ?rs = 0" "outOfOrder ?rs = fmempty" "deliveredLog ?rs = []"
    using recv_view_after_ack [of e pkt "NewReliableStream sid"]
    by (simp_all add: recv_view_def NewReliableStream_def)
  let ?new = "(deliver (rp_Data pkt) ?rs)\<lparr>recvNext := recvNext ?rs + 1\<rparr>"
  have idle: "deliverOutOfOrder ?new = ?new"
    using v by (subst deliverOutOfOrder.simps) (simp add: deliver_def)
  have "snd (Receive e pkt (NewReliableStream sid)) = processData e 0 (rp_Data pkt) ?rs"
    using assms by (simp add: Receive_stages after_data_def carries_data_def flag_defs)
  also have "\<dots> = scheduleAck e ?new"
    using v(1) unfolding processData_def Let_def idle by simp
  finally show ?thesis
    using v(3) delivered_view [OF recv_view_acks(1)] by (simp add: deliver_def)
qed

lemma rm_Receive_first:
  assumes "UnmarshalReliable data = Inr pkt" and "rp_Flags pkt = FlagData" and "rp_Data pkt \<noteq> []"
    and "rp_Seq pkt = 0" and "fmlookup (rm_streams rm) (rp_StreamID pkt) = None"
  shows "rm_app (snd (rm_Receive e data rm)) = rm_app rm @ [OnData (rp_StreamID pkt) (rp_Data pkt)]"
proof -
  obtain c rs' where r: "Receive e pkt (NewReliableStream (rp_StreamID pkt)) = (c, rs')" by fastforce
  have "\<not> c" using r assms(2) by (auto simp: Receive_stages flag_defs split: if_splits)
  moreover have "deliveredLog rs' = [rp_Data pkt]"
    using delivered_at_start [OF assms(2-4), of e "rp_StreamID pkt"] r by simp
  ultimately show ?thesis
    using assms(1,5) r
    by (simp add: rm_Receive_def GetOrCreateStream_def rm_call_def Let_def) (simp add: NewReliableStream_def)
qed

text \<open>Data for an unknown stream creates the stream; while its dial is under way, the data is pending.\<close>

lemma handleReliableData_new:
  assumes "fmlookup (cs_streams cs) sid = None" and "data \<noteq> []" and "sched sid data = ([], [])"
  shows "handleReliableData sched sid data cs =
    cs\<lparr>cs_streams := fmupd sid (length (cs_objs cs)) (cs_streams cs),
       cs_objs := cs_objs cs @ [(new_stream sid)\<lparr>ss_pendingData := [data], ss_accepted := data\<rparr>]\<rparr>"
  using assms
  by (simp add: handleReliableData_def createStream_def upd_obj_def)
    (simp add: ss_handleData_pending new_stream_def)

text \<open>A stream that the manager creates for a \<open>Send\<close> numbers its data from zero.\<close>

lemma Send_fresh:
  "Send e [] data (NewReliableStream sid) =
     Some (Send_commit e 0 data ((NewReliableStream sid)\<lparr>sendSeq := 1\<rparr>))"
  by (simp add: Send_def Send_alloc_def window_open_def NewReliableStream_def InitialCwnd_def)

lemma fresh_packet:
  "data_packet e 0 data ((NewReliableStream sid)\<lparr>sendSeq := 1\<rparr>) =
     \<lparr>rp_StreamID = sid, rp_Flags = FlagData, rp_Seq = 0, rp_Ack = 0, rp_SackBlocks = [], rp_Data = data\<rparr>"
  by (simp add: data_packet_def NewReliableStream_def)

lemma rm_Send_fresh:
  assumes "fmlookup (rm_streams rm) sid = None"
  shows "\<exists>rm' buf. rm_Send e [] sid data rm = Some (e_send e buf, rm') \<and> rm_sent rm' = rm_sent rm @ [buf]
    \<and> UnmarshalReliable buf = Inr \<lparr>rp_StreamID = sid, rp_Flags = FlagData, rp_Seq = 0, rp_Ack = 0,
                                  rp_SackBlocks = [], rp_Data = data\<rparr>"
proof -
  let ?new = "(NewReliableStream sid)\<lparr>sendSeq := 1\<rparr>"
  let ?pkt = "data_packet e 0 data ?new"
  have sent: "sentLog (snd (Send_commit e 0 data ?new)) = [Marshal ?pkt]"
    by (simp add: Send_commit_sent) (simp add: NewReliableStream_def)
  have res: "fst (Send_commit e 0 data ?new) = e_send e (Marshal ?pkt)"
    by (simp add: Send_commit_def Let_def pace_def NewReliableStream_def NewRTTEstimator_def SRTT_def)
  have "rm_Send e [] sid data rm = Some (e_send e (Marshal ?pkt),
      rm_call sid (NewReliableStream sid) (snd (Send_commit e 0 data ?new))
        (rm\<lparr>rm_streams := fmupd sid (NewReliableStream sid) (rm_streams rm)\<rparr>))"
    using assms res
    by (cases "Send_commit e 0 data ?new")
      (simp add: rm_Send_def GetOrCreateStream_def run_others_def Let_def Send_fresh)
  moreover have "sentLog (NewReliableStream sid) = []" by (simp add: NewReliableStream_def)
  ultimately show ?thesis
    using rpkt.decode_encode [OF wf_data_packet, of e 0 data ?new] sent fresh_packet [of e data sid]
    by (simp add: rm_call_def)
qed

text \<open>A receiver that is past position zero takes a packet with sequence number zero for a duplicate.\<close>

lemma duplicate_zero:
  assumes "0 < recvNext rs" and "recvNext rs < 2 ^ 31" and "rp_Flags pkt = FlagData" and "rp_Seq pkt = 0"
  shows "deliveredLog (snd (Receive e pkt rs)) = deliveredLog rs"
proof -
  have next_same: "recvNext (after_ack e pkt rs) = recvNext rs" "deliveredLog (after_ack e pkt rs) = deliveredLog rs"
    using recv_view_after_ack [of e pkt rs] by (simp_all add: recv_view_def)
  have "uint (recvNext rs) < 2 ^ 31" using assms(2) by (simp add: word_less_def)
  then have "\<not> seqGreater 0 (recvNext rs)"
    using sint_of_nat_diff [of 0 "unat (recvNext rs)"] by (simp add: seqGreater_def)
  moreover have "recvNext rs \<noteq> 0" using assms(1) by auto
  ultimately have "deliveredLog (processData e 0 (rp_Data pkt) (after_ack e pkt rs)) = deliveredLog rs"
    using next_same delivered_view [OF recv_view_ops(8)] by (auto simp: processData_def Let_def)
  with assms(3,4) next_same show ?thesis
    by (simp add: Receive_stages after_data_def flag_defs)
qed

lemma first_packet_stream:
  assumes "sv_transport sv = Some t" and "\<not> st_closed t" and "st_handler t"
    and "fmlookup (sv_clients sv) (ip_String ip) = None" and "data \<noteq> []" and "length data \<le> 1400"
    and "pkt = \<lparr>rp_StreamID = sid, rp_Flags = FlagData, rp_Seq = 0, rp_Ack = 0, rp_SackBlocks = [], rp_Data = data\<rparr>"
    and "sched sid data = ([], [])"
    and "sv' = server_receive e sched (Inr (ip, Packet_Marshal (NewPacket (st_key t) (Marshal pkt)))) sv"
  shows "\<exists>cs. fmlookup (sv_clients sv') (ip_String ip) = Some cs \<and> cs_clientIP cs = ip
    \<and> fmlookup (cs_streams cs) sid = Some 0
    \<and> cs_objs cs = [(new_stream sid)\<lparr>ss_pendingData := [data], ss_accepted := data\<rparr>]"
proof -
  have wf: "wf_rpacket pkt" using assms(7) by (simp add: wf_rpacket_def flag_defs)
  have dec: "UnmarshalReliable (Marshal pkt) = Inr pkt" using wf by (rule rpkt.decode_encode)
  have len: "Marshal pkt \<noteq> []" "length (Marshal pkt) \<le> 65527"
    using assms(5-7) by (simp_all add: Marshal_eq length_rheader_bytes HeaderSize_def size_defs flag_defs)
  let ?dg = "Packet_Marshal (NewPacket (st_key t) (Marshal pkt))"
  let ?t = "st_receive (Inr (ip, ?dg)) t"
  have calls: "st_delivered ?t = st_delivered t @ [(ip, Marshal pkt)]"
    using assms(2,3) len by (simp add: st_receive_delivered gre_payload_NewPacket)
  let ?cs = "new_client ip"
  let ?rm = "snd (rm_Receive e (Marshal pkt) NewReliableManager)"
  have app: "rm_app ?rm = [OnData sid data]"
    using rm_Receive_first [OF dec, of NewReliableManager e] assms(5,7)
    by (simp add: NewReliableManager_def)
  have "cs_Receive e sched (Marshal pkt) ?cs =
      ?cs\<lparr>cs_reliable := ?rm, cs_streams := fmupd sid 0 fmempty,
          cs_objs := [(new_stream sid)\<lparr>ss_pendingData := [data], ss_accepted := data\<rparr>]\<rparr>"
    using app assms(5,8) handleReliableData_new [of "?cs\<lparr>cs_reliable := ?rm\<rparr>" sid data sched]
    by (simp add: cs_Receive_def Let_def) (simp add: new_client_def NewReliableManager_def)
  with assms(1,4) calls show ?thesis
    unfolding assms(9)
    by (simp add: server_receive_def server_handleGREPacket_def getOrCreateClient_def put_client_def Let_def
        new_client_def)
qed

section \<open>Properties\<close>

text \<open>A started server and a first datagram for it, for the concrete instances below.\<close>

definition sample_server :: server where
  "sample_server = snd (server_Start None (NewServer [10, 0, 0, 2] ''127.0.0.1:80'' 5))"

definition sample_datagram :: bytes where
  "sample_datagram = Packet_Marshal (NewPacket 5 (Marshal
     \<lparr>rp_StreamID = 2, rp_Flags = FlagData, rp_Seq = 0, rp_Ack = 0, rp_SackBlocks = [], rp_Data = [77]\<rparr>))"

abbreviation idle :: schedule where
  "idle \<equiv> (\<lambda>_ _. ([], []))"

lemma sample_transport:
  "\<exists>t. sv_transport sample_server = Some t \<and> \<not> st_closed t \<and> st_handler t \<and> st_key t = 5"
  by (simp add: sample_server_def server_Start_def NewServer_def NewServerTransport_def st_SetReceiveHandler_def)

lemma sample_no_client: "fmlookup (sv_clients sample_server) k = None"
  by (simp add: sample_server_def server_Start_def NewServer_def NewServerTransport_def)

definition sample_state :: server where
  "sample_state = server_receive (env_at 0) idle (Inr ([10, 0, 0, 1], sample_datagram)) sample_server"

lemma sample_stream:
  "\<exists>cs. fmlookup (sv_clients sample_state) (ip_String [10, 0, 0, 1]) = Some cs \<and> cs_objs cs \<noteq> []"
proof -
  obtain t where t: "sv_transport sample_server = Some t" "\<not> st_closed t" "st_handler t" "st_key t = 5"
    using sample_transport by blast
  from first_packet_stream [OF t(1-3) sample_no_client [of "ip_String [10, 0, 0, 1]"] _ _ refl _ refl,
      of "[77]" idle 2 "env_at 0"] t(4)
  show ?thesis by (auto simp: sample_state_def sample_datagram_def)
qed

lemma sample_state_transport: "\<exists>t. sv_transport sample_state = Some t \<and> \<not> st_closed t"
proof -
  have keeps: "st_closed (transmit e ip bufs t) = st_closed t" for e ip bufs t
    by (induction bufs arbitrary: t) (simp_all add: transmit_def st_Send_def Let_def)
  have packet: "\<exists>t. sv_transport (server_handleGREPacket e sched ip p sv) = Some t \<and> \<not> st_closed t"
    if "\<exists>t. sv_transport sv = Some t \<and> \<not> st_closed t" for e sched ip p sv
  proof -
    obtain cs sv1 where g: "getOrCreateClient ip sv = (cs, sv1)" by fastforce
    then have "sv_transport sv1 = sv_transport sv"
      by (auto simp: getOrCreateClient_def Let_def split: option.splits)
    with that show ?thesis by (auto simp: server_handleGREPacket_def g put_client_def keeps)
  qed
  obtain t where t: "sv_transport sample_server = Some t" "\<not> st_closed t" using sample_transport by blast
  let ?open = "\<lambda>sv. \<exists>t. sv_transport sv = Some t \<and> \<not> st_closed t"
  have "?open (fold (\<lambda>(ip, p). server_handleGREPacket e sched ip p) calls
      (sample_server\<lparr>sv_transport := Some (st_receive rd t)\<rparr>))" for e sched calls rd
    by (rule fold_invariant [of _ ?open]) (use t(2) packet in \<open>auto simp: split_beta\<close>)
  then show ?thesis by (simp add: sample_state_def server_receive_def t(1) Let_def)
qed

text \<open>
  C17. The server as a whole. After any sequence of datagrams, goroutine steps and closing in which no write fails
  while a writer drains its queue (\<open>clean_sv\<close>), every client's table refers to streams under their own
  identifiers, the client is stored under the key of its own address, and on every stream the backend received
  a prefix of the bytes accepted for it, in order.
\<close>

theorem server_invariant:
  assumes "list_all clean_sv ops" and "sv = sv_run ops (snd (server_Start listen (NewServer ip addr key)))"
    and "fmlookup (sv_clients sv) k = Some cs"
  shows "ip_String (cs_clientIP cs) = k
    \<and> (\<forall>sid a. fmlookup (cs_streams cs) sid = Some a \<longrightarrow>
         a < length (cs_objs cs) \<and> ss_id (cs_objs cs ! a) = sid)
    \<and> (\<forall>ss \<in> set (cs_objs cs). prefix (ss_out ss) (ss_accepted ss))"
proof -
  have "sv_inv sv" using sv_inv_run [OF sv_inv_start assms(1)] assms(2) by simp
  with assms(3) have "cs_inv cs" "ip_String (cs_clientIP cs) = k" by (auto simp: sv_inv_def)
  then show ?thesis by (auto simp: cs_inv_def ss_inv_def dest: flow_prefix)
qed

theorem server_invariant_witness:
  "\<exists>cs. fmlookup (sv_clients (sv_run [SvReceive (env_at 0) idle (Inr ([10, 0, 0, 1], sample_datagram))]
        (snd (server_Start None (NewServer [10, 0, 0, 2] ''127.0.0.1:80'' 5))))) (ip_String [10, 0, 0, 1]) = Some cs
     \<and> cs_objs cs \<noteq> [] \<and> (\<forall>ss \<in> set (cs_objs cs). prefix (ss_out ss) (ss_accepted ss))"
proof -
  let ?ops = "[SvReceive (env_at 0) idle (Inr ([10, 0, 0, 1], sample_datagram))]"
  have "list_all clean_sv ?ops" by (simp add: clean_sched_def)
  note inv = server_invariant [OF this refl, of None "[10, 0, 0, 2]" "''127.0.0.1:80''" 5 "ip_String [10, 0, 0, 1]"]
  have "sv_run ?ops (snd (server_Start None (NewServer [10, 0, 0, 2] ''127.0.0.1:80'' 5))) = sample_state"
    by (simp add: sv_run_def sv_step_def sample_state_def sample_server_def)
  with sample_stream inv show ?thesis by auto
qed

text \<open>
  C19. Clients do not see each other. In every state that a started server reaches with datagrams from IPv4
  addresses, whatever fails on the way: handling a packet from an address leaves the state of every client
  with another key as it is, and everything that the server transmits while it handles the packet goes to the
  address that the packet came from, as GRE packets with the tunnel's key.
\<close>

theorem server_isolation:
  assumes "list_all v4_source ops" and "sv = sv_run ops (snd (server_Start listen (NewServer lip addr key)))"
    and "sv_transport sv = Some t" and "\<not> st_closed t" and "To4 ip \<noteq> []"
    and "sv' = server_handleGREPacket e sched ip data sv"
  shows "(\<forall>k. k \<noteq> ip_String ip \<longrightarrow> fmlookup (sv_clients sv') k = fmlookup (sv_clients sv) k)
    \<and> (\<exists>t' dest bufs. sv_transport sv' = Some t' \<and> ip_Equal dest ip
         \<and> st_wire t' = st_wire t @ map (\<lambda>b. (dest, Packet_Marshal (NewPacket (st_key t) b))) bufs)"
proof -
  obtain cs sv1 where g: "getOrCreateClient ip sv = (cs, sv1)" by fastforce
  have sv1: "sv_transport sv1 = sv_transport sv"
    "k \<noteq> ip_String ip \<Longrightarrow> fmlookup (sv_clients sv1) k = fmlookup (sv_clients sv) k" for k
    using g by (auto simp: getOrCreateClient_def Let_def split: option.splits)
  have "sv_addressed sv" unfolding assms(2) using assms(1) by (rule run_addressed)
  from getOrCreateClient_addressed [OF this assms(5) g] have dest: "ip_Equal (cs_clientIP cs) ip"
    using client_key_injective [of "cs_clientIP cs" ip] assms(5) by simp
  have wire: "st_wire (transmit e ip' bufs t) = st_wire t @ map (\<lambda>b. (ip', Packet_Marshal (NewPacket (st_key t) b))) bufs"
    for ip' bufs
    using assms(4)
  proof (induction bufs arbitrary: t)
    case (Cons b bufs)
    then show ?case by (simp add: transmit_def st_Send_def Let_def)
  qed (simp add: transmit_def)
  show ?thesis
    using assms(3) sv1 dest unfolding assms(6) server_handleGREPacket_def g
    by (auto simp: put_client_def wire)
qed

theorem server_isolation_witness:
  "fmlookup (sv_clients (server_handleGREPacket (env_at 0) idle [10, 0, 0, 1] [1] sample_state)) ''10.0.0.9''
     = fmlookup (sv_clients sample_state) ''10.0.0.9''"
proof -
  let ?ops = "[SvReceive (env_at 0) idle (Inr ([10, 0, 0, 1], sample_datagram))]"
  have v4: "list_all v4_source ?ops" "To4 [10, 0, 0, 1] \<noteq> []" by (simp_all add: To4_def)
  have run: "sample_state = sv_run ?ops (snd (server_Start None (NewServer [10, 0, 0, 2] ''127.0.0.1:80'' 5)))"
    by (simp add: sv_run_def sv_step_def sample_state_def sample_server_def)
  obtain t where "sv_transport sample_state = Some t" "\<not> st_closed t" using sample_state_transport by blast
  from server_isolation [OF v4(1) run this v4(2) refl, THEN conjunct1]
  have "\<forall>k. k \<noteq> ip_String [10, 0, 0, 1] \<longrightarrow>
      fmlookup (sv_clients (server_handleGREPacket (env_at 0) idle [10, 0, 0, 1] [1] sample_state)) k
        = fmlookup (sv_clients sample_state) k" .
  moreover have "''10.0.0.9'' \<noteq> ip_String [10, 0, 0, 1]" by code_simp
  ultimately show ?thesis by blast
qed

text \<open>
  C20. From the socket to a new backend stream. When a datagram with the tunnel's key, carrying the first
  data packet of a stream, arrives from an address not seen before, the server stores the client under that
  address and one stream under the packet's identifier, dialling its backend, with the packet's data pending.
\<close>

theorem first_packet_opens_stream:
  assumes "sv_transport sv = Some t" and "\<not> st_closed t" and "st_handler t"
    and "fmlookup (sv_clients sv) (ip_String ip) = None" and "data \<noteq> []" and "length data \<le> 1400"
    and "pkt = \<lparr>rp_StreamID = sid, rp_Flags = FlagData, rp_Seq = 0, rp_Ack = 0, rp_SackBlocks = [], rp_Data = data\<rparr>"
    and "sched sid data = ([], [])"
    and "sv' = server_receive e sched (Inr (ip, Packet_Marshal (NewPacket (st_key t) (Marshal pkt)))) sv"
  shows "\<exists>cs. fmlookup (sv_clients sv') (ip_String ip) = Some cs \<and> cs_clientIP cs = ip
    \<and> fmlookup (cs_streams cs) sid = Some 0
    \<and> cs_objs cs = [(new_stream sid)\<lparr>ss_pendingData := [data], ss_accepted := data\<rparr>]"
  using assms by (rule first_packet_stream)

theorem first_packet_opens_stream_witness:
  "\<exists>cs dg. fmlookup (sv_clients (server_receive (env_at 0) idle (Inr ([10, 0, 0, 1], dg)) sample_server))
        (ip_String [10, 0, 0, 1]) = Some cs
     \<and> map ss_pendingData (cs_objs cs) = [[[77]]]"
proof -
  obtain t where t: "sv_transport sample_server = Some t" "\<not> st_closed t" "st_handler t"
    using sample_transport by blast
  obtain cs where "fmlookup (sv_clients (server_receive (env_at 0) idle (Inr ([10, 0, 0, 1],
        Packet_Marshal (NewPacket (st_key t) (Marshal \<lparr>rp_StreamID = 2, rp_Flags = FlagData, rp_Seq = 0, rp_Ack = 0,
          rp_SackBlocks = [], rp_Data = [77]\<rparr>)))) sample_server)) (ip_String [10, 0, 0, 1]) = Some cs"
    and "cs_objs cs = [(new_stream 2)\<lparr>ss_pendingData := [[77]], ss_accepted := [77]\<rparr>]"
    using first_packet_opens_stream [OF t sample_no_client _ _ refl _ refl, of "[77]" idle 2 "env_at 0"] by auto
  then show ?thesis by auto
qed

text \<open>
  C22. The response after a half-close is lost. Once a client's close packet has arrived, the manager has
  dropped the stream; the next data that \<open>readFromBackend\<close> sends for it opens a new stream, whose first packet has
  sequence number zero. A client that has already received data on the stream takes that packet for a
  duplicate and delivers nothing.
\<close>

theorem response_after_half_close_lost:
  assumes "UnmarshalReliable c = Inr cp" and "rp_Flags cp AND FlagClose \<noteq> 0"
    and "rm1 = snd (rm_Receive e c rm)"
  shows "\<exists>rm2 buf pkt. rm_Send e' [] (rp_StreamID cp) data rm1 = Some (e_send e' buf, rm2)
    \<and> rm_sent rm2 = rm_sent rm1 @ [buf] \<and> UnmarshalReliable buf = Inr pkt
    \<and> rp_Data pkt = data \<and> rp_Seq pkt = 0
    \<and> (\<forall>e'' rs. 0 < recvNext rs \<and> recvNext rs < 2 ^ 31 \<longrightarrow>
         deliveredLog (snd (Receive e'' pkt rs)) = deliveredLog rs)"
proof -
  have "fmlookup (rm_streams rm1) (rp_StreamID cp) = None"
    using close_packet_removed [OF assms(1,2)] assms(3) by simp
  from rm_Send_fresh [OF this, of e' data] show ?thesis by (auto intro!: duplicate_zero)
qed

theorem response_after_half_close_lost_witness:
  "\<exists>rm buf pkt. rm_Send (env_at 1) [] 9 [7]
        (snd (rm_Receive (env_at 0) [0, 0, 0, 9, 4, 0, 0, 0, 2] (rm_run []))) = Some (None, rm)
     \<and> last (rm_sent rm) = buf \<and> UnmarshalReliable buf = Inr pkt \<and> rp_Data pkt = [7]
     \<and> deliveredLog (snd (Receive (env_at 2) pkt ((NewReliableStream 9)\<lparr>recvNext := 3\<rparr>))) = []"
proof -
  have u: "UnmarshalReliable [0, 0, 0, 9, 4, 0, 0, 0, 2] =
      Inr \<lparr>rp_StreamID = 9, rp_Flags = 4, rp_Seq = 2, rp_Ack = 0, rp_SackBlocks = [], rp_Data = []\<rparr>"
    by code_simp
  have rs: "0 < recvNext ((NewReliableStream 9)\<lparr>recvNext := 3\<rparr>)"
    "recvNext ((NewReliableStream 9)\<lparr>recvNext := 3\<rparr>) < 2 ^ 31"
    "deliveredLog ((NewReliableStream 9)\<lparr>recvNext := 3\<rparr>) = []"
    by (simp_all add: NewReliableStream_def)
  have ok: "e_send (env_at 1) b = None" for b by (simp add: env_at_def)
  from response_after_half_close_lost [OF u _ refl, of "env_at 1" "[7]" "env_at 0" "rm_run []"] rs show ?thesis
    unfolding ok by (auto simp: FlagClose_def)
qed

end
