(* ===== verification/ClientStream.thy ===== *)
theory ClientStream
  imports Pipe
begin

text \<open>
  \<open>streamConn\<close>, pkg/shadowgre/client.go: one accepted TCP connection of the client, in the direction
  from the tunnel to TCP. The receive goroutine queues delivered data, the writer goroutine
  \<open>writeLoop\<close> forwards it; closing comes from the peer, from \<open>handleConnection\<close> and from \<open>Client.Close\<close>.
\<close>

section \<open>State\<close>

text \<open>Where \<open>writeLoop\<close> is: in its loop, in the pause after the close signal, or returned.\<close>

datatype writer_phase = WriterLoop | WriterPause | WriterDone

text \<open>
  Where \<open>handleConnection\<close> is: reading from TCP, waiting for the writer, past the close of the TCP
  connection, or past the removal of the stream from the tables.
\<close>

datatype handler_phase = HandlerReading | HandlerWaiting | HandlerClosed | HandlerForgot

text \<open>
  \<open>sc_writer = WriterDone\<close> stands for the closed channel \<open>writerDone\<close>. \<open>sc_accepted\<close> records
  what was queued, for the statements.
\<close>

record streamConn =
  sc_id :: u32
  sc_conn :: tcpconn
  sc_writeCh :: "bytes list"
  sc_closeCh :: bool
  sc_writer :: writer_phase
  sc_handler :: handler_phase
  sc_serverClosed :: bool
  sc_closed :: bool
  sc_bytesIn :: int
  sc_bytesOut :: int
  sc_accepted :: bytes

definition clientChCap :: nat where "clientChCap = 4096"

definition new_streamConn :: "u32 \<Rightarrow> streamConn" where
  "new_streamConn streamID =
     \<lparr>sc_id = streamID, sc_conn = tcp_new, sc_writeCh = [], sc_closeCh = False, sc_writer = WriterLoop,
      sc_handler = HandlerReading, sc_serverClosed = False, sc_closed = False, sc_bytesIn = 0, sc_bytesOut = 0, sc_accepted = []\<rparr>"

section \<open>Operations\<close>

definition signalClose :: "streamConn \<Rightarrow> streamConn" where
  "signalClose sc = sc\<lparr>sc_closeCh := True\<rparr>"

definition sc_close :: "streamConn \<Rightarrow> streamConn" where
  "sc_close sc =
     (let sc = signalClose (sc\<lparr>sc_closed := True\<rparr>) in sc\<lparr>sc_conn := tcp_Close (sc_conn sc)\<rparr>)"

definition conn_Write_sc :: "write_result \<Rightarrow> bytes \<Rightarrow> streamConn \<Rightarrow> bool \<times> streamConn" where
  "conn_Write_sc r data sc =
     (let (err, c) = tcp_Write r data (sc_conn sc) in (err, sc\<lparr>sc_conn := c\<rparr>))"

definition add_bytesIn :: "bytes \<Rightarrow> streamConn \<Rightarrow> streamConn" where
  "add_bytesIn data sc = sc\<lparr>sc_bytesIn := wrap64 (sc_bytesIn sc + int (length data))\<rparr>"

text \<open>\<open>drainWriteCh\<close> stops at the first write that fails; that block is gone from the channel.\<close>

fun sc_drain :: "write_result list \<Rightarrow> bytes list \<Rightarrow> streamConn \<Rightarrow> streamConn" where
  "sc_drain rs [] sc = sc\<lparr>sc_writeCh := []\<rparr>"
| "sc_drain rs (data # q) sc =
     (let (r, rs) = next_result rs;
          (err, sc) = conn_Write_sc r data sc
      in if err then sc\<lparr>sc_writeCh := q\<rparr> else sc_drain rs q (add_bytesIn data sc))"

definition sc_drainWriteCh :: "write_result list \<Rightarrow> streamConn \<Rightarrow> streamConn" where
  "sc_drainWriteCh rs sc = sc_drain rs (sc_writeCh sc) sc"

text \<open>
  The steps of \<open>writeLoop\<close>: data from the channel, with the outcome of its write and, should that fail,
  of the writes of the drain; the close signal; the drain after the pause.
\<close>

definition writeLoop_data :: "write_result \<Rightarrow> write_result list \<Rightarrow> streamConn \<Rightarrow> streamConn" where
  "writeLoop_data r rs sc =
     (case sc_writeCh sc of
        [] \<Rightarrow> sc
      | data # q \<Rightarrow>
          if sc_writer sc = WriterLoop then
            let (err, sc) = conn_Write_sc r data (sc\<lparr>sc_writeCh := q\<rparr>)
            in if err then (sc_drainWriteCh rs (sc\<lparr>sc_closed := True\<rparr>))\<lparr>sc_writer := WriterDone\<rparr>
               else add_bytesIn data sc
          else sc)"

definition writeLoop_close :: "streamConn \<Rightarrow> streamConn" where
  "writeLoop_close sc =
     (if sc_writer sc = WriterLoop \<and> sc_closeCh sc then sc\<lparr>sc_writer := WriterPause\<rparr> else sc)"

definition writeLoop_drain :: "write_result list \<Rightarrow> streamConn \<Rightarrow> streamConn" where
  "writeLoop_drain rs sc =
     (if sc_writer sc = WriterPause
      then (sc_drainWriteCh rs (sc\<lparr>sc_closed := True\<rparr>))\<lparr>sc_writer := WriterDone\<rparr> else sc)"

text \<open>
  Steps of the goroutines beside the receive goroutine. \<open>ScTimeout\<close> and \<open>ScConnClose\<close> are
  \<open>handleConnection\<close>'s: the signal after the wait for the writer timed out, and the close of the TCP
  connection after the writer has finished. \<open>ScClose\<close> is \<open>Client.Close\<close>'s.
\<close>

datatype sc_go =
    ScWrite write_result "write_result list"
  | ScCloseSeen
  | ScDrain "write_result list"
  | ScTimeout
  | ScConnClose
  | ScClose

fun sc_run1 :: "sc_go \<Rightarrow> streamConn \<Rightarrow> streamConn" where
  "sc_run1 (ScWrite r rs) sc = writeLoop_data r rs sc"
| "sc_run1 ScCloseSeen sc = writeLoop_close sc"
| "sc_run1 (ScDrain rs) sc = writeLoop_drain rs sc"
| "sc_run1 ScTimeout sc = (if sc_handler sc = HandlerWaiting then signalClose sc else sc)"
| "sc_run1 ScConnClose sc =
     (if sc_handler sc = HandlerWaiting \<and> sc_writer sc = WriterDone
      then sc\<lparr>sc_conn := tcp_Close (sc_conn sc), sc_handler := HandlerClosed\<rparr> else sc)"
| "sc_run1 ScClose sc = sc_close sc"

text \<open>
  \<open>handleReliableData\<close> on a stream that exists. Between its look at \<open>closed\<close> and the send on the
  channel, and while that waits for room, the other goroutines take the steps \<open>wait\<close>; the timeout fires when
  there is still no room.
\<close>

definition sc_queue :: "bytes \<Rightarrow> streamConn \<Rightarrow> streamConn" where
  "sc_queue data sc = sc\<lparr>sc_writeCh := sc_writeCh sc @ [data], sc_accepted := sc_accepted sc @ data\<rparr>"

definition sc_handleData :: "sc_go list \<Rightarrow> bytes \<Rightarrow> streamConn \<Rightarrow> streamConn" where
  "sc_handleData wait data sc =
     (if sc_closed sc then sc
      else
        let sc = fold sc_run1 wait sc
        in if length (sc_writeCh sc) < clientChCap then sc_queue data sc else sc_close sc)"

definition sc_handleClose :: "streamConn \<Rightarrow> streamConn" where
  "sc_handleClose sc = signalClose (sc\<lparr>sc_serverClosed := True\<rparr>)"

datatype sc_op =
    ScData "sc_go list" bytes
  | ScPeerClose
  | ScGo sc_go

fun sc_step :: "sc_op \<Rightarrow> streamConn \<Rightarrow> streamConn" where
  "sc_step (ScData wait data) sc = sc_handleData wait data sc"
| "sc_step ScPeerClose sc = sc_handleClose sc"
| "sc_step (ScGo g) sc = sc_run1 g sc"

definition sc_run :: "u32 \<Rightarrow> sc_op list \<Rightarrow> streamConn" where
  "sc_run streamID ops = fold sc_step ops (new_streamConn streamID)"

section \<open>The flow of a connection\<close>

definition sc_out :: "streamConn \<Rightarrow> bytes" where
  "sc_out sc = t_out (sc_conn sc)"

definition sc_queued :: "streamConn \<Rightarrow> bytes" where
  "sc_queued sc = concat (sc_writeCh sc)"

definition sc_broken :: "streamConn \<Rightarrow> bool" where
  "sc_broken sc \<longleftrightarrow> t_closed (sc_conn sc) \<or> sc_writer sc = WriterDone"

definition sc_inv :: "streamConn \<Rightarrow> bool" where
  "sc_inv sc \<longleftrightarrow> \<not> t_shut (sc_conn sc) \<and> (sc_writer sc = WriterDone \<longrightarrow> sc_closed sc)
     \<and> flow (sc_out sc) (sc_queued sc) (sc_accepted sc) (sc_broken sc)"

text \<open>Excluded are writes in the main loop that fail on an open connection.\<close>

fun sc_clean :: "sc_go \<Rightarrow> bool" where
  "sc_clean (ScWrite r rs) = (r = Written)"
| "sc_clean _ = True"

fun sc_clean_op :: "sc_op \<Rightarrow> bool" where
  "sc_clean_op (ScData wait data) = list_all sc_clean wait"
| "sc_clean_op ScPeerClose = True"
| "sc_clean_op (ScGo g) = sc_clean g"

lemmas sc_views = sc_out_def sc_queued_def sc_broken_def

lemma conn_Write_sc_fields:
  assumes "conn_Write_sc r data sc = (err, sc')"
  shows "sc_writeCh sc' = sc_writeCh sc" "sc_accepted sc' = sc_accepted sc" "sc_writer sc' = sc_writer sc"
    "sc_closed sc' = sc_closed sc" "t_closed (sc_conn sc') = t_closed (sc_conn sc)"
    "t_shut (sc_conn sc') = t_shut (sc_conn sc)" "sc_closeCh sc' = sc_closeCh sc"
    "\<exists>d. sc_out sc' = sc_out sc @ d \<and> prefix d data"
    "\<not> err \<Longrightarrow> sc_out sc' = sc_out sc @ data"
    "\<not> t_closed (sc_conn sc) \<Longrightarrow> \<not> t_shut (sc_conn sc) \<Longrightarrow> r = Written \<Longrightarrow> \<not> err"
    "t_closed (sc_conn sc) \<Longrightarrow> err \<and> sc_out sc' = sc_out sc"
  using assms
  by (auto simp: conn_Write_sc_def sc_out_def tcp_Write_closed Let_def split: prod.splits
      dest: tcp_Write_prefix tcp_Write_no_error tcp_Write_keeps)
     (auto simp: tcp_Write_def)

lemma add_bytesIn_fields [simp]:
  "sc_out (add_bytesIn d sc) = sc_out sc" "sc_writeCh (add_bytesIn d sc) = sc_writeCh sc"
  "sc_accepted (add_bytesIn d sc) = sc_accepted sc" "sc_writer (add_bytesIn d sc) = sc_writer sc"
  "sc_closed (add_bytesIn d sc) = sc_closed sc" "sc_conn (add_bytesIn d sc) = sc_conn sc"
  by (simp_all add: add_bytesIn_def sc_out_def)

lemma sc_drain_fields:
  "sc_accepted (sc_drain rs q sc) = sc_accepted sc \<and> sc_writer (sc_drain rs q sc) = sc_writer sc
   \<and> sc_closed (sc_drain rs q sc) = sc_closed sc
   \<and> t_closed (sc_conn (sc_drain rs q sc)) = t_closed (sc_conn sc)
   \<and> t_shut (sc_conn (sc_drain rs q sc)) = t_shut (sc_conn sc)
   \<and> (\<exists>d. sc_out (sc_drain rs q sc) = sc_out sc @ d \<and> prefix d (concat q))
   \<and> (t_closed (sc_conn sc) \<longrightarrow> sc_out (sc_drain rs q sc) = sc_out sc)"
proof (induction rs q sc rule: sc_drain.induct)
  case (1 rs sc)
  then show ?case by (simp add: sc_out_def)
next
  case (2 rs data q sc)
  obtain r rs' where n: "next_result rs = (r, rs')" by fastforce
  obtain err sc' where w: "conn_Write_sc r data sc = (err, sc')" by fastforce
  note f = conn_Write_sc_fields [OF w]
  show ?case
  proof (cases err)
    case True
    obtain d where d: "sc_out sc' = sc_out sc @ d" "prefix d data" using f(8) by blast
    moreover have "prefix d (data @ concat q)" using d(2) by (auto simp: prefix_def)
    moreover have "sc_out (sc'\<lparr>sc_writeCh := q\<rparr>) = sc_out sc'" by (simp add: sc_out_def)
    ultimately show ?thesis using True f by (auto simp: n w)
  next
    case False
    have "\<exists>d. sc_out (sc_drain rs' q (add_bytesIn data sc')) = sc_out sc @ data @ d \<and> prefix d (concat q)"
      using 2 [OF n [symmetric] refl w [symmetric] refl False] f(9) [OF False] by auto
    with 2 [OF n [symmetric] refl w [symmetric] refl False] f False show ?thesis by (auto simp: n w)
  qed
qed

lemma sc_drain_all:
  "list_all (\<lambda>r. r = Written) rs \<Longrightarrow> \<not> t_closed (sc_conn sc) \<Longrightarrow> \<not> t_shut (sc_conn sc) \<Longrightarrow>
     sc_out (sc_drain rs q sc) = sc_out sc @ concat q \<and> sc_writeCh (sc_drain rs q sc) = []"
proof (induction rs q sc rule: sc_drain.induct)
  case (1 rs sc)
  then show ?case by (simp add: sc_out_def)
next
  case (2 rs data q sc)
  obtain r rs' where n: "next_result rs = (r, rs')" by fastforce
  obtain err sc' where w: "conn_Write_sc r data sc = (err, sc')" by fastforce
  note f = conn_Write_sc_fields [OF w]
  have r: "r = Written \<and> list_all (\<lambda>r. r = Written) rs'" using next_result_Written [OF 2(2) n] .
  then have e: "\<not> err" using f(10) 2(3,4) by simp
  from 2(1) [OF n [symmetric] refl w [symmetric] refl e] e f 2(3,4) r show ?case
    by (simp add: n w [simplified r])
qed

lemma sc_inv_new: "sc_inv (new_streamConn sid)"
  by (simp add: sc_inv_def sc_views new_streamConn_def tcp_new_def flow_def)

text \<open>After the drain of an exiting writer the pipe is broken; what was written is a prefix.\<close>

lemma sc_exit_inv:
  assumes "\<not> t_shut (sc_conn sc)" and "sc_out sc @ concat (sc_writeCh sc) = sc_accepted sc
      \<or> t_closed (sc_conn sc) \<and> prefix (sc_out sc) (sc_accepted sc)"
  shows "sc_inv ((sc_drainWriteCh rs (sc\<lparr>sc_closed := True\<rparr>))\<lparr>sc_writer := WriterDone\<rparr>)"
proof -
  let ?s = "sc\<lparr>sc_closed := True\<rparr>"
  note f = sc_drain_fields [of rs "sc_writeCh sc" ?s]
  have out: "sc_out (x\<lparr>sc_writer := w\<rparr>) = sc_out x" for w and x :: streamConn
    by (simp add: sc_out_def)
  have "prefix (sc_out (sc_drain rs (sc_writeCh sc) ?s)) (sc_accepted sc)"
    using assms(2)
  proof
    assume "sc_out sc @ concat (sc_writeCh sc) = sc_accepted sc"
    moreover obtain d where "sc_out (sc_drain rs (sc_writeCh sc) ?s) = sc_out sc @ d" "prefix d (concat (sc_writeCh sc))"
      using f by (auto simp: sc_out_def)
    ultimately show ?thesis by (metis same_prefix_prefix)
  qed (use f in \<open>auto simp: sc_out_def\<close>)
  with f assms(1) show ?thesis
    by (simp add: sc_inv_def sc_drainWriteCh_def sc_broken_def flow_def out)
qed

lemma sc_inv_flow:
  assumes "sc_inv sc" and "sc_writer sc \<noteq> WriterDone"
  shows "sc_out sc @ concat (sc_writeCh sc) = sc_accepted sc
      \<or> t_closed (sc_conn sc) \<and> prefix (sc_out sc) (sc_accepted sc)"
  using assms by (auto simp: sc_inv_def flow_def sc_queued_def sc_broken_def)

lemma sc_inv_write:
  assumes "sc_inv sc"
  shows "sc_inv (writeLoop_data Written rs sc)"
proof (cases "sc_writer sc = WriterLoop \<and> sc_writeCh sc \<noteq> []")
  case True
  then obtain data q where q: "sc_writeCh sc = data # q" and wl: "sc_writer sc = WriterLoop"
    by (cases "sc_writeCh sc") auto
  let ?s = "sc\<lparr>sc_writeCh := q\<rparr>"
  obtain err sc' where w: "conn_Write_sc Written data ?s = (err, sc')" by fastforce
  note f = conn_Write_sc_fields [OF w, simplified]
  have out: "sc_out ?s = sc_out sc" by (simp add: sc_out_def)
  have shut: "\<not> t_shut (sc_conn sc)" using assms by (simp add: sc_inv_def)
  note fl = sc_inv_flow [OF assms]
  show ?thesis
  proof (cases err)
    case True
    then have cl: "t_closed (sc_conn sc)" using f(10) shut by auto
    then have "sc_out sc' = sc_out sc" using f(11) out by simp
    moreover have "prefix (sc_out sc) (sc_accepted sc)" using assms unfolding sc_inv_def by (blast intro: flow_prefix)
    ultimately have "prefix (sc_out sc') (sc_accepted sc')" using f(2) by simp
    then have "sc_inv ((sc_drainWriteCh rs (sc'\<lparr>sc_closed := True\<rparr>))\<lparr>sc_writer := WriterDone\<rparr>)"
      using f cl shut by (intro sc_exit_inv) auto
    with True q wl w show ?thesis by (simp add: writeLoop_data_def)
  next
    case False
    then have o: "sc_out sc' = sc_out sc @ data" using f(9) out by simp
    have nc: "\<not> t_closed (sc_conn sc)" using f(11) False by auto
    then have "sc_out sc @ data @ concat q = sc_accepted sc" using fl wl q by simp
    with False q wl w f o nc shut show ?thesis
      by (simp add: writeLoop_data_def sc_inv_def flow_def sc_queued_def)
  qed
qed (use assms in \<open>auto simp: writeLoop_data_def split: list.split\<close>)

lemma sc_inv_close: "sc_inv sc \<Longrightarrow> sc_inv (sc_close sc)"
  by (auto simp: sc_close_def signalClose_def sc_inv_def sc_views flow_def Let_def)

lemma sc_inv_run1: "sc_inv sc \<Longrightarrow> sc_clean g \<Longrightarrow> sc_inv (sc_run1 g sc)"
proof (cases g)
  case (ScDrain rs)
  assume "sc_inv sc"
  then show ?thesis
    using ScDrain sc_exit_inv [of sc rs] sc_inv_flow [of sc]
    by (auto simp: writeLoop_drain_def sc_inv_def)
qed (simp_all add: sc_inv_write sc_inv_close,
     auto simp: writeLoop_close_def signalClose_def sc_inv_def sc_views flow_def)

interpretation writer: ordered_pipe sc_inv sc_run1 sc_clean sc_out sc_queued sc_accepted sc_broken
  by unfold_locales (auto simp: sc_inv_run1, simp add: sc_inv_def)

lemma sc_inv_queue: "sc_inv sc \<Longrightarrow> sc_inv (sc_queue data sc)"
  by (auto simp: sc_inv_def sc_queue_def sc_views flow_def prefix_def)

lemma sc_inv_step: "sc_inv sc \<Longrightarrow> sc_clean_op op \<Longrightarrow> sc_inv (sc_step op sc)"
proof (cases op)
  case (ScData wait data)
  assume "sc_inv sc" "sc_clean_op op"
  with ScData show ?thesis
    using writer.run_inv [of sc wait] by (simp add: sc_handleData_def Let_def sc_inv_queue sc_inv_close)
next
  case ScPeerClose
  assume "sc_inv sc"
  with ScPeerClose show ?thesis by (simp add: sc_handleClose_def signalClose_def sc_inv_def sc_views)
qed (simp add: sc_inv_run1)

interpretation client_stream: ordered_pipe sc_inv sc_step sc_clean_op sc_out sc_queued sc_accepted sc_broken
  by unfold_locales (auto simp: sc_inv_step, simp add: sc_inv_def)

section \<open>Refusal is final\<close>

lemma sc_run1_keeps:
  "sc_accepted (sc_run1 g sc) = sc_accepted sc \<and> (sc_closed sc \<longrightarrow> sc_closed (sc_run1 g sc))"
proof (cases g)
  case (ScWrite r rs)
  show ?thesis
  proof (cases "sc_writer sc = WriterLoop \<and> sc_writeCh sc \<noteq> []")
    case True
    then obtain data q where q: "sc_writeCh sc = data # q" by (cases "sc_writeCh sc") auto
    obtain err sc' where w: "conn_Write_sc r data (sc\<lparr>sc_writeCh := q\<rparr>) = (err, sc')" by fastforce
    from True q w ScWrite conn_Write_sc_fields(2,4) [OF w] show ?thesis
      by (simp add: writeLoop_data_def sc_drainWriteCh_def sc_drain_fields)
  qed (auto simp: ScWrite writeLoop_data_def split: list.split)
qed (auto simp: writeLoop_close_def writeLoop_drain_def sc_drainWriteCh_def sc_drain_fields signalClose_def
      sc_close_def Let_def)

lemma sc_go_keeps:
  "sc_accepted (fold sc_run1 gs sc) = sc_accepted sc \<and> (sc_closed sc \<longrightarrow> sc_closed (fold sc_run1 gs sc))"
  by (induction gs arbitrary: sc) (auto simp: sc_run1_keeps)

fun sc_op_data :: "sc_op \<Rightarrow> bytes" where
  "sc_op_data (ScData wait data) = data"
| "sc_op_data _ = []"

lemma sc_step_accepts:
  assumes "sc' = sc_step op sc"
  shows "(sc_closed sc \<longrightarrow> sc_closed sc' \<and> sc_accepted sc' = sc_accepted sc)
    \<and> (sc_accepted sc' = sc_accepted sc @ sc_op_data op \<or> sc_closed sc' \<and> sc_accepted sc' = sc_accepted sc)"
proof (cases op)
  case (ScData wait data)
  with assms sc_go_keeps [of wait sc] show ?thesis
    by (auto simp: sc_handleData_def sc_queue_def sc_close_def signalClose_def Let_def)
next
  case (ScGo g)
  with assms sc_run1_keeps [of g sc] show ?thesis by simp
qed (use assms in \<open>simp add: sc_handleClose_def signalClose_def\<close>)

lemma sc_accepted_prefix:
  "prefix (sc_accepted (sc_run sid ops)) (concat (map sc_op_data ops))
   \<and> (sc_accepted (sc_run sid ops) = concat (map sc_op_data ops) \<or> sc_closed (sc_run sid ops))"
proof (induction ops rule: rev_induct)
  case Nil
  then show ?case by (simp add: sc_run_def new_streamConn_def)
next
  case (snoc op ops)
  with sc_step_accepts [OF refl, of "sc_run sid ops" op] show ?case by (auto simp: sc_run_def prefix_def)
qed

lemma sc_out_prefix:
  assumes "list_all sc_clean_op ops"
  shows "prefix (sc_out (sc_run sid ops)) (concat (map sc_op_data ops))"
proof -
  have "prefix (sc_out (sc_run sid ops)) (sc_accepted (sc_run sid ops))"
    unfolding sc_run_def using sc_inv_new assms by (rule client_stream.run_prefix)
  with sc_accepted_prefix show ?thesis by (metis prefix_order.trans)
qed

section \<open>The pause after the close signal\<close>

text \<open>
  Steps in which no write fails and that neither drain the channel nor close the connection from outside
  (\<open>Client.Close\<close>).
\<close>

fun sc_calm :: "sc_go \<Rightarrow> bool" where
  "sc_calm (ScWrite r rs) = (r = Written)"
| "sc_calm (ScDrain rs) = False"
| "sc_calm ScClose = False"
| "sc_calm _ = True"

fun sc_calm_op :: "sc_op \<Rightarrow> bool" where
  "sc_calm_op (ScData wait data) = list_all sc_calm wait"
| "sc_calm_op ScPeerClose = True"
| "sc_calm_op (ScGo g) = sc_calm g"

text \<open>An open connection that still takes data and whose writer has not left.\<close>

definition sc_live :: "streamConn \<Rightarrow> bool" where
  "sc_live sc \<longleftrightarrow> sc_inv sc \<and> \<not> t_closed (sc_conn sc) \<and> \<not> sc_closed sc \<and> sc_writer sc \<noteq> WriterDone"

definition sc_progress :: "streamConn \<Rightarrow> streamConn \<Rightarrow> bool" where
  "sc_progress sc sc' \<longleftrightarrow> length (sc_writeCh sc') \<le> length (sc_writeCh sc)
     \<and> (sc_closeCh sc \<longrightarrow> sc_closeCh sc') \<and> (sc_writer sc = WriterPause \<longrightarrow> sc_writer sc' = WriterPause)"

lemma sc_calm_clean: "sc_calm g \<Longrightarrow> sc_clean g"
  by (cases g) simp_all

lemma sc_calm_go:
  assumes "sc_live sc" and "sc_calm g"
  shows "sc_live (sc_run1 g sc) \<and> sc_progress sc (sc_run1 g sc)"
proof -
  have inv: "sc_inv (sc_run1 g sc)" and sh: "\<not> t_shut (sc_conn sc)"
    using assms sc_inv_run1 sc_calm_clean by (auto simp: sc_live_def sc_inv_def)
  show ?thesis
  proof (cases g)
    case (ScWrite r rs)
    show ?thesis
    proof (cases "sc_writer sc = WriterLoop \<and> sc_writeCh sc \<noteq> []")
      case True
      then obtain data q where q: "sc_writeCh sc = data # q" by (cases "sc_writeCh sc") auto
      obtain err sc' where w: "conn_Write_sc r data (sc\<lparr>sc_writeCh := q\<rparr>) = (err, sc')" by fastforce
      note f = conn_Write_sc_fields [OF w]
      have e: "\<not> err" using f(10) assms ScWrite sh by (simp add: sc_live_def)
      have "sc_run1 g sc = add_bytesIn data sc'" using True q w e ScWrite by (simp add: writeLoop_data_def)
      then show ?thesis
        using inv f assms(1) q True
        by (simp add: sc_live_def sc_progress_def) (simp add: add_bytesIn_def)
    qed (use assms(1) ScWrite in \<open>auto simp: writeLoop_data_def sc_progress_def split: list.split\<close>)
  qed (use assms inv in \<open>auto simp: sc_live_def sc_progress_def writeLoop_close_def signalClose_def\<close>)
qed

lemma sc_calm_gos:
  "sc_live sc \<Longrightarrow> list_all sc_calm gs \<Longrightarrow> sc_live (fold sc_run1 gs sc) \<and> sc_progress sc (fold sc_run1 gs sc)"
proof (induction gs arbitrary: sc)
  case (Cons g gs)
  then have "sc_live (sc_run1 g sc)" "sc_progress sc (sc_run1 g sc)" using sc_calm_go by auto
  with Cons show ?case by (fastforce simp: sc_progress_def)
qed (simp add: sc_progress_def)

lemma sc_calm_step:
  assumes "sc_live sc" and "sc_calm_op op" and "length (sc_writeCh sc) < clientChCap"
  shows "sc_live (sc_step op sc) \<and> sc_accepted (sc_step op sc) = sc_accepted sc @ sc_op_data op
    \<and> length (sc_writeCh (sc_step op sc)) \<le> Suc (length (sc_writeCh sc))
    \<and> (sc_closeCh sc \<longrightarrow> sc_closeCh (sc_step op sc))
    \<and> (sc_writer sc = WriterPause \<longrightarrow> sc_writer (sc_step op sc) = WriterPause)
    \<and> (op = ScGo ScCloseSeen \<and> sc_closeCh sc \<longrightarrow> sc_writer (sc_step op sc) = WriterPause)"
proof (cases op)
  case (ScData wait data)
  let ?s = "fold sc_run1 wait sc"
  have s: "sc_live ?s" "sc_progress sc ?s" "sc_accepted ?s = sc_accepted sc"
    using sc_calm_gos [OF assms(1)] assms(2) ScData sc_go_keeps [of wait sc] by simp_all
  then have "length (sc_writeCh ?s) < clientChCap" using assms(3) by (simp add: sc_progress_def)
  moreover have "\<not> sc_closed sc" using assms(1) by (simp add: sc_live_def)
  ultimately have "sc_step op sc = sc_queue data ?s" using ScData by (simp add: sc_handleData_def Let_def)
  moreover have "sc_live (sc_queue data ?s)"
    using s(1) sc_inv_queue [of ?s data] by (simp add: sc_live_def) (simp add: sc_queue_def)
  ultimately show ?thesis using s ScData by (simp add: sc_progress_def) (simp add: sc_queue_def)
next
  case ScPeerClose
  then show ?thesis
    using assms(1) sc_inv_step [of sc ScPeerClose] by (simp add: sc_live_def sc_handleClose_def signalClose_def)
next
  case (ScGo g)
  have "sc_writer (writeLoop_close sc) = WriterPause" if "sc_closeCh sc"
    using that assms(1) by (cases "sc_writer sc") (simp_all add: sc_live_def writeLoop_close_def)
  with ScGo assms(1,2) sc_calm_go [of sc g] sc_run1_keeps [of g sc] show ?thesis
    by (auto simp: sc_progress_def)
qed

lemma sc_calm_run:
  assumes "sc_live sc" and "sc_closeCh sc" and "list_all sc_calm_op mid"
    and "length (sc_writeCh sc) + length mid \<le> clientChCap"
  shows "sc_live (fold sc_step mid sc)
    \<and> sc_accepted (fold sc_step mid sc) = sc_accepted sc @ concat (map sc_op_data mid)
    \<and> (sc_writer sc = WriterPause \<or> ScGo ScCloseSeen \<in> set mid \<longrightarrow> sc_writer (fold sc_step mid sc) = WriterPause)"
  using assms
proof (induction mid arbitrary: sc)
  case (Cons op mid)
  have op: "sc_calm_op op" "length (sc_writeCh sc) < clientChCap" using Cons.prems(3,4) by simp_all
  note st = sc_calm_step [OF Cons.prems(1) op]
  have "length (sc_writeCh (sc_step op sc)) + length mid \<le> clientChCap" using st Cons.prems(4) by simp
  with Cons.IH [of "sc_step op sc"] st Cons.prems(2,3) show ?case by auto
qed simp

lemma sc_pause_drain:
  assumes "sc_live sc" and "sc_writer sc = WriterPause" and "list_all (\<lambda>r. r = Written) rs"
  shows "sc_out (writeLoop_drain rs sc) = sc_accepted sc \<and> sc_writeCh (writeLoop_drain rs sc) = []
    \<and> sc_writer (writeLoop_drain rs sc) = WriterDone"
proof -
  have "sc_out sc @ concat (sc_writeCh sc) = sc_accepted sc"
    using sc_inv_flow [of sc] assms(1) by (simp add: sc_live_def)
  moreover have "sc_out (sc_drain rs (sc_writeCh sc) (sc\<lparr>sc_closed := True\<rparr>)) = sc_out sc @ concat (sc_writeCh sc)
      \<and> sc_writeCh (sc_drain rs (sc_writeCh sc) (sc\<lparr>sc_closed := True\<rparr>)) = []"
    using sc_drain_all [of rs "sc\<lparr>sc_closed := True\<rparr>" "sc_writeCh sc"] assms(1,3)
    by (simp add: sc_live_def sc_inv_def sc_out_def)
  ultimately show ?thesis
    using assms(2) by (simp add: writeLoop_drain_def sc_drainWriteCh_def) (simp add: sc_out_def)
qed

section \<open>Properties\<close>

text \<open>
  C4. The client forwards a stream in order. Whatever the interleaving of the receive goroutine, the
  writer and the goroutines that close the connection, the bytes written to the TCP connection are a
  prefix of the bytes that the reliable layer delivered, in order; only writes of the main loop
  that fail on an open connection are excluded.
\<close>

theorem client_forwards_in_order:
  assumes "list_all sc_clean_op ops"
  shows "prefix (sc_out (sc_run sid ops)) (concat (map sc_op_data ops))"
  using assms by (rule sc_out_prefix)

theorem client_forwards_in_order_witness:
  "sc_out (sc_run 2 [ScData [] [1, 2], ScData [] [3], ScGo (ScWrite Written [])]) = [1, 2]
   \<and> prefix (sc_out (sc_run 2 [ScData [] [1, 2], ScData [] [3], ScGo (ScWrite Written [])])) [1, 2, 3]"
proof -
  let ?ops = "[ScData [] [1, 2], ScData [] [3], ScGo (ScWrite Written [])]"
  have "list_all sc_clean_op ?ops" by simp
  from client_forwards_in_order [OF this, of 2] have "prefix (sc_out (sc_run 2 ?ops)) [1, 2, 3]" by simp
  moreover have "sc_out (sc_run 2 ?ops) = [1, 2]" by code_simp
  ultimately show ?thesis by blast
qed

text \<open>
  C8. Nothing is left behind on the client, not even data that arrives during the pause. On an open connection whose
  writer is still in its loop, let the peer's close arrive, and after it any steps \<open>mid\<close> of the receive goroutine, the writer
  and \<open>handleConnection\<close>, among them the writer's reaction to the close signal, with further data
  arriving before it and during the pause, as much as the channel has room for. The drain after the pause then
  completes every byte delivered before and after the close; the channel is empty and the writer is done. Excluded are failing
  writes and \<open>Client.Close\<close>.
\<close>

theorem client_delivers_all:
  assumes "list_all sc_clean_op ops" and "sc = sc_run sid ops" and "\<not> t_closed (sc_conn sc)"
    and "\<not> sc_closed sc" and "sc_writer sc = WriterLoop"
    and "list_all sc_calm_op mid" and "ScGo ScCloseSeen \<in> set mid"
    and "length (sc_writeCh sc) + length mid \<le> clientChCap" and "list_all (\<lambda>r. r = Written) rs"
    and "sc' = fold sc_step (ScPeerClose # mid @ [ScGo (ScDrain rs)]) sc"
  shows "sc_out sc' = concat (map sc_op_data (ops @ mid)) \<and> sc_writeCh sc' = [] \<and> sc_writer sc' = WriterDone"
proof -
  have inv: "sc_inv sc"
    unfolding assms(2) sc_run_def using sc_inv_new assms(1) by (rule client_stream.run_inv)
  have acc: "sc_accepted sc = concat (map sc_op_data ops)"
    using sc_accepted_prefix [of sid ops] assms(2,4) by blast
  let ?c = "sc_handleClose sc"
  have c: "sc_live ?c" "sc_closeCh ?c" "length (sc_writeCh ?c) + length mid \<le> clientChCap" "sc_accepted ?c = sc_accepted sc"
    using inv assms(3-5,8) sc_inv_step [OF inv, of ScPeerClose]
    by (simp_all add: sc_live_def sc_handleClose_def signalClose_def)
  let ?m = "fold sc_step mid ?c"
  have m: "sc_live ?m" "sc_accepted ?m = sc_accepted sc @ concat (map sc_op_data mid)"
    "sc_writer ?m = WriterPause"
    using sc_calm_run [OF c(1,2) assms(6) c(3)] assms(7) c(4) by simp_all
  have "sc' = writeLoop_drain rs ?m" using assms(10) by simp
  with sc_pause_drain [OF m(1,3) assms(9)] m(2) acc show ?thesis by simp
qed

theorem client_delivers_all_witness:
  "sc_out (fold sc_step [ScPeerClose, ScGo ScCloseSeen, ScData [] [4], ScGo (ScDrain [])]
      (sc_run 2 [ScData [] [1, 2], ScData [] [3]])) = [1, 2, 3, 4]"
proof -
  let ?ops = "[ScData [] [1, 2], ScData [] [3]]" and ?mid = "[ScGo ScCloseSeen, ScData [] [4]]"
  have "list_all sc_clean_op ?ops" "list_all sc_calm_op ?mid" "ScGo ScCloseSeen \<in> set ?mid"
    "list_all (\<lambda>r. r = Written) []" by simp_all
  moreover have "\<not> t_closed (sc_conn (sc_run 2 ?ops))" "\<not> sc_closed (sc_run 2 ?ops)"
    "sc_writer (sc_run 2 ?ops) = WriterLoop" "length (sc_writeCh (sc_run 2 ?ops)) + length ?mid \<le> clientChCap"
    by code_simp+
  ultimately show ?thesis
    using client_delivers_all [of ?ops _ 2 ?mid "[]", OF _ refl _ _ _ _ _ _ _ refl] by simp
qed

text \<open>
  A gap in the data of the TCP client. When a write of the main loop fails after \<open>n\<close> bytes, as it
  does when its deadline passes, the writer still drains the channel: the next block follows those
  \<open>n\<close> bytes on the connection.
\<close>

theorem failed_write_leaves_gap:
  assumes "sc_writer sc = WriterLoop" and "\<not> t_closed (sc_conn sc)" and "\<not> t_shut (sc_conn sc)"
    and "sc_writeCh sc = [d1, d2]"
  shows "sc_out (writeLoop_data (WriteFailed n) [] sc) = sc_out sc @ take n d1 @ d2"
  using assms
  by (simp add: writeLoop_data_def conn_Write_sc_def tcp_Write_def sc_drainWriteCh_def sc_out_def add_bytesIn_def)

theorem failed_write_leaves_gap_witness:
  "sc_out (writeLoop_data (WriteFailed 1) [] (sc_run 2 [ScData [] [1, 2], ScData [] [3]])) = [1, 3]"
proof -
  let ?sc = "sc_run 2 [ScData [] [1, 2], ScData [] [3]]"
  have "sc_writer ?sc = WriterLoop" "\<not> t_closed (sc_conn ?sc)" "\<not> t_shut (sc_conn ?sc)"
    "sc_writeCh ?sc = [[1, 2], [3]]" "sc_out ?sc = []" by code_simp+
  from failed_write_leaves_gap [OF this(1-4), of 1] this(5) show ?thesis by simp
qed

end
