(* ===== verification/ClientApp.thy ===== *)
theory ClientApp
  imports ClientStream RelManager Transport
begin

text \<open>
  The client, pkg/shadowgre/client.go: accepted TCP connections become streams with fresh
  identifiers; data read from TCP goes through the reliable manager to the transport, data delivered by the
  manager to the connection's writer. Stream objects live in a store \<open>cl_objs\<close>, since their
  goroutines keep them after the table has dropped them. \<open>cl_accepted\<close> counts the connections that
  \<open>acceptLoop\<close> has accepted and whose goroutine \<open>handleConnection\<close> has not run yet.
\<close>

section \<open>State\<close>

record client =
  cl_listenAddr :: string
  cl_localIP :: bytes
  cl_serverIP :: bytes
  cl_key :: u32
  cl_transport :: "raw_transport option"
  cl_listening :: bool
  cl_closed :: bool
  cl_accepted :: nat
  cl_nextStreamID :: u32
  cl_objs :: "streamConn list"
  cl_streams :: "(u32, nat) fmap"
  cl_reliable :: "rmanager option"

definition NewClient :: "string \<Rightarrow> bytes \<Rightarrow> bytes \<Rightarrow> u32 \<Rightarrow> client" where
  "NewClient listenAddr localIP serverIP key =
     \<lparr>cl_listenAddr = listenAddr, cl_localIP = localIP, cl_serverIP = serverIP, cl_key = key,
      cl_transport = None, cl_listening = False, cl_closed = False, cl_accepted = 0, cl_nextStreamID = 1, cl_objs = [],
      cl_streams = fmempty, cl_reliable = None\<rparr>"

text \<open>\<open>Start\<close>; the first arguments are the errors of \<open>ListenIP\<close> and of \<open>net.Listen\<close>.\<close>

definition client_Start :: "go_error option \<Rightarrow> go_error option \<Rightarrow> client \<Rightarrow> go_error option \<times> client" where
  "client_Start listenIP listen cl =
     (case NewRawTransport listenIP (cl_localIP cl) (Some (cl_serverIP cl)) (cl_key cl) of
        Inl err \<Rightarrow> (Some err, cl)
      | Inr tr \<Rightarrow>
          let tr = SetReceiveHandler True tr;
              cl = cl\<lparr>cl_transport := Some tr, cl_reliable := Some NewReliableManager\<rparr>
          in case listen of
               Some err \<Rightarrow> (Some err, cl\<lparr>cl_transport := Some (raw_Close tr)\<rparr>)
             | None \<Rightarrow> (None, cl\<lparr>cl_listening := True\<rparr>))"

section \<open>Connections\<close>

definition upd_sc :: "nat \<Rightarrow> (streamConn \<Rightarrow> streamConn) \<Rightarrow> client \<Rightarrow> client" where
  "upd_sc a f cl = cl\<lparr>cl_objs := (cl_objs cl)[a := f (cl_objs cl ! a)]\<rparr>"

text \<open>
  One iteration of \<open>acceptLoop\<close>: a connection is accepted while the listener is open, and its goroutine
  created. The goroutine takes the identifier, creates the stream and its table entry when it runs, so streams
  are numbered in the order in which the handlers start.
\<close>

definition accept_step :: "client \<Rightarrow> client" where
  "accept_step cl =
     (if cl_closed cl \<or> \<not> cl_listening cl then cl else cl\<lparr>cl_accepted := cl_accepted cl + 1\<rparr>)"

definition handleConnection_start :: "client \<Rightarrow> client" where
  "handleConnection_start cl =
     (let streamID = cl_nextStreamID cl + 1;
          cl = cl\<lparr>cl_nextStreamID := streamID\<rparr>;
          a = length (cl_objs cl)
      in cl\<lparr>cl_objs := cl_objs cl @ [new_streamConn streamID],
            cl_streams := fmupd streamID a (cl_streams cl)\<rparr>)"

definition start_handler :: "client \<Rightarrow> client" where
  "start_handler cl =
     (if cl_accepted cl = 0 then cl else handleConnection_start (cl\<lparr>cl_accepted := cl_accepted cl - 1\<rparr>))"

text \<open>
  What the reliable manager hands to \<open>sendFunc\<close> goes to the transport, whose result is the
  environment's \<open>e_send\<close>.
\<close>

definition cl_transmit :: "env \<Rightarrow> bytes list \<Rightarrow> raw_transport \<Rightarrow> raw_transport" where
  "cl_transmit e bufs t = fold (\<lambda>b t. snd (raw_Send (e_send e b) b t)) bufs t"

definition put_reliable :: "env \<Rightarrow> rmanager \<Rightarrow> rmanager \<Rightarrow> client \<Rightarrow> client" where
  "put_reliable e rm rm' cl =
     cl\<lparr>cl_reliable := Some rm',
        cl_transport := map_option (cl_transmit e (drop (length (rm_sent rm)) (rm_sent rm'))) (cl_transport cl)\<rparr>"

text \<open>The end of the read loop of \<open>handleConnection\<close>: the close packet unless the server closed first.\<close>

definition leave_read_loop :: "env \<Rightarrow> nat \<Rightarrow> client \<Rightarrow> client" where
  "leave_read_loop e a cl =
     (let sc = cl_objs cl ! a;
          cl = (case cl_reliable cl of
                  None \<Rightarrow> cl
                | Some rm \<Rightarrow> if sc_serverClosed sc then cl
                             else put_reliable e rm (snd (rm_SendClose e (sc_id sc) rm)) cl)
      in upd_sc a (\<lambda>sc. sc\<lparr>sc_handler := HandlerWaiting\<rparr>) cl)"

definition cl_maxReadSize :: nat where "cl_maxReadSize = 1400"

definition count_out :: "bytes \<Rightarrow> streamConn \<Rightarrow> streamConn" where
  "count_out data sc = sc\<lparr>sc_bytesOut := wrap64 (sc_bytesOut sc + int (length data))\<rparr>"

text \<open>
  One iteration of the read loop: what \<open>Read\<close> returned (\<open>None\<close> an error or the end of the stream), and the
  steps of others while \<open>Send\<close> waits for the window. A \<open>Send\<close> that does not return leaves the step undone.
\<close>

definition read_step ::
  "env \<Rightarrow> (wake \<times> stream_op list) list \<Rightarrow> bytes option \<Rightarrow> nat \<Rightarrow> client \<Rightarrow> client" where
  "read_step e others r a cl =
     (if sc_handler (cl_objs cl ! a) = HandlerReading then
        case (r, cl_reliable cl) of
          (Some d, Some rm) \<Rightarrow>
            let data = take cl_maxReadSize d;
                cl' = upd_sc a (count_out data) cl
            in (case rm_Send e others (sc_id (cl_objs cl ! a)) data rm of
                  None \<Rightarrow> cl
                | Some (Some err, rm') \<Rightarrow> leave_read_loop e a (put_reliable e rm rm' cl')
                | Some (None, rm') \<Rightarrow> put_reliable e rm rm' cl')
        | _ \<Rightarrow> leave_read_loop e a cl
      else cl)"

text \<open>After the connection has been closed, and a pause, the stream leaves the tables.\<close>

definition forget_step :: "nat \<Rightarrow> client \<Rightarrow> client" where
  "forget_step a cl =
     (let sc = cl_objs cl ! a
      in if sc_handler sc = HandlerClosed then
        upd_sc a (\<lambda>sc. sc\<lparr>sc_handler := HandlerForgot\<rparr>)
          (cl\<lparr>cl_streams := fmdrop (sc_id sc) (cl_streams cl),
              cl_reliable := map_option (RemoveStream (sc_id sc)) (cl_reliable cl)\<rparr>)
      else cl)"

section \<open>Packets\<close>

definition cl_handleReliableData :: "(u32 \<Rightarrow> bytes \<Rightarrow> sc_go list) \<Rightarrow> u32 \<Rightarrow> bytes \<Rightarrow> client \<Rightarrow> client" where
  "cl_handleReliableData sched sid data cl =
     (case fmlookup (cl_streams cl) sid of
        None \<Rightarrow> cl
      | Some a \<Rightarrow> upd_sc a (sc_handleData (sched sid data) data) cl)"

definition cl_handleReliableClose :: "u32 \<Rightarrow> client \<Rightarrow> client" where
  "cl_handleReliableClose sid cl =
     (case fmlookup (cl_streams cl) sid of
        None \<Rightarrow> cl
      | Some a \<Rightarrow> upd_sc a sc_handleClose cl)"

fun cl_callback :: "(u32 \<Rightarrow> bytes \<Rightarrow> sc_go list) \<Rightarrow> app_event \<Rightarrow> client \<Rightarrow> client" where
  "cl_callback sched (OnData sid data) cl = cl_handleReliableData sched sid data cl"
| "cl_callback sched (OnClose sid) cl = cl_handleReliableClose sid cl"
| "cl_callback sched (Removed sid) cl = cl"

definition client_handleGREPacket :: "env \<Rightarrow> (u32 \<Rightarrow> bytes \<Rightarrow> sc_go list) \<Rightarrow> bytes \<Rightarrow> client \<Rightarrow> client" where
  "client_handleGREPacket e sched data cl =
     (case cl_reliable cl of
        None \<Rightarrow> cl
      | Some rm \<Rightarrow>
          let rm' = snd (rm_Receive e data rm);
              events = drop (length (rm_app rm)) (rm_app rm')
          in fold (cl_callback sched) events (put_reliable e rm rm' cl))"

text \<open>\<open>receiveLoop\<close> of the transport with the client's handler installed: one read of the socket.\<close>

definition client_receive :: "env \<Rightarrow> (u32 \<Rightarrow> bytes \<Rightarrow> sc_go list) \<Rightarrow> ip_read \<Rightarrow> raw_stats \<Rightarrow> client \<Rightarrow> client" where
  "client_receive e sched rd st cl =
     (case cl_transport cl of
        None \<Rightarrow> cl
      | Some t \<Rightarrow>
          let t' = fst (raw_receive rd (t, st));
              calls = drop (length (rt_delivered t)) (rt_delivered t')
          in fold (client_handleGREPacket e sched) calls (cl\<lparr>cl_transport := Some t'\<rparr>))"

section \<open>Closing\<close>

definition client_Close :: "(u32 fset \<Rightarrow> u32 list) \<Rightarrow> client \<Rightarrow> client" where
  "client_Close iter cl =
     (if cl_closed cl then cl
      else
        let cl = cl\<lparr>cl_closed := True, cl_listening := False,
                    cl_reliable := map_option rm_Close (cl_reliable cl)\<rparr>;
            cl = fold (\<lambda>sid cl. case fmlookup (cl_streams cl) sid of
                                  None \<Rightarrow> cl | Some a \<Rightarrow> upd_sc a sc_close cl)
                   (iter (fmdom (cl_streams cl))) cl
        in cl\<lparr>cl_transport := map_option raw_Close (cl_transport cl)\<rparr>)"

datatype cl_op =
    ClAccept
  | ClStart
  | ClReceive env "u32 \<Rightarrow> bytes \<Rightarrow> sc_go list" ip_read raw_stats
  | ClRead env "(wake \<times> stream_op list) list" "bytes option" nat
  | ClGo nat sc_go
  | ClForget nat
  | ClAckTimer env u32
  | ClTick u32 env
  | ClLate env nat stream_op
  | ClClose "u32 fset \<Rightarrow> u32 list"

definition cl_timer :: "env \<Rightarrow> u32 \<Rightarrow> stream_op \<Rightarrow> client \<Rightarrow> client" where
  "cl_timer e sid sop cl =
     (case cl_reliable cl of
        None \<Rightarrow> cl
      | Some rm \<Rightarrow> put_reliable e rm (rm_timer sid sop rm) cl)"

definition cl_late :: "env \<Rightarrow> nat \<Rightarrow> stream_op \<Rightarrow> client \<Rightarrow> client" where
  "cl_late e i sop cl =
     (case cl_reliable cl of
        None \<Rightarrow> cl
      | Some rm \<Rightarrow> put_reliable e rm (rm_late i sop rm) cl)"

definition cl_step :: "cl_op \<Rightarrow> client \<Rightarrow> client" where
  "cl_step op cl =
     (case op of
        ClAccept \<Rightarrow> accept_step cl
      | ClStart \<Rightarrow> start_handler cl
      | ClReceive e sched rd st \<Rightarrow> client_receive e sched rd st cl
      | ClRead e others r a \<Rightarrow> if a < length (cl_objs cl) then read_step e others r a cl else cl
      | ClGo a g \<Rightarrow> if a < length (cl_objs cl) then upd_sc a (sc_run1 g) cl else cl
      | ClForget a \<Rightarrow> if a < length (cl_objs cl) then forget_step a cl else cl
      | ClAckTimer e sid \<Rightarrow> cl_timer e sid OpAckTimer cl
      | ClTick sid e \<Rightarrow> cl_timer e sid (OpTick e) cl
      | ClLate e i sop \<Rightarrow> cl_late e i sop cl
      | ClClose iter \<Rightarrow> client_Close iter cl)"

definition cl_run :: "cl_op list \<Rightarrow> client \<Rightarrow> client" where
  "cl_run ops cl = fold cl_step ops cl"

section \<open>Invariant\<close>

lemma sc_id_drain [simp]: "sc_id (sc_drain rs q sc) = sc_id sc"
proof (induction rs q sc rule: sc_drain.induct)
  case (2 rs data q sc)
  obtain r rs' where n: "next_result rs = (r, rs')" by fastforce
  obtain err sc' where w: "conn_Write_sc r data sc = (err, sc')" by fastforce
  have "sc_id sc' = sc_id sc" using w by (auto simp: conn_Write_sc_def split: prod.splits)
  with 2 [OF n [symmetric] refl w [symmetric] refl] show ?case by (simp add: n w add_bytesIn_def)
qed simp

lemma sc_id_go [simp]: "sc_id (sc_run1 g sc) = sc_id sc"
  by (cases g) (auto simp: writeLoop_data_def writeLoop_close_def writeLoop_drain_def sc_drainWriteCh_def
      conn_Write_sc_def add_bytesIn_def signalClose_def sc_close_def Let_def split: list.split prod.split)

lemma sc_id_go_run [simp]: "sc_id (fold sc_run1 gs sc) = sc_id sc"
  by (induction gs arbitrary: sc) simp_all

lemma sc_id_handlers [simp]:
  "sc_id (sc_handleData wait data sc) = sc_id sc" "sc_id (sc_handleClose sc) = sc_id sc"
  "sc_id (sc_close sc) = sc_id sc"
  by (simp_all add: sc_handleData_def sc_queue_def sc_handleClose_def signalClose_def sc_close_def Let_def)

text \<open>
  Streams are numbered in the order in which their handlers start, starting with 2; the table refers to them
  under their own identifiers; every stream keeps the order of its data.
\<close>

definition cl_inv :: "client \<Rightarrow> bool" where
  "cl_inv cl \<longleftrightarrow> (\<forall>sc \<in> set (cl_objs cl). sc_inv sc)
     \<and> map sc_id (cl_objs cl) = map (\<lambda>i. of_nat (i + 2)) [0..<length (cl_objs cl)]
     \<and> cl_nextStreamID cl = of_nat (length (cl_objs cl) + 1)
     \<and> (\<forall>sid a. fmlookup (cl_streams cl) sid = Some a \<longrightarrow>
          a < length (cl_objs cl) \<and> sc_id (cl_objs cl ! a) = sid)"

lemma cl_inv_view:
  assumes "cl_inv cl" and "cl_objs cl' = cl_objs cl" and "cl_nextStreamID cl' = cl_nextStreamID cl"
    and "cl_streams cl' = cl_streams cl"
  shows "cl_inv cl'"
  using assms by (simp add: cl_inv_def)

lemma cl_inv_new: "cl_inv (snd (client_Start lip lis (NewClient addr lo srv key)))"
  by (auto simp: cl_inv_def client_Start_def NewClient_def Let_def split: sum.split option.split)

lemma cl_invD: "cl_inv cl \<Longrightarrow> a < length (cl_objs cl) \<Longrightarrow> sc_inv (cl_objs cl ! a)"
  by (simp add: cl_inv_def)

lemma cl_inv_table: "cl_inv cl \<Longrightarrow> fmlookup (cl_streams cl) sid = Some a \<Longrightarrow> a < length (cl_objs cl)"
  by (simp add: cl_inv_def)

lemma map_sc_id_upd:
  "a < length scs \<Longrightarrow> sc_id sc = sc_id (scs ! a) \<Longrightarrow> map sc_id (scs[a := sc]) = map sc_id scs"
  by (simp add: map_update list_update_same_conv)

lemma cl_inv_upd:
  assumes "cl_inv cl" and "a < length (cl_objs cl)" and "sc_inv (f (cl_objs cl ! a))"
    and "sc_id (f (cl_objs cl ! a)) = sc_id (cl_objs cl ! a)"
  shows "cl_inv (upd_sc a f cl)"
  using assms map_sc_id_upd [OF assms(2,4)]
  by (auto simp: cl_inv_def upd_sc_def nth_list_update dest!: set_update_subset_insert [THEN subsetD])

lemma cl_inv_put [simp]: "cl_inv (put_reliable e rm rm' cl) = cl_inv cl"
  by (simp add: cl_inv_def put_reliable_def)

lemma objs_put [simp]: "cl_objs (put_reliable e rm rm' cl) = cl_objs cl"
  by (simp add: put_reliable_def)

lemma cl_inv_accept: "cl_inv cl \<Longrightarrow> cl_inv (accept_step cl)"
  by (simp add: accept_step_def cl_inv_def)

lemma cl_inv_start: "cl_inv cl \<Longrightarrow> cl_inv (start_handler cl)"
proof -
  assume inv: "cl_inv cl"
  have n: "sc_id (new_streamConn sid) = sid" for sid by (simp add: new_streamConn_def)
  have "cl_nextStreamID cl + 1 = of_nat (length (cl_objs cl) + 2)"
    using inv by (simp add: cl_inv_def)
  with inv n sc_inv_new show ?thesis
    by (auto simp: start_handler_def handleConnection_start_def cl_inv_def Let_def nth_append
        intro!: less_SucI split: if_splits)
qed

lemma cl_inv_simple_upd:
  assumes "cl_inv cl" and "a < length (cl_objs cl)"
  shows "cl_inv (upd_sc a (\<lambda>sc. sc\<lparr>sc_handler := h\<rparr>) cl)" "cl_inv (upd_sc a (count_out d) cl)"
proof -
  have "sc_inv ((cl_objs cl ! a)\<lparr>sc_handler := h\<rparr>)" "sc_inv (count_out d (cl_objs cl ! a))"
    using cl_invD [OF assms] by (simp_all add: sc_inv_def sc_views count_out_def)
  with assms show "cl_inv (upd_sc a (\<lambda>sc. sc\<lparr>sc_handler := h\<rparr>) cl)" "cl_inv (upd_sc a (count_out d) cl)"
    by (intro cl_inv_upd; simp add: count_out_def)+
qed

lemma cl_inv_leave:
  assumes "cl_inv cl" and "a < length (cl_objs cl)"
  shows "cl_inv (leave_read_loop e a cl)"
  using assms cl_inv_simple_upd(1)
  by (auto simp: leave_read_loop_def Let_def split: option.split)

lemma objs_upd [simp]: "length (cl_objs (upd_sc a f cl)) = length (cl_objs cl)"
  by (simp add: upd_sc_def)

lemma cl_inv_read:
  assumes "cl_inv cl" and "a < length (cl_objs cl)"
  shows "cl_inv (read_step e others r a cl)"
  using assms cl_inv_simple_upd(2) [OF assms] cl_inv_leave
  by (auto simp: read_step_def Let_def split: option.split)

definition cl_clean_sched :: "(u32 \<Rightarrow> bytes \<Rightarrow> sc_go list) \<Rightarrow> bool" where
  "cl_clean_sched sched \<longleftrightarrow> (\<forall>sid data. list_all sc_clean (sched sid data))"

lemma cl_inv_table_upd:
  assumes "cl_inv cl" and "\<And>sc. sc_inv sc \<Longrightarrow> sc_inv (f sc)" and "\<And>sc. sc_id (f sc) = sc_id sc"
  shows "cl_inv (case fmlookup (cl_streams cl) sid of None \<Rightarrow> cl | Some a \<Rightarrow> upd_sc a f cl)"
  using assms cl_inv_table [OF assms(1)] cl_invD [OF assms(1)]
  by (auto split: option.split intro!: cl_inv_upd)

lemma cl_inv_callback:
  assumes "cl_inv cl" and "cl_clean_sched sched"
  shows "cl_inv (cl_callback sched ev cl)"
proof (cases ev)
  case (OnData sid data)
  have "sc_inv (sc_handleData (sched sid data) data sc)" if "sc_inv sc" for sc
    using sc_inv_step [OF that, of "ScData (sched sid data) data"] assms(2) by (simp add: cl_clean_sched_def)
  with OnData assms(1) show ?thesis by (simp add: cl_handleReliableData_def cl_inv_table_upd)
next
  case (OnClose sid)
  have "sc_inv (sc_handleClose sc)" if "sc_inv sc" for sc
    using sc_inv_step [OF that, of ScPeerClose] by simp
  with OnClose assms(1) show ?thesis by (simp add: cl_handleReliableClose_def cl_inv_table_upd)
qed (use assms in simp)

lemma cl_inv_packet:
  assumes "cl_inv cl" and "cl_clean_sched sched"
  shows "cl_inv (client_handleGREPacket e sched data cl)"
proof (cases "cl_reliable cl")
  case (Some rm)
  have "cl_inv (fold (cl_callback sched) events (put_reliable e rm rm' cl))" for events rm'
    by (rule fold_invariant) (simp_all add: assms cl_inv_callback)
  with Some show ?thesis by (simp add: client_handleGREPacket_def Let_def)
qed (use assms in \<open>simp add: client_handleGREPacket_def\<close>)

lemma cl_inv_receive:
  assumes "cl_inv cl" and "cl_clean_sched sched"
  shows "cl_inv (client_receive e sched rd st cl)"
proof (cases "cl_transport cl")
  case (Some t)
  have "cl_inv (fold (client_handleGREPacket e sched) calls (cl\<lparr>cl_transport := t'\<rparr>))" for calls t'
    by (rule fold_invariant, erule cl_inv_packet [OF _ assms(2)])
      (rule cl_inv_view [OF assms(1)], simp_all)
  with Some show ?thesis by (simp add: client_receive_def Let_def)
qed (use assms in \<open>simp add: client_receive_def\<close>)

lemma cl_inv_close:
  assumes "cl_inv cl"
  shows "cl_inv (client_Close iter cl)"
proof -
  let ?close = "\<lambda>sid cl. case fmlookup (cl_streams cl) sid of None \<Rightarrow> cl | Some a \<Rightarrow> upd_sc a sc_close cl"
  let ?cl = "cl\<lparr>cl_closed := True, cl_listening := False, cl_reliable := map_option rm_Close (cl_reliable cl)\<rparr>"
  have "cl_inv ?cl" by (rule cl_inv_view [OF assms]) simp_all
  then have "cl_inv (fold ?close sids ?cl)" for sids
    by (rule fold_invariant [rotated]) (simp add: cl_inv_table_upd sc_inv_close)
  then have "cl_inv ((fold ?close sids ?cl)\<lparr>cl_transport := t\<rparr>)" for sids t
    by (rule cl_inv_view) simp_all
  with assms show ?thesis by (simp add: client_Close_def Let_def)
qed

fun cl_clean :: "cl_op \<Rightarrow> bool" where
  "cl_clean (ClReceive e sched rd st) = cl_clean_sched sched"
| "cl_clean (ClGo a g) = sc_clean g"
| "cl_clean _ = True"

lemma cl_inv_forget:
  assumes "cl_inv cl" and "a < length (cl_objs cl)"
  shows "cl_inv (forget_step a cl)"
proof -
  have "cl_inv (cl\<lparr>cl_streams := fmdrop sid (cl_streams cl), cl_reliable := rm\<rparr>)" for sid rm
    using assms(1) by (simp add: cl_inv_def)
  with assms cl_inv_simple_upd(1) show ?thesis by (simp add: forget_step_def Let_def)
qed

lemma cl_inv_step:
  assumes "cl_inv cl" and "cl_clean op"
  shows "cl_inv (cl_step op cl)"
proof (cases op)
  case (ClGo a g)
  with assms cl_invD [OF assms(1)] show ?thesis
    by (auto simp: cl_step_def sc_inv_run1 intro!: cl_inv_upd)
qed (use assms in \<open>auto simp: cl_step_def cl_inv_accept cl_inv_start cl_inv_receive cl_inv_read cl_inv_forget
      cl_inv_close cl_timer_def cl_late_def split: option.split\<close>)

lemma cl_inv_run: "cl_inv cl \<Longrightarrow> list_all cl_clean ops \<Longrightarrow> cl_inv (cl_run ops cl)"
  unfolding cl_run_def by (rule fold_invariant) (auto simp: list_all_iff cl_inv_step)

lemma stream_ids_distinct:
  assumes "n \<le> 2 ^ 32"
  shows "distinct (map (\<lambda>i. of_nat (i + 2) :: u32) [0..<n])"
proof -
  have "i = j" if "i < n" "j < n" "(of_nat (i + 2) :: u32) = of_nat (j + 2)" for i j
  proof -
    have "(of_nat i :: u32) = of_nat j" using that(3) by simp
    then have "unat (of_nat i :: u32) = unat (of_nat j :: u32)" by simp
    with that(1,2) assms show ?thesis by (simp add: unat_of_nat)
  qed
  then show ?thesis by (auto simp: distinct_map inj_on_def)
qed

section \<open>Properties\<close>

text \<open>
  C18. The client as a whole. After any sequence of accepted connections, handler starts, datagrams, goroutine steps
  and closing in which no write of a writer's main loop fails on an open connection (\<open>cl_clean\<close>): the streams
  have the identifiers 2, 3, 4, ... in the order in which their handlers started, all
  different for the first 2^32 streams; the table refers to streams under their own identifiers;
  and on every stream the bytes written to TCP are a prefix of the bytes queued for it, in order. The comment in
  \<open>NewClient\<close> says that the identifiers start with 1.
\<close>

theorem client_invariant:
  assumes "list_all cl_clean ops"
    and "cl = cl_run ops (snd (client_Start lip lis (NewClient addr lo srv key)))"
  shows "map sc_id (cl_objs cl) = map (\<lambda>i. of_nat (i + 2)) [0..<length (cl_objs cl)]
    \<and> (length (cl_objs cl) \<le> 2 ^ 32 \<longrightarrow> distinct (map sc_id (cl_objs cl)))
    \<and> (\<forall>sid a. fmlookup (cl_streams cl) sid = Some a \<longrightarrow>
         a < length (cl_objs cl) \<and> sc_id (cl_objs cl ! a) = sid)
    \<and> (\<forall>sc \<in> set (cl_objs cl). prefix (sc_out sc) (sc_accepted sc))"
proof -
  have inv: "cl_inv cl" using cl_inv_run [OF cl_inv_new assms(1)] assms(2) by simp
  then have ids: "map sc_id (cl_objs cl) = map (\<lambda>i. of_nat (i + 2)) [0..<length (cl_objs cl)]"
    by (simp add: cl_inv_def)
  have "distinct (map sc_id (cl_objs cl))" if "length (cl_objs cl) \<le> 2 ^ 32"
    unfolding ids by (rule stream_ids_distinct [OF that])
  with inv ids show ?thesis by (auto simp: cl_inv_def sc_inv_def dest: flow_prefix)
qed

theorem client_invariant_witness:
  "map sc_id (cl_objs (cl_run [ClAccept, ClAccept, ClStart, ClStart]
      (snd (client_Start None None (NewClient ''0.0.0.0:1080'' [10, 0, 0, 1] [10, 0, 0, 2] 5))))) = [2, 3]"
proof -
  let ?cl = "cl_run [ClAccept, ClAccept, ClStart, ClStart]
      (snd (client_Start None None (NewClient ''0.0.0.0:1080'' [10, 0, 0, 1] [10, 0, 0, 2] 5)))"
  have "length (cl_objs ?cl) = 2"
    by (simp add: cl_run_def cl_step_def accept_step_def start_handler_def handleConnection_start_def client_Start_def
        NewRawTransport_def NewClient_def Let_def)
  moreover have "list_all cl_clean [ClAccept, ClAccept, ClStart, ClStart]" by simp
  ultimately show ?thesis
    using client_invariant [OF _ refl, of "[ClAccept, ClAccept, ClStart, ClStart]" None None "''0.0.0.0:1080''" "[10, 0, 0, 1]"
        "[10, 0, 0, 2]" 5] by (simp add: numeral_2_eq_2)
qed

end
