(* ===== verification/CmdMain.thy ===== *)
theory CmdMain
  imports ServerApp ClientApp
begin

text \<open>
  The command, cmd/shadow-gre/main.go: validation of the flags, the tunnel key from the password, and
  the life of the client or server it starts. Messages and usage text are left out.
\<close>

section \<open>The tunnel key\<close>

text \<open>\<open>hash/fnv\<close>: the 32-bit FNV-1a hash, byte by byte.\<close>

definition fnv1a_step :: "u8 \<Rightarrow> u32 \<Rightarrow> u32" where
  "fnv1a_step b h = (h XOR ucast b) * 16777619"

definition fnv1a_32 :: "bytes \<Rightarrow> u32" where
  "fnv1a_32 bs = fold fnv1a_step bs 2166136261"

definition passwordToKey :: "string \<Rightarrow> u32" where
  "passwordToKey password = fnv1a_32 (map of_char password)"

section \<open>Addresses\<close>

text \<open>
  \<open>net.ParseIP\<close>: the first dot or colon decides the notation. Dotted decimal is parsed field by
  field: digits without a leading zero, values up to 255, four fields. The parser of IPv6 notation is
  an argument: the sockets of the program are IPv4 sockets.
\<close>

definition is_digit :: "char \<Rightarrow> bool" where
  "is_digit c \<longleftrightarrow> (48 :: nat) \<le> of_char c \<and> (of_char c :: nat) \<le> 57"

fun parse4_fields :: "string \<Rightarrow> nat \<Rightarrow> nat \<Rightarrow> nat list \<Rightarrow> nat list option" where
  "parse4_fields [] val digLen fs =
     (if length fs < 3 then None else Some (fs @ [val]))"
| "parse4_fields (c # s) val digLen fs =
     (if is_digit c then
        if digLen = 1 \<and> val = 0 then None
        else
          let val = val * 10 + (of_char c - 48)
          in if val > 255 then None else parse4_fields s val (digLen + 1) fs
      else if c = CHR ''.'' then
        if digLen = 0 \<or> s = [] then None
        else if length fs = 3 then None
        else parse4_fields s 0 0 (fs @ [val])
      else None)"

definition v4_mapped :: "bytes \<Rightarrow> bytes" where
  "v4_mapped ip = replicate 10 0 @ [0xff, 0xff] @ ip"

definition parseIPv4 :: "string \<Rightarrow> bytes option" where
  "parseIPv4 s = map_option (\<lambda>fs. v4_mapped (map of_nat fs)) (parse4_fields s 0 0 [])"

fun ParseIP_scan :: "(string \<Rightarrow> bytes option) \<Rightarrow> string \<Rightarrow> string \<Rightarrow> bytes option" where
  "ParseIP_scan parseIPv6 s [] = None"
| "ParseIP_scan parseIPv6 s (c # rest) =
     (if c = CHR ''.'' then parseIPv4 s
      else if c = CHR '':'' then parseIPv6 s
      else if c = CHR ''%'' then None
      else ParseIP_scan parseIPv6 s rest)"

definition ParseIP :: "(string \<Rightarrow> bytes option) \<Rightarrow> string \<Rightarrow> bytes option" where
  "ParseIP parseIPv6 s = ParseIP_scan parseIPv6 s s"

section \<open>Running\<close>

record flags =
  fl_mode :: string
  fl_listen :: string
  fl_local :: string
  fl_remote :: string
  fl_backend :: string
  fl_password :: string
  fl_version :: bool

text \<open>
  What the environment contributes: the IPv6 parser, the errors of opening the sockets, what happens to
  the client or server until a signal arrives, and the iteration order of maps.
\<close>

record world =
  w_parseIPv6 :: "string \<Rightarrow> bytes option"
  w_listenIP :: "go_error option"
  w_listen :: "go_error option"
  w_client_ops :: "cl_op list"
  w_server_ops :: "sv_op list"
  w_iter :: "u32 fset \<Rightarrow> u32 list"

datatype outcome = Exit nat | ClientDone client | ServerDone server

definition runClient :: "world \<Rightarrow> string \<Rightarrow> bytes \<Rightarrow> string \<Rightarrow> u32 \<Rightarrow> outcome" where
  "runClient w listen local remote key =
     (if listen = '''' then Exit 1
      else if remote = '''' then Exit 1
      else case ParseIP (w_parseIPv6 w) remote of
        None \<Rightarrow> Exit 1
      | Some remoteIP \<Rightarrow>
          (case client_Start (w_listenIP w) (w_listen w) (NewClient listen local remoteIP key) of
             (Some err, _) \<Rightarrow> Exit 1
           | (None, cl) \<Rightarrow> ClientDone (client_Close (w_iter w) (cl_run (w_client_ops w) cl))))"

definition runServer :: "world \<Rightarrow> bytes \<Rightarrow> string \<Rightarrow> u32 \<Rightarrow> outcome" where
  "runServer w local backend key =
     (if backend = '''' then Exit 1
      else case server_Start (w_listenIP w) (NewServer local backend key) of
        (Some err, _) \<Rightarrow> Exit 1
      | (None, sv) \<Rightarrow> ServerDone (server_Close (w_iter w) (sv_run (w_server_ops w) sv)))"

definition main :: "world \<Rightarrow> flags \<Rightarrow> outcome" where
  "main w f =
     (if fl_version f then Exit 0
      else if fl_mode f = '''' then Exit 1
      else if fl_local f = '''' then Exit 1
      else if fl_password f = '''' then Exit 1
      else case ParseIP (w_parseIPv6 w) (fl_local f) of
        None \<Rightarrow> Exit 1
      | Some local \<Rightarrow>
          let key = passwordToKey (fl_password f)
          in if fl_mode f = ''client'' then runClient w (fl_listen f) local (fl_remote f) key
             else if fl_mode f = ''server'' then runServer w local (fl_backend f) key
             else Exit 1)"

section \<open>Lemmas\<close>

lemma fnv_prime_inverse: "(16777619 :: u32) * 899433627 = 1"
  by simp

lemma fnv1a_step_inj: "fnv1a_step b h = fnv1a_step b h' \<Longrightarrow> h = h'"
proof -
  assume "fnv1a_step b h = fnv1a_step b h'"
  then have "(h XOR ucast b) * 16777619 * 899433627 = (h' XOR ucast b) * 16777619 * (899433627 :: u32)"
    by (simp add: fnv1a_step_def)
  then have "h XOR ucast b = h' XOR ucast b" by (simp only: mult.assoc fnv_prime_inverse mult_1_right)
  then have "(h XOR ucast b) XOR ucast b = (h' XOR ucast b) XOR ucast b" by simp
  then show ?thesis by (simp only: xor.assoc) simp
qed

lemma fnv1a_byte_inj: "fnv1a_step a h = fnv1a_step b h \<Longrightarrow> a = b"
proof -
  assume "fnv1a_step a h = fnv1a_step b h"
  then have "(h XOR ucast a) * 16777619 * 899433627 = (h XOR ucast b) * 16777619 * (899433627 :: u32)"
    by (simp add: fnv1a_step_def)
  then have "h XOR ucast a = h XOR ucast b" by (simp only: mult.assoc fnv_prime_inverse mult_1_right)
  then have "h XOR (h XOR ucast a) = h XOR (h XOR ucast b)" by simp
  then have "(ucast a :: u32) = ucast b" by (simp flip: xor.assoc)
  then have eq: "bit (ucast a :: u32) n = bit (ucast b :: u32) n" for n by simp
  show ?thesis
  proof (rule bit_word_eqI)
    fix n assume "n < LENGTH(8)"
    with eq [of n] show "bit a n = bit b n" by (simp add: bit_ucast_iff)
  qed
qed

lemma fnv1a_fold_inj: "fold fnv1a_step bs h = fold fnv1a_step bs h' \<Longrightarrow> h = h'"
  by (induction bs arbitrary: h h') (auto dest: fnv1a_step_inj)

lemma of_char_u8_inj: "(of_char a :: u8) = of_char b \<Longrightarrow> a = b"
proof -
  assume eq: "(of_char a :: u8) = of_char b"
  have *: "unat (of_char c :: u8) = of_char c" for c
  proof -
    have "(of_char c :: u8) = of_nat (of_char c)" by (rule of_nat_of_char [symmetric])
    moreover have "(of_char c :: nat) < 256" by simp
    ultimately show ?thesis by (simp add: unat_of_nat)
  qed
  from eq have "unat (of_char a :: u8) = unat (of_char b :: u8)" by simp
  then show ?thesis unfolding * by simp
qed

lemma parse4_digit:
  assumes "k < 10" and "\<not> (digLen = 1 \<and> val = 0)" and "val * 10 + k \<le> 255"
  shows "parse4_fields (digit k # s) val digLen fs = parse4_fields s (val * 10 + k) (Suc digLen) fs"
  using assms of_char_digit [OF assms(1)] by (auto simp: is_digit_def Let_def)

declare parse4_fields.simps(2) [simp del]

lemma parse4_decimal:
  "\<exists>l > 0. parse4_fields (decimal b @ rest) 0 0 fs = parse4_fields rest (unat b) l fs"
proof -
  define n where "n = unat b"
  have n: "n \<le> 255" using unat_byte [of b] by (simp add: n_def)
  have d: "n div 100 < 10" "n div 10 mod 10 < 10" "n mod 10 < 10" using n by auto
  have sum: "(n div 100 * 10 + n div 10 mod 10) * 10 + n mod 10 = n"
    using three_digits [of n] by (simp add: algebra_simps)
  consider "n < 10" | "10 \<le> n" "n < 100" | "100 \<le> n" by linarith
  then have "\<exists>l > 0. parse4_fields (decimal b @ rest) 0 0 fs = parse4_fields rest n l fs"
  proof cases
    case 1
    then show ?thesis by (intro exI [of _ 1]) (simp add: decimal_def n_def [symmetric] parse4_digit)
  next
    case 2
    then have z: "n div 100 = 0" by simp
    have "n div 10 mod 10 = n div 10" using 2 by simp
    moreover have "0 < n div 10" using 2 by simp
    ultimately show ?thesis using 2 z d sum n
      by (intro exI [of _ "Suc (Suc 0)"]) (simp add: decimal_def n_def [symmetric] parse4_digit Let_def)
  next
    case 3
    then have "0 < n div 100" by simp
    moreover have "n div 100 * 10 + n div 10 mod 10 \<le> 255" using sum n by linarith
    ultimately show ?thesis using 3 d sum n
      by (intro exI [of _ "Suc (Suc (Suc 0))"]) (simp add: decimal_def n_def [symmetric] parse4_digit Let_def)
  qed
  then show ?thesis by (simp add: n_def)
qed

lemma parse4_dot:
  assumes "0 < l" and "s \<noteq> []" and "length fs < 3"
  shows "parse4_fields (CHR ''.'' # s) v l fs = parse4_fields s 0 0 (fs @ [v])"
  using assms by (simp add: parse4_fields.simps is_digit_def)

lemma decimal_nonempty: "decimal b \<noteq> []"
  by (simp add: decimal_def Let_def)

lemma parse4_String:
  "parse4_fields (decimal a @ ''.'' @ decimal b @ ''.'' @ decimal c @ ''.'' @ decimal d) 0 0 []
     = Some [unat a, unat b, unat c, unat d]"
proof -
  have step: "parse4_fields (decimal x @ CHR ''.'' # s) 0 0 fs = parse4_fields s 0 0 (fs @ [unat x])"
    if "s \<noteq> []" "length fs < 3" for x s fs
    using parse4_decimal [of x "CHR ''.'' # s" fs] parse4_dot [OF _ that] by auto
  have last: "parse4_fields (decimal x) 0 0 fs = Some (fs @ [unat x])" if "length fs = 3" for x fs
    using parse4_decimal [of x "[]" fs] that by auto
  show ?thesis by (simp add: step last decimal_nonempty)
qed

lemma digit_not_special:
  assumes "is_digit c"
  shows "c \<noteq> CHR ''.''" "c \<noteq> CHR '':''" "c \<noteq> CHR ''%''"
  using assms by (auto simp: is_digit_def)

lemma scan_digits:
  "list_all is_digit pre \<Longrightarrow> ParseIP_scan p6 s (pre @ CHR ''.'' # rest) = parseIPv4 s"
  by (induction pre) (simp_all add: digit_not_special)

lemma decimal_digits: "c \<in> set (decimal b) \<Longrightarrow> is_digit c"
proof -
  have "unat b div 100 < 10" using unat_byte [of b] by (simp add: less_mult_imp_div_less)
  moreover have "is_digit (digit k)" if "k < 10" for k using of_char_digit [OF that] that by (simp add: is_digit_def)
  moreover assume "c \<in> set (decimal b)"
  ultimately show ?thesis by (auto simp: decimal_def Let_def split: if_splits)
qed

lemma ParseIP_String: "ParseIP p6 (ip_String [a, b, c, d]) = Some (v4_mapped [a, b, c, d])"
proof -
  let ?s = "decimal a @ ''.'' @ decimal b @ ''.'' @ decimal c @ ''.'' @ decimal d"
  have str: "ip_String [a, b, c, d] = ?s" by (simp add: ip_String_def To4_def)
  have "list_all is_digit (decimal a)" by (simp add: list_all_iff decimal_digits)
  from scan_digits [OF this, of p6 ?s] have "ParseIP p6 ?s = parseIPv4 ?s" by (simp add: ParseIP_def)
  then show ?thesis using parse4_String [of a b c d] by (simp add: str parseIPv4_def)
qed

section \<open>Properties\<close>

text \<open>
  C39. Two passwords that differ in exactly one character give different tunnel keys: a mistyped
  character is always noticed, since packets with another key are dropped.
\<close>

theorem password_key_one_change:
  "passwordToKey (p @ [x] @ s) = passwordToKey (p @ [y] @ s) \<longleftrightarrow> x = y"
proof
  let ?h = "fold fnv1a_step (map of_char p) 2166136261"
  assume "passwordToKey (p @ [x] @ s) = passwordToKey (p @ [y] @ s)"
  then have "fold fnv1a_step (map of_char s) (fnv1a_step (of_char x) ?h) =
      fold fnv1a_step (map of_char s) (fnv1a_step (of_char y) ?h)"
    by (simp add: passwordToKey_def fnv1a_32_def)
  then have "fnv1a_step (of_char x) ?h = fnv1a_step (of_char y) ?h" by (rule fnv1a_fold_inj)
  then have "(of_char x :: u8) = of_char y" by (rule fnv1a_byte_inj)
  then show "x = y" by (rule of_char_u8_inj)
qed simp

text \<open>
  Address round trip: the parser of the command line reads the printed form of every IPv4 address
  back, as an address that the transports take for the same one.
\<close>

theorem parse_ip_roundtrip:
  "ParseIP p6 (ip_String [a, b, c, d]) = Some (v4_mapped [a, b, c, d])
   \<and> To4 (v4_mapped [a, b, c, d]) = [a, b, c, d] \<and> ip_Equal [a, b, c, d] (v4_mapped [a, b, c, d])"
  using ParseIP_String by (simp add: To4_def v4_mapped_def ip_Equal_def numeral_eq_Suc)

text \<open>
  C38. What the command starts. Without \<open>-version\<close> it ends as a client exactly when the mode is \<open>client\<close>, all
  flags that the mode needs are given, both addresses parse and both sockets open, and as a server
  exactly when the corresponding conditions of that mode hold; in every other case it exits with status 1.
  A client or server that was started runs with the parsed addresses and the key of the password, and is
  closed at the end.
\<close>

theorem main_exact:
  assumes "\<not> fl_version f" and "common = (fl_local f \<noteq> [] \<and> fl_password f \<noteq> [] \<and> w_listenIP w = None)"
    and "key = passwordToKey (fl_password f)"
  shows "main w f =
    (case (ParseIP (w_parseIPv6 w) (fl_local f), ParseIP (w_parseIPv6 w) (fl_remote f)) of
       (Some local, remote) \<Rightarrow>
         if common \<and> fl_mode f = ''client'' \<and> fl_listen f \<noteq> [] \<and> fl_remote f \<noteq> [] \<and> remote \<noteq> None
            \<and> w_listen w = None
         then ClientDone (client_Close (w_iter w) (cl_run (w_client_ops w)
                (snd (client_Start None None (NewClient (fl_listen f) local (the remote) key)))))
         else if common \<and> fl_mode f = ''server'' \<and> fl_backend f \<noteq> []
         then ServerDone (server_Close (w_iter w) (sv_run (w_server_ops w)
                (snd (server_Start None (NewServer local (fl_backend f) key)))))
         else Exit 1
     | _ \<Rightarrow> Exit 1)"
  using assms
  by (auto simp: main_def runClient_def runServer_def client_Start_def server_Start_def NewRawTransport_def
      NewServerTransport_def NewServer_def NewClient_def Let_def split: option.split)

theorem main_exact_witness:
  "main \<lparr>w_parseIPv6 = (\<lambda>_. None), w_listenIP = None, w_listen = None, w_client_ops = [], w_server_ops = [],
         w_iter = (\<lambda>_. [])\<rparr>
     \<lparr>fl_mode = ''server'', fl_listen = [], fl_local = ''10.0.0.2'', fl_remote = [], fl_backend = ''127.0.0.1:80'',
      fl_password = ''a'', fl_version = False\<rparr> =
   ServerDone (server_Close (\<lambda>_. []) (sv_run []
     (snd (server_Start None (NewServer (v4_mapped [10, 0, 0, 2]) ''127.0.0.1:80'' 0xe40c292c)))))"
proof -
  have "ParseIP (\<lambda>_. None) ''10.0.0.2'' = Some (v4_mapped [10, 0, 0, 2])" by code_simp
  moreover have "passwordToKey ''a'' = 0xe40c292c" by code_simp
  ultimately show ?thesis by (subst main_exact [OF _ refl refl]) simp_all
qed

end
