(* ===== verification/Spec2Isabelle.thy ===== *)
theory Spec2Isabelle
  imports Frames RelSack ConnStream CmdMain
begin

text \<open>
  A verification library for Shadow GRE, a TCP proxy that carries byte streams in GRE packets over raw
  IP sockets.

  \<^bold>\<open>The program.\<close> The client (pkg/shadowgre/client.go) accepts TCP connections; each becomes a stream with
  an identifier. What it reads goes to the reliable layer (pkg/tunnel/reliable.go), which cuts it into
  numbered packets, keeps them until they are acknowledged and retransmits them; the transport
  (pkg/transport) wraps each packet into a GRE packet with the tunnel's key (pkg/gre) and writes it to the
  socket. The server (pkg/shadowgre/server.go) does the reverse: packets of the transport go to the reliable
  manager of the client's address, delivered data to a backend connection, which is dialled when the first data of a
  stream arrives; responses go back the same way. An older layer, virtual connections over unreliable frames
  (pkg/tunnel/frame.go, manager.go), stands beside it, and the command (cmd/shadow-gre) parses the flags and
  derives the key from the password.

  \<^bold>\<open>Theories and what they model.\<close>
  \<^item> Prelude: machine types, error values, byte buffers with Go's bounds panics, big-endian integers, Go maps as
    finite maps with an iteration order given as an argument, and the contracts of wire codecs as locales.
  \<^item> Gre (gre.go): header, packet and IPv4 header codecs. Frames (frame.go, stream.go): frame and stream packet
    codecs. RelPacket (reliable.go 40 to 230): the reliable packet with SACK blocks, both decoders.
  \<^item> SeqNum: serial number comparison and the sort of \<open>buildSackBlocks\<close>. Float64: rounding of float64. RTT: the
    RTT estimator, every operation rounded.
  \<^item> RelStream (\<open>ReliableStream\<close>): state as the record \<open>rstream\<close>, one definition per method, all goroutine steps as
    \<open>stream_op\<close>. RelReceiver, RelSender, RelSack: the properties of receiving, sending and selective
    acknowledgement. RelSystem: two endpoints and a network that loses, duplicates and reorders. RelManager
    (\<open>ReliableManager\<close>): the table of streams, dispatch and callbacks.
  \<^item> Transport (raw.go, server.go of pkg/transport): both transports, zero-copy sending, the receive loops.
  \<^item> ConnManager (manager.go): \<open>Connection\<close> and \<open>Manager\<close>; ConnStream: their byte-stream properties.
  \<^item> Pipe: TCP connections as their writers see them and the contract of an ordered pipe. ServerStream: \<open>serverStream\<close>
    and its goroutines; ServerApp: \<open>clientState\<close>, \<open>Server\<close>, the handlers. ClientStream: \<open>streamConn\<close>; ClientApp:
    \<open>Client\<close>. CmdMain (main.go): key, addresses, flags, life of the program.

  \<^bold>\<open>How the code is modelled.\<close> A struct is a record, a method a function on it, an error a value of a sum or
  option, a panic \<open>None\<close>. Unsigned integers are words; signed ones are integers that go through the
  wrap-around functions where they may leave their range. What the code gets from outside (clock, map order,
  results of reads, writes, dials and of the send function) is an argument, so a statement holds for every
  behaviour of it. Goroutines are interleaved: what runs under a mutex is one step; where a method blocks or
  looks at the shared state twice (\<open>Send\<close>, \<open>Dial\<close>, \<open>handleReliableData\<close>) the steps of the others in between are an
  argument. \<open>connectAndRun\<close>, \<open>writeLoop\<close>, \<open>readFromBackend\<close> and \<open>handleConnection\<close> are split into steps: a \<open>close()\<close>
  between the assignment of the backend connection and the store of the connected state, or data that arrives during the
  pause of \<open>writeLoop\<close>, is an interleaving of the model; accepting a connection and starting its handler are two
  steps. The methods that close an object (\<open>close()\<close> of the streams, \<open>Connection.Close\<close>, the \<open>Close\<close> of the owners) are
  one step each: the states between their assignments are not part of the model. Streams that a manager has dropped
  still take their timer, loop and \<open>Send\<close> steps. A slice that is cut beyond its length (\<open>SendZeroCopy\<close>) is
  modelled with its capacity. Objects that outlive their table entry live in stores and are referred to by index. Records carry,
  where noted, logs of the calls made to the outside (sent buffers, delivered blocks) and of data accepted, which the
  code never reads. All loops are total functions with termination proofs; no fuel is used. Blocking calls
  return \<open>None\<close> when the given schedule does not wake them, and progress is stated separately.

  \<^bold>\<open>What is shown.\<close>
  \<^item> End to end: \<open>proxied_bytes\<close> below, from \<open>end_to_end_prefix\<close> (RelSystem) and the pipe properties of client and
    server streams. Per stream: in-order delivery and the refinement of an abstract receiver (RelReceiver);
    acknowledgement processing, retransmission timer, window and congestion bounds, blocking and progress of \<open>Send\<close>
    (RelSender); SACK blocks and buffer bounds (RelSack).
  \<^item> Forwarding: order and completeness on both sides under any interleaving, and the invariants of whole
    client and server (ServerStream, ClientStream, ServerApp, ClientApp), isolation of clients. The statements about
    order exclude (\<open>clean\<close>, \<open>sc_clean\<close>) the failing writes after which the code goes on writing, since
    those do leave gaps; the isolation of clients needs no such assumption.
  \<^item> Codecs: exact characterisation of what the decoders accept, round trips, in-place encoders equal to
    allocating ones, crossing of the tunnel, packet sizes below the MTU.
  \<^item> Virtual connections: invariant, exact reads and writes, round trip, handshake.
  \<^item> Estimator: bounds of the RTO and the smoothed RTT with rounding. Command: what it starts, and that a mistyped
    password gives another key.
  \<^item> Weaknesses of the code, each as a theorem: stale acknowledgements discard packets (\<open>stale_ack_discards\<close>), data
    after a close packet and responses after a half-close are lost (\<open>data_after_close_lost\<close>,
    \<open>response_after_half_close_lost\<close>), failed writes leave gaps (\<open>drain_leaves_gap\<close>, \<open>failed_write_leaves_gap\<close>),
    a dial undoes a close (\<open>dial_undoes_close\<close>), a FIN discards unread data (\<open>fin_discards_unread\<close>).

  \<^bold>\<open>Interfaces.\<close> Locales state what one component relies on in another: \<open>wire_codec\<close>, \<open>canonical_codec\<close> and
  \<open>encapsulation\<close> (interpreted for every packet format, and for reliable packets in GRE packets), \<open>rounding\<close>
  (float64), \<open>window_order\<close> (sequence numbers), \<open>append_log\<close> (deliveries and transmissions of a stream),
  \<open>byte_source\<close> (reads of a connection), \<open>ordered_pipe\<close> (server and client streams).

  \<^bold>\<open>Not modelled.\<close> Log output, socket options, buffer pools, read and write deadlines (their effect is an
  outcome of the read or write), the \<open>WaitGroup\<close>s that \<open>Close\<close> waits for, aliasing of decoded payloads with their input
  buffers, the text notation of IPv6 addresses (a parameter), the \<open>flag\<close> package.

  \<^bold>\<open>Bounds.\<close> The end-to-end statements assume fewer than 2^31 blocks per direction: sequence numbers are 32-bit
  and compared as signed differences, and two stream objects that live through the exchange: what happens when a close
  packet removes one of them is stated separately (\<open>data_after_close_lost\<close>, \<open>response_after_half_close_lost\<close>). Connection identifiers of the client repeat after 2^32 connections.
\<close>

section \<open>The proxied byte streams\<close>

lemma prefix_concat: "prefix xs ys \<Longrightarrow> prefix (concat xs) (concat ys)"
  by (auto simp: prefix_def)

text \<open>
  C1. End to end through the tunnel. Take the two ends of a stream, the client's \<open>A\<close> and the server's \<open>B\<close>,
  which live through the whole exchange, over a network that loses, duplicates and reorders packets; one \<open>serverStream\<close>
  gets all that \<open>B\<close> delivers and one \<open>streamConn\<close> all that \<open>A\<close> delivers, each interleaved in any way
  with the goroutines of those objects. Then the backend receives a prefix of the bytes that the client
  gave to the tunnel, and the TCP client a prefix of the bytes that the server gave to it: nothing is
  altered, reordered, repeated or skipped. This holds as long as fewer than 2^31 blocks are sent each way, no write
  fails while the server drains its queue (\<open>clean_op\<close>) and no write of the client's main loop fails on an open connection
  (\<open>sc_clean_op\<close>); otherwise there may be a gap (\<open>drain_leaves_gap\<close>, \<open>failed_write_leaves_gap\<close>).
\<close>

theorem proxied_bytes:
  assumes "network sid A B" and "length (ep_items A) < 2 ^ 31" and "length (ep_items B) < 2 ^ 31"
    and "list_all clean_op sops" and "concat (map ss_data sops) = concat (deliveredLog (ep_stream B))"
    and "list_all sc_clean_op cops" and "concat (map sc_op_data cops) = concat (deliveredLog (ep_stream A))"
  shows "prefix (ss_out (ss_run sid sops)) (concat (ep_items A))
    \<and> prefix (sc_out (sc_run sid cops)) (concat (ep_items B))"
proof -
  note net = network_prefix [OF assms(1-3)]
  have "prefix (ss_out (ss_run sid sops)) (concat (deliveredLog (ep_stream B)))"
    using ss_out_prefix [OF assms(4), of sid] assms(5) by simp
  moreover have "prefix (sc_out (sc_run sid cops)) (concat (deliveredLog (ep_stream A)))"
    using sc_out_prefix [OF assms(6), of sid] assms(7) by simp
  ultimately show ?thesis
    using net prefix_concat prefix_order.trans by blast
qed

theorem proxied_bytes_witness:
  "ss_out (ss_run 5 [SsData [] [] [10], SsGo GoConnected, SsGo GoTakePending, SsGo (GoFlush Written)]) = [10]
   \<and> prefix (ss_out (ss_run 5 [SsData [] [] [10], SsGo GoConnected, SsGo GoTakePending, SsGo (GoFlush Written)]))
       (concat (ep_items sample_A))"
proof -
  let ?ops = "[SsData [] [] [10], SsGo GoConnected, SsGo GoTakePending, SsGo (GoFlush Written)]"
  have "deliveredLog (ep_stream sample_B) = [[10]]" "deliveredLog (ep_stream sample_A) = []" by code_simp+
  moreover have "length (ep_items sample_A) < 2 ^ 31" "length (ep_items sample_B) < 2 ^ 31"
    by (simp_all add: sample_A_def sample_B_def new_endpoint_def)
  ultimately have "prefix (ss_out (ss_run 5 ?ops)) (concat (ep_items sample_A))"
    using proxied_bytes [OF sample_network, of ?ops "[]"] by simp
  moreover have "ss_out (ss_run 5 ?ops) = [10]" by code_simp
  ultimately show ?thesis by blast
qed

text \<open>
  C40. No fragmentation. A data packet with at most 1400 bytes, as client and server read them from
  TCP, gives a GRE packet that fits into an IP packet of 1474 bytes, whatever acknowledgement and SACK
  blocks it carries; so it fits the MTU of 1500.
\<close>

theorem packet_fits_mtu:
  assumes "length data \<le> 1400"
  shows "20 + length (Packet_Marshal (NewPacket key (Marshal (data_packet e seq data rs)))) \<le> 1474"
proof -
  let ?p = "data_packet e seq data rs"
  have "length (rp_SackBlocks ?p) \<le> 4"
    using wf_data_packet [of e seq data rs] by (simp add: wf_rpacket_def MaxSackBlocks_def)
  then have "HeaderSize ?p \<le> 46" by (cases "pendingAck rs") (simp_all add: HeaderSize_def size_defs)
  moreover have "rp_Data ?p = data" by (simp add: data_packet_def Let_def)
  ultimately show ?thesis using assms by (simp add: length_NewPacket Marshal_eq length_rheader_bytes)
qed

theorem packet_fits_mtu_witness:
  "20 + length (Packet_Marshal (NewPacket 5 (Marshal (data_packet (env_at 0) 0 (replicate 1400 0) (NewReliableStream 2)))))
   \<le> 1474"
  by (rule packet_fits_mtu) simp

end
